(* ===== verification/Grain_Prelude.thy ===== *)
theory Grain_Prelude
  imports Main "HOL-Library.Word" "HOL-Library.Monad_Syntax" "HOL-Library.Multiset"
begin

section \<open>Shared vocabulary: Go integers, slices, counting lemmas\<close>

text \<open>
  What every component of the development uses:
  \<^item> the machine integers of the Go sources (\<open>uint64\<close> and \<open>uint32\<close> as words, \<open>int64\<close> as an
    \<open>int\<close> with the two's complement wrap-around \<open>wrap_int64\<close> written out);
  \<^item> the run-time checks of Go slices: an access, a slice expression or a \<open>make\<close> that panics in Go
    is \<open>None\<close> here, so that freedom from panics is a theorem and not a convention;
  \<^item> counting lemmas for lists of threads, which the concurrent components use to relate a shared
    counter to the program counters of the goroutines.
\<close>

type_synonym u64 = "64 word"
type_synonym u32 = "32 word"

named_theorems go_simps \<open>facts about the Go primitives\<close>
named_theorems count_simps \<open>counting the threads of a list that satisfy a predicate\<close>

subsection \<open>Signed 64-bit arithmetic\<close>

definition wrap_int64 :: "int \<Rightarrow> int" where
  "wrap_int64 x = (x + 2 ^ 63) mod 2 ^ 64 - 2 ^ 63"

lemma wrap_int64_id [go_simps]:
  assumes "- (2 ^ 63) \<le> x" and "x < 2 ^ 63"
  shows "wrap_int64 x = x"
  using assms by (simp add: wrap_int64_def)

lemma wrap_int64_range: "- (2 ^ 63) \<le> wrap_int64 x \<and> wrap_int64 x < 2 ^ 63"
  using pos_mod_bound [of "2 ^ 64 :: int" "x + 2 ^ 63"] pos_mod_sign [of "2 ^ 64 :: int" "x + 2 ^ 63"]
  by (simp add: wrap_int64_def)

subsection \<open>Slices\<close>

text \<open>\<open>xs[i]\<close> and \<open>xs[i] = v\<close>: an index outside the slice panics.\<close>

definition slice_get :: "'a list \<Rightarrow> int \<Rightarrow> 'a option" where
  "slice_get xs i = (if 0 \<le> i \<and> i < int (length xs) then Some (xs ! nat i) else None)"

definition slice_set :: "'a list \<Rightarrow> int \<Rightarrow> 'a \<Rightarrow> 'a list option" where
  "slice_set xs i v = (if 0 \<le> i \<and> i < int (length xs) then Some (xs[nat i := v]) else None)"

text \<open>\<open>xs[i:]\<close>, \<open>xs[:i]\<close> and \<open>make([]T, n)\<close>, with the bounds the run-time checks.\<close>

definition slice_from :: "'a list \<Rightarrow> int \<Rightarrow> 'a list option" where
  "slice_from xs i = (if 0 \<le> i \<and> i \<le> int (length xs) then Some (drop (nat i) xs) else None)"

definition slice_to :: "'a list \<Rightarrow> int \<Rightarrow> 'a list option" where
  "slice_to xs i = (if 0 \<le> i \<and> i \<le> int (length xs) then Some (take (nat i) xs) else None)"

definition go_make :: "'a \<Rightarrow> int \<Rightarrow> 'a list option" where
  "go_make zero n = (if n < 0 then None else Some (replicate (nat n) zero))"

text \<open>
  \<open>copy(dst[off:], src)\<close> overwrites \<open>dst\<close> from \<open>off\<close> on with as much of \<open>src\<close> as fits, and
  \<open>go_copied\<close> is the number of elements it reports.
\<close>

definition go_copied :: "'a list \<Rightarrow> nat \<Rightarrow> 'a list \<Rightarrow> nat" where
  "go_copied dst off src = min (length dst - off) (length src)"

definition go_copy :: "'a list \<Rightarrow> nat \<Rightarrow> 'a list \<Rightarrow> 'a list" where
  "go_copy dst off src =
     (let k = go_copied dst off src in take off dst @ take k src @ drop (off + k) dst)"

lemma slice_get_Some [go_simps]: "0 \<le> i \<Longrightarrow> i < int (length xs) \<Longrightarrow> slice_get xs i = Some (xs ! nat i)"
  by (simp add: slice_get_def)

lemma slice_set_Some [go_simps]:
  "0 \<le> i \<Longrightarrow> i < int (length xs) \<Longrightarrow> slice_set xs i v = Some (xs[nat i := v])"
  by (simp add: slice_set_def)

lemma slice_from_Some [go_simps]:
  "0 \<le> i \<Longrightarrow> i \<le> int (length xs) \<Longrightarrow> slice_from xs i = Some (drop (nat i) xs)"
  by (simp add: slice_from_def)

lemma slice_to_Some [go_simps]:
  "0 \<le> i \<Longrightarrow> i \<le> int (length xs) \<Longrightarrow> slice_to xs i = Some (take (nat i) xs)"
  by (simp add: slice_to_def)

lemma go_make_Some [go_simps]: "0 \<le> n \<Longrightarrow> go_make z n = Some (replicate (nat n) z)"
  by (simp add: go_make_def)

lemma length_go_copy [simp]: "off \<le> length dst \<Longrightarrow> length (go_copy dst off src) = length dst"
  by (simp add: go_copy_def go_copied_def Let_def)

lemma go_copied_fits [go_simps]:
  "length src \<le> n \<Longrightarrow> go_copied (pre @ replicate n z) (length pre) src = length src"
  by (simp add: go_copied_def)

lemma go_copy_fits [go_simps]:
  "length src \<le> n \<Longrightarrow>
   go_copy (pre @ replicate n z) (length pre) src = pre @ src @ replicate (n - length src) z"
  by (simp add: go_copy_def go_copied_fits Let_def)

lemmas go_copy_fits_Nil [go_simps] = go_copy_fits [where pre = "[]", simplified]
lemmas go_copied_fits_Nil [go_simps] = go_copied_fits [where pre = "[]", simplified]

subsection \<open>Counting threads\<close>

text \<open>\<open>num P xs\<close> is the number of list positions whose element satisfies \<open>P\<close>.\<close>

definition num :: "('a \<Rightarrow> bool) \<Rightarrow> 'a list \<Rightarrow> nat" where
  "num P xs = length (filter P xs)"

lemma num_Nil [simp]: "num P [] = 0"
  by (simp add: num_def)

lemma num_Cons [simp]: "num P (x # xs) = (if P x then 1 else 0) + num P xs"
  by (simp add: num_def)

lemma num_append [simp]: "num P (xs @ ys) = num P xs + num P ys"
  by (simp add: num_def)

lemma num_pos_if_nth: "i < length xs \<Longrightarrow> P (xs ! i) \<Longrightarrow> 0 < num P xs"
  by (auto simp: num_def filter_empty_conv)

lemma num_zero_iff: "num P xs = 0 \<longleftrightarrow> (\<forall>x \<in> set xs. \<not> P x)"
  by (auto simp: num_def filter_empty_conv)

lemma num_split_nth:
  assumes "i < length xs"
  shows "num P xs = (if P (xs ! i) then 1 else 0) + num P (take i xs) + num P (drop (Suc i) xs)"
proof -
  have "num P xs = num P (take i xs @ xs ! i # drop (Suc i) xs)"
    using assms by (simp flip: id_take_nth_drop)
  then show ?thesis by simp
qed

lemma num_update [count_simps]:
  assumes "i < length xs"
  shows "num P (xs[i := y]) = num P xs - (if P (xs ! i) then 1 else 0) + (if P y then 1 else 0)"
  using assms num_split_nth [OF assms, of P]
  by (simp add: upd_conv_take_nth_drop)

lemma num_two_nth:
  assumes "i < length xs" "j < length xs" "i \<noteq> j" "P (xs ! i)" "P (xs ! j)"
  shows "2 \<le> num P xs"
proof -
  have "num (\<lambda>x. P x) xs = card {k. k < length xs \<and> P (xs ! k)}"
    by (simp add: num_def length_filter_conv_card)
  moreover have "{i, j} \<subseteq> {k. k < length xs \<and> P (xs ! k)}" using assms by auto
  moreover have "finite {k. k < length xs \<and> P (xs ! k)}" by simp
  ultimately show ?thesis
    using card_mono [of "{k. k < length xs \<and> P (xs ! k)}" "{i, j}"] \<open>i \<noteq> j\<close> by simp
qed

lemma num_le_one_nth_eq:
  assumes "num P xs \<le> 1" "i < length xs" "j < length xs" "P (xs ! i)" "P (xs ! j)"
  shows "i = j"
  using num_two_nth [of i xs j P] assms by fastforce

end
