(* ===== verification/Ring_Buffer.thy ===== *)
theory Ring_Buffer
  imports Grain_Prelude
begin

section \<open>The mailbox storage: al/ringbuffer/ringbuffer.go\<close>

text \<open>
  \<open>RingBuffer[T]\<close> is the FIFO queue behind every actor mailbox: a ring of slots that doubles on
  demand up to a ceiling and never blocks. The record has the fields of the Go struct (the mutex
  is held by every operation from its first to its last access, so each operation is one atomic
  step), the operations are the Go functions with every slice access checked: \<open>None\<close> is a panic.
  The zero value of \<open>T\<close> is the argument \<open>zero\<close>.

  The second half relates the ring to its contract, a bounded queue over a plain list
  (\<open>bounded_queue\<close>): no operation panics, every outcome and every element returned are those of
  the bounded queue, and the slots outside the live window hold the zero value, so a popped message
  is not kept alive by the ring. Clients use the interface \<open>mailbox_fifo\<close>.
\<close>

datatype push_result = PushOK | PushOverflow | PushClosed

record 'a ring_buffer =
  rb_items :: "'a list"
  rb_head :: int
  rb_tail :: int
  rb_size :: int
  rb_cap :: int
  rb_maxCap :: int
  rb_closed :: bool

subsection \<open>The operations\<close>

definition rb_New :: "'a \<Rightarrow> int \<Rightarrow> int \<Rightarrow> 'a ring_buffer option" where
  "rb_New zero initCap0 maxCap0 =
     (let initCap = (if initCap0 \<le> 0 then 1 else initCap0);
          maxCap = (if maxCap0 < initCap then initCap else maxCap0)
      in do {
        its \<leftarrow> go_make zero initCap;
        Some \<lparr>rb_items = its, rb_head = 0, rb_tail = 0, rb_size = 0,
              rb_cap = initCap, rb_maxCap = maxCap, rb_closed = False\<rparr>
      })"

definition rb_next :: "'a ring_buffer \<Rightarrow> int \<Rightarrow> int" where
  "rb_next rb i = (let j = wrap_int64 (i + 1) in if j = rb_cap rb then 0 else j)"

definition rb_grow :: "'a \<Rightarrow> 'a ring_buffer \<Rightarrow> 'a ring_buffer option" where
  "rb_grow zero rb =
     (let newCap = min (wrap_int64 (rb_cap rb * 2)) (rb_maxCap rb)
      in do {
        its \<leftarrow> go_make zero newCap;
        front \<leftarrow> slice_from (rb_items rb) (rb_head rb);
        back \<leftarrow> slice_to (rb_items rb) (rb_tail rb);
        let n = go_copied its 0 front;
        Some (rb\<lparr>rb_items := go_copy (go_copy its 0 front) n back,
                 rb_head := 0, rb_tail := rb_size rb, rb_cap := newCap\<rparr>)
      })"

definition rb_put :: "'a \<Rightarrow> 'a ring_buffer \<Rightarrow> 'a ring_buffer option" where
  "rb_put item rb = do {
     its \<leftarrow> slice_set (rb_items rb) (rb_tail rb) item;
     Some (rb\<lparr>rb_items := its, rb_tail := rb_next rb (rb_tail rb),
              rb_size := wrap_int64 (rb_size rb + 1)\<rparr>)
   }"

definition rb_push :: "'a \<Rightarrow> 'a \<Rightarrow> 'a ring_buffer \<Rightarrow> (push_result \<times> 'a ring_buffer) option" where
  "rb_push zero item rb =
     (if rb_closed rb then Some (PushClosed, rb)
      else if rb_size rb = rb_cap rb \<and> rb_cap rb \<ge> rb_maxCap rb then Some (PushOverflow, rb)
      else do {
        rb1 \<leftarrow> (if rb_size rb = rb_cap rb then rb_grow zero rb else Some rb);
        rb2 \<leftarrow> rb_put item rb1;
        Some (PushOK, rb2)
      })"

definition rb_close :: "'a ring_buffer \<Rightarrow> 'a ring_buffer" where
  "rb_close rb = rb\<lparr>rb_closed := True\<rparr>"

definition rb_Len :: "'a ring_buffer \<Rightarrow> int" where
  "rb_Len rb = rb_size rb"

definition rb_Cap :: "'a ring_buffer \<Rightarrow> int" where
  "rb_Cap rb = rb_cap rb"

text \<open>\<open>Pop\<close> returns \<open>(item, true)\<close>, here \<open>Some item\<close>, or \<open>(zero, false)\<close>, here \<open>None\<close>.\<close>

definition rb_pop :: "'a \<Rightarrow> 'a ring_buffer \<Rightarrow> ('a option \<times> 'a ring_buffer) option" where
  "rb_pop zero rb =
     (if rb_size rb = 0 then Some (None, rb)
      else do {
        item \<leftarrow> slice_get (rb_items rb) (rb_head rb);
        its \<leftarrow> slice_set (rb_items rb) (rb_head rb) zero;
        Some (Some item, rb\<lparr>rb_items := its, rb_head := rb_next rb (rb_head rb),
                            rb_size := wrap_int64 (rb_size rb - 1)\<rparr>)
      })"

subsection \<open>The contract: a bounded queue\<close>

record 'a bounded_queue =
  bq_elems :: "'a list"
  bq_limit :: int
  bq_closed :: bool

definition bq_push :: "'a \<Rightarrow> 'a bounded_queue \<Rightarrow> push_result \<times> 'a bounded_queue" where
  "bq_push x q =
     (if bq_closed q then (PushClosed, q)
      else if int (length (bq_elems q)) \<ge> bq_limit q then (PushOverflow, q)
      else (PushOK, q\<lparr>bq_elems := bq_elems q @ [x]\<rparr>))"

definition bq_pop :: "'a bounded_queue \<Rightarrow> 'a option \<times> 'a bounded_queue" where
  "bq_pop q = (case bq_elems q of [] \<Rightarrow> (None, q) | x # xs \<Rightarrow> (Some x, q\<lparr>bq_elems := xs\<rparr>))"

definition bq_close :: "'a bounded_queue \<Rightarrow> 'a bounded_queue" where
  "bq_close q = q\<lparr>bq_closed := True\<rparr>"

text \<open>What the ring holds, oldest first: the slots from \<open>head\<close> on, wrapping at the end.\<close>

definition rb_list :: "'a ring_buffer \<Rightarrow> 'a list" where
  "rb_list rb = take (nat (rb_size rb)) (rotate (nat (rb_head rb)) (rb_items rb))"

definition rb_abs :: "'a ring_buffer \<Rightarrow> 'a bounded_queue" where
  "rb_abs rb = \<lparr>bq_elems = rb_list rb, bq_limit = rb_maxCap rb, bq_closed = rb_closed rb\<rparr>"

text \<open>
  The well-formed rings. The ceiling stays below \<open>2 ^ 62\<close>, so that doubling does not overflow an
  \<open>int64\<close>; the slots outside the live window hold the zero value.
\<close>

definition rb_wf :: "'a \<Rightarrow> 'a ring_buffer \<Rightarrow> bool" where
  "rb_wf zero rb \<longleftrightarrow>
     int (length (rb_items rb)) = rb_cap rb \<and> 1 \<le> rb_cap rb \<and> rb_cap rb \<le> rb_maxCap rb \<and>
     rb_maxCap rb < 2 ^ 62 \<and> 0 \<le> rb_head rb \<and> rb_head rb < rb_cap rb \<and>
     0 \<le> rb_size rb \<and> rb_size rb \<le> rb_cap rb \<and>
     rb_tail rb = (rb_head rb + rb_size rb) mod rb_cap rb \<and>
     drop (nat (rb_size rb)) (rotate (nat (rb_head rb)) (rb_items rb))
       = replicate (nat (rb_cap rb - rb_size rb)) zero"

subsection \<open>Rotation lemmas\<close>

lemma mod_add_left_inj_nat:
  assumes eq: "(h + i) mod n = (h + j) mod n" and ij: "i < n" "j < (n::nat)"
  shows "i = j"
proof -
  have "(int h + int i) mod int n = (int h + int j) mod int n"
    using eq by (metis of_nat_add zmod_int)
  then have "int n dvd (int h + int i) - (int h + int j)"
    by (rule mod_eq_dvd_iff [THEN iffD1])
  then have "int n dvd int i - int j" by simp
  moreover have "\<bar>int i - int j\<bar> < int n" using ij by simp
  ultimately show ?thesis using dvd_imp_le_int [of "int i - int j" "int n"] by fastforce
qed

lemma rotate_update:
  assumes "s < length xs"
  shows "rotate h (xs[(h + s) mod length xs := x]) = (rotate h xs)[s := x]"
proof (rule nth_equalityI)
  fix k
  assume "k < length (rotate h (xs[(h + s) mod length xs := x]))"
  then have k: "k < length xs" by simp
  then have "(h + k) mod length xs < length xs" by (intro mod_less_divisor) linarith
  moreover have "(h + s) mod length xs = (h + k) mod length xs \<longleftrightarrow> s = k"
    using mod_add_left_inj_nat [of h s "length xs" k] k assms by auto
  ultimately show "rotate h (xs[(h + s) mod length xs := x]) ! k = (rotate h xs)[s := x] ! k"
    using k by (cases "s = k") (simp_all add: nth_rotate)
qed simp

lemma rotate_Suc_mod: "rotate (Suc h mod length xs) xs = rotate1 (rotate h xs)"
  by (metis rotate_Suc rotate_conv_mod)

subsection \<open>Every operation keeps the ring well formed\<close>

lemma rb_wf_rotate:
  assumes "rb_wf zero rb"
  shows "rotate (nat (rb_head rb)) (rb_items rb)
           = rb_list rb @ replicate (nat (rb_cap rb - rb_size rb)) zero"
  using assms by (metis rb_wf_def rb_list_def append_take_drop_id)

lemma rb_wf_bounds:
  assumes "rb_wf zero rb"
  shows "length (rb_items rb) = nat (rb_cap rb)" and "1 \<le> rb_cap rb" and "rb_cap rb < 2 ^ 62"
    and "0 \<le> rb_head rb" and "rb_head rb < rb_cap rb" and "0 \<le> rb_size rb"
    and "rb_size rb \<le> rb_cap rb" and "0 \<le> rb_tail rb" and "rb_tail rb < rb_cap rb"
    and "rb_cap rb \<le> rb_maxCap rb" and "rb_maxCap rb < 2 ^ 62"
  using assms by (auto simp: rb_wf_def)

lemma length_rb_list: "rb_wf zero rb \<Longrightarrow> int (length (rb_list rb)) = rb_size rb"
  by (auto simp: rb_wf_def rb_list_def)

lemma rb_wfI:
  assumes "length its = nat c" "1 \<le> c" "c \<le> m" "m < 2 ^ 62" "0 \<le> h" "h < c"
    and "rotate (nat h) its = xs @ replicate (nat (c - s)) zero" "s = int (length xs)" "s \<le> c"
    and "t = (h + s) mod c"
  shows "rb_wf zero \<lparr>rb_items = its, rb_head = h, rb_tail = t, rb_size = s, rb_cap = c,
                    rb_maxCap = m, rb_closed = b\<rparr>"
    and "rb_list \<lparr>rb_items = its, rb_head = h, rb_tail = t, rb_size = s, rb_cap = c,
                    rb_maxCap = m, rb_closed = b\<rparr> = xs"
  using assms by (auto simp: rb_wf_def rb_list_def)

lemma rb_next_mod: "0 \<le> i \<Longrightarrow> i < rb_cap rb \<Longrightarrow> rb_cap rb < 2 ^ 62 \<Longrightarrow> rb_next rb i = (i + 1) mod rb_cap rb"
  by (auto simp: rb_next_def wrap_int64_id Let_def)

lemma rb_New_wf:
  assumes "max 1 initCap < 2 ^ 62" and "maxCap < 2 ^ 62"
  shows "\<exists>rb. rb_New zero initCap maxCap = Some rb \<and> rb_wf zero rb \<and> rb_list rb = [] \<and>
     rb_cap rb = max 1 initCap \<and> rb_maxCap rb = max (max 1 initCap) maxCap \<and> \<not> rb_closed rb"
  using assms
  by (auto simp: rb_New_def rb_wf_def rb_list_def go_make_def Let_def max_def)

lemma rb_grow_wf:
  assumes wf: "rb_wf zero rb" and full: "rb_size rb = rb_cap rb" and room: "rb_cap rb < rb_maxCap rb"
  shows "\<exists>rb'. rb_grow zero rb = Some rb' \<and> rb_wf zero rb' \<and> rb_list rb' = rb_list rb \<and>
     rb_size rb' < rb_cap rb' \<and> rb_cap rb' = min (2 * rb_cap rb) (rb_maxCap rb) \<and>
     rb_maxCap rb' = rb_maxCap rb \<and> rb_closed rb' = rb_closed rb"
proof -
  obtain its h t s c m b where rb: "rb = \<lparr>rb_items = its, rb_head = h, rb_tail = t, rb_size = s,
      rb_cap = c, rb_maxCap = m, rb_closed = b\<rparr>" by (cases rb)
  note bnd = rb_wf_bounds [OF wf, unfolded rb, simplified]
  have s: "s = c" using full rb by simp
  have t: "t = h" using wf s bnd by (auto simp: rb_wf_def rb)
  have w: "wrap_int64 (c * 2) = c * 2" using bnd by (simp add: wrap_int64_id)
  define c' where "c' = min (c * 2) m"
  define xs where "xs = drop (nat h) its @ take (nat h) its"
  have c: "c < c'" "c' \<le> m" using bnd room rb w by (auto simp: c'_def)
  have rot: "rotate (nat h) its = xs" using bnd by (simp add: rotate_drop_take xs_def)
  have len: "length xs = nat c" using bnd by (simp add: xs_def)
  have front: "length (drop (nat h) its) \<le> nat c'"
    and rear: "length (take (nat h) its) \<le> nat c' - length (drop (nat h) its)"
    using bnd c by auto
  have "go_copy (go_copy (replicate (nat c') zero) 0 (drop (nat h) its))
          (length (drop (nat h) its)) (take (nat h) its) = xs @ replicate (nat (c' - c)) zero"
    using bnd c unfolding go_copy_fits_Nil [OF front] go_copy_fits [OF rear]
    by (simp add: xs_def nat_diff_distrib)
  then have "rb_grow zero rb = Some \<lparr>rb_items = xs @ replicate (nat (c' - c)) zero, rb_head = 0,
      rb_tail = s, rb_size = s, rb_cap = c', rb_maxCap = m, rb_closed = b\<rparr>" (is "_ = Some ?rb'")
    using bnd c t go_copied_fits_Nil [OF front, of zero]
    by (simp add: rb_grow_def rb go_simps Let_def flip: c'_def)
  moreover have "rb_wf zero ?rb'" and "rb_list ?rb' = xs"
    using bnd c s len by (auto intro!: rb_wfI)
  moreover have "rb_list rb = xs"
    using rot len s by (simp add: rb_list_def rb)
  ultimately show ?thesis using c s rb w by (simp add: c'_def mult.commute)
qed

lemma rb_put_wf:
  assumes wf: "rb_wf zero rb" and room: "rb_size rb < rb_cap rb"
  shows "\<exists>rb'. rb_put x rb = Some rb' \<and> rb_wf zero rb' \<and> rb_list rb' = rb_list rb @ [x] \<and>
     rb_cap rb' = rb_cap rb \<and> rb_maxCap rb' = rb_maxCap rb \<and> rb_closed rb' = rb_closed rb"
proof -
  obtain its h t s c m b where rb: "rb = \<lparr>rb_items = its, rb_head = h, rb_tail = t, rb_size = s,
      rb_cap = c, rb_maxCap = m, rb_closed = b\<rparr>" by (cases rb)
  note bnd = rb_wf_bounds [OF wf, unfolded rb, simplified]
  define xs where "xs = rb_list rb"
  have s: "s = int (length xs)" using length_rb_list [OF wf] rb by (simp add: xs_def)
  have rot0: "rotate (nat h) its = xs @ replicate (nat (c - s)) zero"
    using rb_wf_rotate [OF wf] by (simp add: rb xs_def)
  have lt: "s < c" using room rb by simp
  have t: "nat t = (nat h + nat s) mod length its" "t = (h + s) mod c"
    using wf bnd by (auto simp: rb_wf_def rb nat_mod_distrib nat_add_distrib)
  have nxt: "rb_next rb t = (h + (s + 1)) mod c"
    using bnd t(2) by (simp add: rb_next_mod rb mod_simps add.assoc)
  have "rotate (nat h) (its[nat t := x]) = (rotate (nat h) its)[nat s := x]"
    unfolding t(1) using bnd lt by (intro rotate_update) simp
  also have "\<dots> = xs @ (replicate (nat (c - s)) zero)[0 := x]"
    unfolding rot0 by (simp add: list_update_append s)
  also have "\<dots> = (xs @ [x]) @ replicate (nat (c - (s + 1))) zero"
  proof -
    have "nat (c - s) = Suc (nat (c - (s + 1)))" using lt by linarith
    then show ?thesis by simp
  qed
  finally have rot: "rotate (nat h) (its[nat t := x])
      = (xs @ [x]) @ replicate (nat (c - (s + 1))) zero" .
  have "rb_put x rb = Some \<lparr>rb_items = its[nat t := x], rb_head = h, rb_tail = (h + (s + 1)) mod c,
      rb_size = s + 1, rb_cap = c, rb_maxCap = m, rb_closed = b\<rparr>" (is "_ = Some ?rb'")
    using bnd nxt by (simp add: rb_put_def rb go_simps)
  moreover have "rb_wf zero ?rb'" and "rb_list ?rb' = xs @ [x]"
    using bnd lt s rot by (auto intro!: rb_wfI [where zero = zero and xs = "xs @ [x]"])
  ultimately show ?thesis unfolding xs_def by (simp add: rb)
qed

lemma rb_pop_wf:
  assumes wf: "rb_wf zero rb" and ne: "rb_list rb = x # xs"
  shows "\<exists>rb'. rb_pop zero rb = Some (Some x, rb') \<and> rb_wf zero rb' \<and> rb_list rb' = xs \<and>
     rb_cap rb' = rb_cap rb \<and> rb_maxCap rb' = rb_maxCap rb \<and> rb_closed rb' = rb_closed rb"
proof -
  obtain its h t s c m b where rb: "rb = \<lparr>rb_items = its, rb_head = h, rb_tail = t, rb_size = s,
      rb_cap = c, rb_maxCap = m, rb_closed = b\<rparr>" by (cases rb)
  note bnd = rb_wf_bounds [OF wf, unfolded rb, simplified]
  have s: "s = int (Suc (length xs))" using length_rb_list [OF wf] rb ne by simp
  have rot0: "rotate (nat h) its = x # xs @ replicate (nat (c - s)) zero"
    using rb_wf_rotate [OF wf] ne by (simp add: rb)
  have len: "length its = Suc (length xs + nat (c - s))"
    using arg_cong [OF rot0, of length] by simp
  have hd: "its ! nat h = x"
    using nth_rotate [of 0 its "nat h"] rot0 bnd by simp
  have nxt: "rb_next rb h = (h + 1) mod c" using bnd by (simp add: rb_next_mod rb)
  have nat_nxt: "nat ((h + 1) mod c) = Suc (nat h) mod length its"
    using bnd by (simp add: nat_mod_distrib nat_add_distrib)
  have "rotate (nat ((h + 1) mod c)) (its[nat h := zero])
      = rotate1 (rotate (nat h) (its[(nat h + 0) mod length its := zero]))"
    using rotate_Suc_mod [of "nat h" "its[nat h := zero]"] bnd nat_nxt by simp
  also have "\<dots> = rotate1 ((rotate (nat h) its)[0 := zero])"
    using len by (subst rotate_update) auto
  also have "\<dots> = xs @ replicate (nat (c - (s - 1))) zero"
    using bnd by (simp add: rot0 nat_diff_distrib' replicate_append_same nat_add_distrib
        Suc_nat_eq_nat_zadd1 flip: replicate_Suc)
  finally have rot: "rotate (nat ((h + 1) mod c)) (its[nat h := zero])
      = xs @ replicate (nat (c - (s - 1))) zero" .
  have "rb_pop zero rb = Some (Some x, \<lparr>rb_items = its[nat h := zero], rb_head = (h + 1) mod c,
      rb_tail = t, rb_size = s - 1, rb_cap = c, rb_maxCap = m, rb_closed = b\<rparr>)"
    (is "_ = Some (_, ?rb')")
    using bnd nxt hd s by (simp add: rb_pop_def rb go_simps)
  moreover have "t = ((h + 1) mod c + (s - 1)) mod c"
    using wf by (simp add: rb_wf_def rb mod_simps)
  then have "rb_wf zero ?rb'" and "rb_list ?rb' = xs"
    using bnd s rot by (auto intro!: rb_wfI [where zero = zero])
  ultimately show ?thesis by (simp add: rb)
qed

lemma rb_push_wf:
  assumes wf: "rb_wf zero rb"
  shows "\<exists>r rb'. rb_push zero x rb = Some (r, rb') \<and> rb_wf zero rb' \<and>
     (r, rb_abs rb') = bq_push x (rb_abs rb) \<and> rb_cap rb \<le> rb_cap rb'"
proof -
  have len: "int (length (rb_list rb)) = rb_size rb" using wf by (rule length_rb_list)
  note bnd = rb_wf_bounds [OF wf]
  consider "rb_closed rb" | "\<not> rb_closed rb" "rb_size rb = rb_cap rb" "rb_maxCap rb \<le> rb_cap rb"
    | "\<not> rb_closed rb" "rb_size rb = rb_cap rb" "rb_cap rb < rb_maxCap rb"
    | "\<not> rb_closed rb" "rb_size rb < rb_cap rb"
    using bnd by fastforce
  then show ?thesis
  proof cases
    case 3
    obtain rb1 where g: "rb_grow zero rb = Some rb1" and wf1: "rb_wf zero rb1"
      and l1: "rb_list rb1 = rb_list rb" and room: "rb_size rb1 < rb_cap rb1"
      and m1: "rb_maxCap rb1 = rb_maxCap rb" "rb_closed rb1 = rb_closed rb"
      and c1: "rb_cap rb1 = min (2 * rb_cap rb) (rb_maxCap rb)"
      using rb_grow_wf [OF wf 3(2,3)] by blast
    obtain rb2 where "rb_put x rb1 = Some rb2" "rb_wf zero rb2" "rb_list rb2 = rb_list rb1 @ [x]"
      "rb_cap rb2 = rb_cap rb1" "rb_maxCap rb2 = rb_maxCap rb1" "rb_closed rb2 = rb_closed rb1"
      using rb_put_wf [OF wf1 room] by blast
    then show ?thesis
      using 3 g l1 m1 c1 len bnd by (auto simp: rb_push_def rb_abs_def bq_push_def)
  next
    case 4
    obtain rb2 where "rb_put x rb = Some rb2" "rb_wf zero rb2" "rb_list rb2 = rb_list rb @ [x]"
      "rb_cap rb2 = rb_cap rb" "rb_maxCap rb2 = rb_maxCap rb" "rb_closed rb2 = rb_closed rb"
      using rb_put_wf [OF wf 4(2)] by blast
    then show ?thesis
      using 4 len bnd by (auto simp: rb_push_def rb_abs_def bq_push_def)
  qed (use wf len bnd in \<open>auto simp: rb_push_def rb_abs_def bq_push_def\<close>)
qed

lemma rb_pop_refines:
  assumes wf: "rb_wf zero rb"
  shows "\<exists>r rb'. rb_pop zero rb = Some (r, rb') \<and> rb_wf zero rb' \<and>
     (r, rb_abs rb') = bq_pop (rb_abs rb) \<and> rb_cap rb' = rb_cap rb"
proof (cases "rb_list rb")
  case Nil
  then have "rb_size rb = 0" using length_rb_list [OF wf] by simp
  then show ?thesis using wf Nil by (simp add: rb_pop_def bq_pop_def rb_abs_def)
next
  case (Cons x xs)
  then show ?thesis using rb_pop_wf [OF wf Cons] by (auto simp: bq_pop_def rb_abs_def)
qed

lemma rb_close_refines:
  "rb_wf zero rb \<Longrightarrow> rb_wf zero (rb_close rb) \<and> rb_abs (rb_close rb) = bq_close (rb_abs rb)"
  by (simp add: rb_wf_def rb_close_def rb_abs_def bq_close_def rb_list_def)

lemma rb_Len_refines: "rb_wf zero rb \<Longrightarrow> rb_Len rb = int (length (bq_elems (rb_abs rb)))"
  by (simp add: rb_Len_def rb_abs_def length_rb_list)

subsection \<open>The interface the processor relies on\<close>

text \<open>
  What a mailbox promises to its clients, with the code's outcomes: an accepted item goes to the
  end, a refused one leaves the queue as it was, \<open>Pop\<close> takes the oldest item, \<open>Close\<close> only refuses
  later pushes. No operation panics. Inside the interface: what holds of any history of operations.
\<close>

datatype 'a mb_op = OpPush 'a | OpPop | OpClose

text \<open>A history of operations, with the accepted and the popped items in order.\<close>

fun mb_run ::
  "('a \<Rightarrow> 'q \<Rightarrow> (push_result \<times> 'q) option) \<Rightarrow> ('q \<Rightarrow> ('a option \<times> 'q) option) \<Rightarrow> ('q \<Rightarrow> 'q) \<Rightarrow>
   'a mb_op list \<Rightarrow> 'q \<Rightarrow> ('a list \<times> 'a list \<times> 'q) option" where
  "mb_run push pop cls [] q = Some ([], [], q)"
| "mb_run push pop cls (OpPush x # ops) q = do {
     (r, q') \<leftarrow> push x q;
     (acc, out, q'') \<leftarrow> mb_run push pop cls ops q';
     Some ((if r = PushOK then [x] else []) @ acc, out, q'')
   }"
| "mb_run push pop cls (OpPop # ops) q = do {
     (r, q') \<leftarrow> pop q;
     (acc, out, q'') \<leftarrow> mb_run push pop cls ops q';
     Some (acc, (case r of None \<Rightarrow> [] | Some x \<Rightarrow> [x]) @ out, q'')
   }"
| "mb_run push pop cls (OpClose # ops) q = mb_run push pop cls ops (cls q)"

locale mailbox_fifo =
  fixes invar :: "'q \<Rightarrow> bool"
    and contents :: "'q \<Rightarrow> 'a list"
    and limit :: "'q \<Rightarrow> int"
    and is_closed :: "'q \<Rightarrow> bool"
    and push :: "'a \<Rightarrow> 'q \<Rightarrow> (push_result \<times> 'q) option"
    and pop :: "'q \<Rightarrow> ('a option \<times> 'q) option"
    and cls :: "'q \<Rightarrow> 'q"
  assumes push_total: "invar q \<Longrightarrow> \<exists>r q'. push x q = Some (r, q')"
    and push_keeps: "invar q \<Longrightarrow> push x q = Some (r, q') \<Longrightarrow>
        invar q' \<and> limit q' = limit q \<and> is_closed q' = is_closed q"
    and push_ok: "invar q \<Longrightarrow> push x q = Some (PushOK, q') \<Longrightarrow> contents q' = contents q @ [x]"
    and push_refused: "invar q \<Longrightarrow> push x q = Some (r, q') \<Longrightarrow> r \<noteq> PushOK \<Longrightarrow> q' = q"
    and push_closed_iff: "invar q \<Longrightarrow> push x q = Some (r, q') \<Longrightarrow> r = PushClosed \<longleftrightarrow> is_closed q"
    and push_overflow_iff: "invar q \<Longrightarrow> push x q = Some (r, q') \<Longrightarrow>
        r = PushOverflow \<longleftrightarrow> \<not> is_closed q \<and> limit q \<le> int (length (contents q))"
    and pop_total: "invar q \<Longrightarrow> \<exists>r q'. pop q = Some (r, q')"
    and pop_some: "invar q \<Longrightarrow> pop q = Some (Some x, q') \<Longrightarrow>
        invar q' \<and> contents q = x # contents q' \<and> limit q' = limit q \<and> is_closed q' = is_closed q"
    and pop_none: "invar q \<Longrightarrow> pop q = Some (None, q') \<Longrightarrow> q' = q \<and> contents q = []"
    and cls_spec: "invar q \<Longrightarrow> invar (cls q) \<and> contents (cls q) = contents q \<and>
        limit (cls q) = limit q \<and> is_closed (cls q)"
begin

lemma pop_keeps:
  assumes "invar q" and "pop q = Some (r, q')"
  shows "invar q' \<and> limit q' = limit q \<and> is_closed q' = is_closed q"
proof (cases r)
  case None
  then show ?thesis using pop_none [of q q'] assms by auto
next
  case (Some x)
  then show ?thesis using pop_some [of q x q'] assms by auto
qed

lemma pop_contents:
  assumes "invar q" and "pop q = Some (r, q')"
  shows "contents q = (case r of None \<Rightarrow> [] | Some x \<Rightarrow> [x]) @ contents q'"
proof (cases r)
  case None
  then show ?thesis using pop_none [of q q'] assms by auto
next
  case (Some x)
  then show ?thesis using pop_some [of q x q'] assms by auto
qed

lemma push_contents:
  assumes "invar q" and "push x q = Some (r, q')"
  shows "contents q' = contents q @ (if r = PushOK then [x] else [])"
proof (cases "r = PushOK")
  case True
  then show ?thesis using push_ok [of q x q'] assms by auto
next
  case False
  then show ?thesis using push_refused [of q x r q'] assms by auto
qed

lemma push_bounded:
  assumes "invar q" and "push x q = Some (r, q')" and "int (length (contents q)) \<le> limit q"
  shows "int (length (contents q')) \<le> limit q'"
proof (cases "r = PushOK")
  case True
  then have "int (length (contents q)) < limit q"
    using push_overflow_iff [OF assms(1,2)] push_closed_iff [OF assms(1,2)] by auto
  then show ?thesis using push_contents [OF assms(1,2)] push_keeps [OF assms(1,2)] True by simp
next
  case False
  then show ?thesis using push_refused [OF assms(1,2)] assms(3) by simp
qed

lemma run_total: "invar q \<Longrightarrow> \<exists>acc out q'. mb_run push pop cls ops q = Some (acc, out, q')"
proof (induction ops arbitrary: q)
  case (Cons op ops)
  show ?case
  proof (cases op)
    case (OpPush x)
    obtain r q1 where 1: "push x q = Some (r, q1)" using push_total [OF Cons.prems] by blast
    obtain acc out q' where "mb_run push pop cls ops q1 = Some (acc, out, q')"
      using Cons.IH push_keeps [OF Cons.prems 1] by blast
    then show ?thesis using 1 OpPush by simp
  next
    case OpPop
    obtain r q1 where 1: "pop q = Some (r, q1)" using pop_total [OF Cons.prems] by blast
    obtain acc out q' where "mb_run push pop cls ops q1 = Some (acc, out, q')"
      using Cons.IH pop_keeps [OF Cons.prems 1] by blast
    then show ?thesis using 1 OpPop by simp
  next
    case OpClose
    then show ?thesis using Cons.IH cls_spec [OF Cons.prems] by simp
  qed
qed simp

text \<open>Nothing accepted is lost, duplicated or reordered.\<close>

lemma run_fifo:
  assumes "invar q" and "mb_run push pop cls ops q = Some (acc, out, q')"
  shows "invar q' \<and> contents q @ acc = out @ contents q'"
  using assms
proof (induction ops arbitrary: q acc out)
  case (Cons op ops)
  show ?case
  proof (cases op)
    case (OpPush x)
    with Cons.prems obtain r q1 acc1 where 1: "push x q = Some (r, q1)"
      "mb_run push pop cls ops q1 = Some (acc1, out, q')"
      "acc = (if r = PushOK then [x] else []) @ acc1"
      by (auto simp: bind_eq_Some_conv)
    then show ?thesis
      using Cons.IH [of q1 acc1 out] push_keeps [OF Cons.prems(1) 1(1)]
        push_contents [OF Cons.prems(1) 1(1)] by simp
  next
    case OpPop
    with Cons.prems obtain r q1 out1 where 1: "pop q = Some (r, q1)"
      "mb_run push pop cls ops q1 = Some (acc, out1, q')"
      "out = (case r of None \<Rightarrow> [] | Some x \<Rightarrow> [x]) @ out1"
      by (auto simp: bind_eq_Some_conv)
    then show ?thesis
      using Cons.IH [of q1 acc out1] pop_keeps [OF Cons.prems(1) 1(1)]
        pop_contents [OF Cons.prems(1) 1(1)] by simp
  next
    case OpClose
    then show ?thesis using Cons.IH [of "cls q" acc out] Cons.prems cls_spec [OF Cons.prems(1)] by simp
  qed
qed simp

text \<open>The queue never holds more than its limit, whatever the history.\<close>

lemma run_bounded:
  assumes "invar q" and "mb_run push pop cls ops q = Some (acc, out, q')"
    and "int (length (contents q)) \<le> limit q"
  shows "int (length (contents q')) \<le> limit q' \<and> limit q' = limit q"
  using assms
proof (induction ops arbitrary: q acc out)
  case (Cons op ops)
  show ?case
  proof (cases op)
    case (OpPush x)
    with Cons.prems obtain r q1 acc1 where 1: "push x q = Some (r, q1)"
      "mb_run push pop cls ops q1 = Some (acc1, out, q')"
      by (auto simp: bind_eq_Some_conv)
    then show ?thesis
      using Cons.IH [of q1] push_keeps [OF Cons.prems(1) 1(1)]
        push_bounded [OF Cons.prems(1) 1(1) Cons.prems(3)] by simp
  next
    case OpPop
    with Cons.prems obtain r q1 out1 where 1: "pop q = Some (r, q1)"
      "mb_run push pop cls ops q1 = Some (acc, out1, q')"
      by (auto simp: bind_eq_Some_conv)
    then show ?thesis
      using Cons.IH [of q1 acc out1] pop_keeps [OF Cons.prems(1) 1(1)]
        pop_contents [OF Cons.prems(1) 1(1)] Cons.prems(3) by simp
  next
    case OpClose
    then show ?thesis using Cons.IH [of "cls q" acc out] Cons.prems cls_spec [OF Cons.prems(1)] by simp
  qed
qed simp

end

interpretation rbm: mailbox_fifo "rb_wf zero" rb_list rb_maxCap rb_closed "rb_push zero" "rb_pop zero"
  rb_close for zero
proof (unfold_locales, goal_cases)
  case (1 q x) then show ?case using rb_push_wf [of zero q x] by auto
next
  case (2 q x r q') then show ?case
    using rb_push_wf [of zero q x] by (auto simp: rb_abs_def bq_push_def split: if_splits)
next
  case (3 q x q') then show ?case
    using rb_push_wf [of zero q x] by (auto simp: rb_abs_def bq_push_def split: if_splits)
next
  case (4 q x r q') then show ?case
    by (auto simp: rb_push_def bind_eq_Some_conv split: if_splits)
next
  case (5 q x r q') then show ?case
    using rb_push_wf [of zero q x] by (auto simp: rb_abs_def bq_push_def split: if_splits)
next
  case (6 q x r q') then show ?case
    using rb_push_wf [of zero q x] by (auto simp: rb_abs_def bq_push_def split: if_splits)
next
  case (7 q) then show ?case using rb_pop_refines [of zero q] by auto
next
  case (8 q x q') then show ?case
    using rb_pop_refines [of zero q] by (auto simp: rb_abs_def bq_pop_def split: list.splits)
next
  case (9 q q') then show ?case
    using length_rb_list [of zero q] by (auto simp: rb_pop_def bind_eq_Some_conv split: if_splits)
next
  case (10 q) then show ?case
    using rb_close_refines [of zero q] by (auto simp: rb_abs_def bq_close_def rb_close_def)
qed

subsection \<open>Properties of the ring buffer\<close>

text \<open>One observable call on the ring, and the same call on the bounded queue.\<close>

datatype 'a rb_obs = ObsPush push_result | ObsPop "'a option" | ObsClose

fun rb_exec :: "'a \<Rightarrow> 'a mb_op \<Rightarrow> 'a ring_buffer \<Rightarrow> ('a rb_obs \<times> 'a ring_buffer) option" where
  "rb_exec zero (OpPush x) rb = map_option (map_prod ObsPush id) (rb_push zero x rb)"
| "rb_exec zero OpPop rb = map_option (map_prod ObsPop id) (rb_pop zero rb)"
| "rb_exec zero OpClose rb = Some (ObsClose, rb_close rb)"

fun bq_exec :: "'a mb_op \<Rightarrow> 'a bounded_queue \<Rightarrow> 'a rb_obs \<times> 'a bounded_queue" where
  "bq_exec (OpPush x) q = map_prod ObsPush id (bq_push x q)"
| "bq_exec OpPop q = map_prod ObsPop id (bq_pop q)"
| "bq_exec OpClose q = (ObsClose, bq_close q)"

fun rb_exec_all :: "'a \<Rightarrow> 'a mb_op list \<Rightarrow> 'a ring_buffer \<Rightarrow> ('a rb_obs list \<times> 'a ring_buffer) option" where
  "rb_exec_all zero [] rb = Some ([], rb)"
| "rb_exec_all zero (op # ops) rb = do {
     (ob, rb1) \<leftarrow> rb_exec zero op rb;
     (obs, rb2) \<leftarrow> rb_exec_all zero ops rb1;
     Some (ob # obs, rb2)
   }"

fun bq_exec_all :: "'a mb_op list \<Rightarrow> 'a bounded_queue \<Rightarrow> 'a rb_obs list \<times> 'a bounded_queue" where
  "bq_exec_all [] q = ([], q)"
| "bq_exec_all (op # ops) q =
     (let (ob, q1) = bq_exec op q; (obs, q2) = bq_exec_all ops q1 in (ob # obs, q2))"

lemma rb_exec_refines:
  assumes "rb_wf zero rb"
  shows "\<exists>ob rb'. rb_exec zero op rb = Some (ob, rb') \<and> rb_wf zero rb' \<and>
     (ob, rb_abs rb') = bq_exec op (rb_abs rb) \<and> rb_cap rb \<le> rb_cap rb'"
proof (cases op)
  case (OpPush x)
  obtain r rb' where "rb_push zero x rb = Some (r, rb')" "rb_wf zero rb'"
    "(r, rb_abs rb') = bq_push x (rb_abs rb)" "rb_cap rb \<le> rb_cap rb'"
    using rb_push_wf [OF assms, of x] by blast
  then show ?thesis using OpPush by (auto simp: map_prod_def split: prod.splits)
next
  case OpPop
  obtain r rb' where "rb_pop zero rb = Some (r, rb')" "rb_wf zero rb'"
    "(r, rb_abs rb') = bq_pop (rb_abs rb)" "rb_cap rb' = rb_cap rb"
    using rb_pop_refines [OF assms] by blast
  then show ?thesis using OpPop by (auto simp: map_prod_def split: prod.splits)
next
  case OpClose
  then show ?thesis using rb_close_refines [OF assms] by (simp add: rb_close_def)
qed

lemma rb_exec_all_refines:
  assumes "rb_wf zero rb"
  shows "\<exists>obs rb'. rb_exec_all zero ops rb = Some (obs, rb') \<and> rb_wf zero rb' \<and>
     (obs, rb_abs rb') = bq_exec_all ops (rb_abs rb) \<and> rb_cap rb \<le> rb_cap rb'"
  using assms
proof (induction ops arbitrary: rb)
  case (Cons op ops)
  obtain ob rb1 where 1: "rb_exec zero op rb = Some (ob, rb1)" "rb_wf zero rb1"
    "(ob, rb_abs rb1) = bq_exec op (rb_abs rb)" "rb_cap rb \<le> rb_cap rb1"
    using rb_exec_refines [OF Cons.prems] by blast
  obtain obs rb2 where 2: "rb_exec_all zero ops rb1 = Some (obs, rb2)" "rb_wf zero rb2"
    "(obs, rb_abs rb2) = bq_exec_all ops (rb_abs rb1)" "rb_cap rb1 \<le> rb_cap rb2"
    using Cons.IH [OF 1(2)] by blast
  show ?case using 1 2 by (simp flip: 1(3) 2(3))
qed simp

lemma bq_exec_limit: "bq_limit (snd (bq_exec op q)) = bq_limit q"
  by (cases op) (auto simp: bq_push_def bq_pop_def bq_close_def split: list.splits)

lemma bq_exec_all_limit: "bq_limit (snd (bq_exec_all ops q)) = bq_limit q"
proof (induction ops arbitrary: q)
  case (Cons op ops)
  then show ?case using bq_exec_limit [of op q] by (simp add: split_beta)
qed simp

text \<open>
  C20. A mailbox is a bounded FIFO queue: for every sequence of \<open>Push\<close>, \<open>Pop\<close> and \<open>Close\<close> on a
  fresh ring, no operation panics (no index ever leaves the slice, through every wrap-around and
  every doubling), and the outcomes observed are exactly those of a plain bounded list of limit
  \<open>max initCap maxCap\<close>; the ring only grows, and never past that limit.
\<close>

theorem rb_refines_bounded_queue:
  assumes "initCap < 2 ^ 62" and "maxCap < 2 ^ 62"
  shows "\<exists>rb obs rb'. rb_New zero initCap maxCap = Some rb \<and>
     rb_exec_all zero ops rb = Some (obs, rb') \<and>
     (obs, rb_abs rb') = bq_exec_all ops
        \<lparr>bq_elems = [], bq_limit = max (max 1 initCap) maxCap, bq_closed = False\<rparr> \<and>
     rb_Cap rb \<le> rb_Cap rb' \<and> rb_Cap rb' \<le> max (max 1 initCap) maxCap \<and>
     rb_Len rb' = int (length (bq_elems (rb_abs rb')))"
proof -
  obtain rb where rb: "rb_New zero initCap maxCap = Some rb" "rb_wf zero rb" "rb_list rb = []"
    "rb_maxCap rb = max (max 1 initCap) maxCap" "\<not> rb_closed rb"
    using rb_New_wf [of initCap maxCap zero] assms by auto
  obtain obs rb' where 2: "rb_exec_all zero ops rb = Some (obs, rb')" "rb_wf zero rb'"
    "(obs, rb_abs rb') = bq_exec_all ops (rb_abs rb)" "rb_cap rb \<le> rb_cap rb'"
    using rb_exec_all_refines [OF rb(2)] by blast
  have "bq_limit (rb_abs rb') = bq_limit (rb_abs rb)"
    using bq_exec_all_limit [of ops "rb_abs rb"] unfolding 2(3) [symmetric] by simp
  then have lim: "rb_maxCap rb' = rb_maxCap rb" by (simp add: rb_abs_def)
  have "rb_abs rb = \<lparr>bq_elems = [], bq_limit = max (max 1 initCap) maxCap, bq_closed = False\<rparr>"
    using rb by (simp add: rb_abs_def)
  with 2 rb lim rb_wf_bounds(10) [OF 2(2)] show ?thesis
    by (intro exI [of _ rb] exI [of _ obs] exI [of _ rb'])
      (auto simp: rb_Cap_def rb_Len_refines)
qed

theorem rb_refines_bounded_queue_witness:
  "\<exists>rb obs rb'. rb_New (0::nat) 1 2 = Some rb \<and>
     rb_exec_all 0 [OpPush 5, OpPush 6, OpPush 7, OpPop, OpClose, OpPush 8] rb = Some (obs, rb') \<and>
     obs = [ObsPush PushOK, ObsPush PushOK, ObsPush PushOverflow, ObsPop (Some 5), ObsClose,
            ObsPush PushClosed] \<and> rb_Len rb' = 1"
  using rb_refines_bounded_queue [of 1 2 "0::nat"
      "[OpPush 5, OpPush 6, OpPush 7, OpPop, OpClose, OpPush 8]"]
  by (auto simp: bq_push_def bq_pop_def bq_close_def rb_abs_def)

text \<open>
  Nothing an actor's mailbox accepted is lost, duplicated or reordered: over any history of
  pushes, pops and closes, the accepted items are the popped ones followed by those still queued.
\<close>

lemma rb_accepted_is_popped_then_queued:
  assumes "rb_wf zero rb" and "rb_list rb = []"
    and "mb_run (rb_push zero) (rb_pop zero) rb_close ops rb = Some (acc, out, rb')"
  shows "acc = out @ rb_list rb'"
  using rbm.run_fifo [OF assms(1,3)] assms(2) by simp

end
