(* ===== verification/Go_Strings.thy ===== *)
theory Go_Strings
  imports Grain_Prelude
begin

section \<open>Strings: byte sequences, searching, splitting, decimal numbers\<close>

text \<open>
  A Go string is a sequence of bytes, a \<open>string\<close> here (a list of 8-bit characters). The functions
  of the packages \<open>strings\<close> and \<open>strconv\<close> that the sources call are modelled by what they are
  documented to return: \<open>IndexByte\<close>, \<open>LastIndexByte\<close>, \<open>Split\<close> on one byte, \<open>FormatUint\<close> and
  \<open>ParseUint\<close> in base ten with 64 bits, \<open>Itoa\<close>.
\<close>

subsection \<open>Searching\<close>

text \<open>\<open>strings.IndexByte\<close>: the first position of the byte, \<open>None\<close> for -1.\<close>

fun index_byte :: "string \<Rightarrow> char \<Rightarrow> nat option" where
  "index_byte [] c = None"
| "index_byte (x # xs) c = (if x = c then Some 0 else map_option Suc (index_byte xs c))"

lemma index_byte_None [simp]: "index_byte s c = None \<longleftrightarrow> c \<notin> set s"
  by (induction s) auto

lemma index_byte_notin [simp]: "c \<notin> set s \<Longrightarrow> index_byte s c = None"
  by simp

lemma index_byte_append_notin [simp]:
  "c \<notin> set a \<Longrightarrow> index_byte (a @ c # b) c = Some (length a)"
  by (induction a) auto

lemma index_byte_SomeD:
  "index_byte s c = Some i \<Longrightarrow> i < length s \<and> s ! i = c \<and> c \<notin> set (take i s)"
proof (induction s arbitrary: i)
  case (Cons x xs)
  then show ?case by (cases i) (auto split: if_splits)
qed simp

lemma index_byte_split:
  assumes "index_byte s c = Some i"
  shows "s = take i s @ c # drop (Suc i) s"
  using index_byte_SomeD [OF assms] id_take_nth_drop [of i s] by simp

text \<open>\<open>strings.LastIndexByte\<close>.\<close>

definition last_index_byte :: "string \<Rightarrow> char \<Rightarrow> nat option" where
  "last_index_byte s c = map_option (\<lambda>i. length s - Suc i) (index_byte (rev s) c)"

lemma last_index_byte_None [simp]: "last_index_byte s c = None \<longleftrightarrow> c \<notin> set s"
  by (simp add: last_index_byte_def)

lemma last_index_byte_append_notin [simp]:
  "c \<notin> set b \<Longrightarrow> last_index_byte (a @ c # b) c = Some (length a)"
  using index_byte_append_notin [of c "rev b" "rev a"] by (simp add: last_index_byte_def)

text \<open>\<open>strings.Split(s, c)\<close> for a one-byte separator: always at least one part.\<close>

fun split_byte :: "char \<Rightarrow> string \<Rightarrow> string list" where
  "split_byte c [] = [[]]"
| "split_byte c (x # xs) =
     (if x = c then [] # split_byte c xs
      else case split_byte c xs of p # ps \<Rightarrow> (x # p) # ps | [] \<Rightarrow> [[x]])"

lemma split_byte_ne [simp]: "split_byte c s \<noteq> []"
  by (induction s) (auto split: list.splits)

lemma split_byte_notin [simp]: "c \<notin> set s \<Longrightarrow> split_byte c s = [s]"
  by (induction s) auto

lemma split_byte_append [simp]:
  "c \<notin> set a \<Longrightarrow> split_byte c (a @ c # b) = a # split_byte c b"
  by (induction a) auto

lemma split_byte_index:
  "split_byte c s = (case index_byte s c of None \<Rightarrow> [s]
     | Some i \<Rightarrow> take i s # split_byte c (drop (Suc i) s))"
proof (cases "index_byte s c")
  case (Some i)
  then have "split_byte c (take i s @ c # drop (Suc i) s) = take i s # split_byte c (drop (Suc i) s)"
    using index_byte_SomeD [OF Some] by (intro split_byte_append) blast
  then show ?thesis using index_byte_split [OF Some] Some by simp
next
  case None
  then have "c \<notin> set s" by simp
  then show ?thesis unfolding None by simp
qed

subsection \<open>Decimal numbers\<close>

definition digit_char :: "nat \<Rightarrow> char" where
  "digit_char d = char_of (48 + d)"

text \<open>\<open>strconv.FormatUint(n, 10)\<close>: no leading zero, and \<open>0\<close> is \<open>"0"\<close>.\<close>

fun format_nat :: "nat \<Rightarrow> string" where
  "format_nat n = (if n < 10 then [digit_char n]
     else format_nat (n div 10) @ [digit_char (n mod 10)])"

declare format_nat.simps [simp del]

definition FormatUint :: "u64 \<Rightarrow> string" where
  "FormatUint w = format_nat (unat w)"

definition Itoa :: "int \<Rightarrow> string" where
  "Itoa i = (if i < 0 then CHR ''-'' # format_nat (nat (- i)) else format_nat (nat i))"

text \<open>
  \<open>strconv.ParseUint(s, 10, 64)\<close> as the source uses it, the error dropped: the value on success,
  0 on a syntax error (empty input or a byte that is not a digit), the largest \<open>uint64\<close> as soon as
  the digits read so far exceed the range.
\<close>

definition char_digit :: "char \<Rightarrow> nat option" where
  "char_digit c = (let k = of_char c :: nat in if 48 \<le> k \<and> k \<le> 57 then Some (k - 48) else None)"

fun parse_uint_loop :: "nat \<Rightarrow> string \<Rightarrow> nat" where
  "parse_uint_loop n [] = n"
| "parse_uint_loop n (c # cs) = (case char_digit c of
      None \<Rightarrow> 0
    | Some d \<Rightarrow> if n * 10 + d \<ge> 2 ^ 64 then 2 ^ 64 - 1 else parse_uint_loop (n * 10 + d) cs)"

definition ParseUint :: "string \<Rightarrow> u64" where
  "ParseUint s = (if s = [] then 0 else of_nat (parse_uint_loop 0 s))"

lemma of_char_digit_char [simp]: "d < 10 \<Longrightarrow> (of_char (digit_char d) :: nat) = 48 + d"
  by (simp add: digit_char_def of_char_of)

lemma char_digit_digit_char [simp]: "d < 10 \<Longrightarrow> char_digit (digit_char d) = Some d"
  by (simp add: char_digit_def Let_def)

lemma digit_char_noteq:
  assumes "of_char c < (48::nat) \<or> 57 < (of_char c :: nat)" and "d < 10"
  shows "digit_char d \<noteq> c"
  using assms of_char_digit_char [of d] by auto

lemma digit_chars_of_format_nat: "x \<in> set (format_nat n) \<Longrightarrow> \<exists>d < 10. x = digit_char d"
proof (induction n rule: format_nat.induct)
  case (1 n)
  then show ?case
    by (cases "n < 10") (auto simp: format_nat.simps [of n] intro: exI [of _ "n mod 10"])
qed

lemma format_nat_ne [simp]: "format_nat n \<noteq> []"
  by (simp add: format_nat.simps [of n])

lemma format_nat_notin:
  "of_char c < (48::nat) \<or> 57 < (of_char c :: nat) \<Longrightarrow> c \<notin> set (format_nat n)"
  using digit_chars_of_format_nat [of c n] digit_char_noteq by blast

lemma parse_uint_loop_format_nat:
  "n < 2 ^ 64 \<Longrightarrow> m = 0 \<Longrightarrow> parse_uint_loop m (format_nat n @ s) = parse_uint_loop n s"
proof (induction n arbitrary: s rule: format_nat.induct)
  case (1 n)
  show ?case
  proof (cases "n < 10")
    case True
    with 1 show ?thesis by (simp add: format_nat.simps [of n])
  next
    case False
    with 1 have "parse_uint_loop m (format_nat (n div 10) @ digit_char (n mod 10) # s)
        = parse_uint_loop (n div 10) (digit_char (n mod 10) # s)" by simp
    with False 1 show ?thesis by (simp add: format_nat.simps [of n])
  qed
qed

lemma ParseUint_FormatUint [simp]: "ParseUint (FormatUint w) = w"
proof -
  have "unat w < 2 ^ 64" using unsigned_less [of w] by simp
  then have "parse_uint_loop 0 (format_nat (unat w)) = unat w"
    using parse_uint_loop_format_nat [of "unat w" 0 "[]"] by simp
  then show ?thesis by (simp add: ParseUint_def FormatUint_def)
qed

definition digits_value :: "string \<Rightarrow> nat" where
  "digits_value s = foldl (\<lambda>n c. n * 10 + (of_char c - 48)) 0 s"

lemma digits_value_format_nat [simp]: "digits_value (format_nat n) = n"
proof (induction n rule: format_nat.induct)
  case (1 n)
  then show ?case by (cases "n < 10") (simp_all add: format_nat.simps [of n] digits_value_def)
qed

lemma format_nat_inj [simp]: "format_nat a = format_nat b \<longleftrightarrow> a = b"
  by (metis digits_value_format_nat)

lemma FormatUint_inj [simp]: "FormatUint a = FormatUint b \<longleftrightarrow> a = b"
  by (metis ParseUint_FormatUint)

lemma FormatUint_notin:
  "of_char c < (48::nat) \<or> 57 < (of_char c :: nat) \<Longrightarrow> c \<notin> set (FormatUint w)"
  unfolding FormatUint_def by (rule format_nat_notin)

lemma FormatUint_ne [simp]: "FormatUint w \<noteq> []"
  by (simp add: FormatUint_def)

end
