(* ===== verification/Actor_Id.thy ===== *)
theory Actor_Id
  imports Go_Strings
begin

section \<open>Actor names, ids and references\<close>

text \<open>
  Sources: \<open>actor_name.go\<close> (which names may appear in an id), \<open>actor_parse.go\<close> (the parser that
  splits \<open>type/kind/name@addr\<close>), \<open>actor_wrapper.go\<close> (the references built from an id) and
  \<open>reply_ref.go\<close> (the reference that stands for a pending \<open>Ask\<close>). The parser works on indices and
  substrings for speed; \<open>parse_by_split\<close> is the shape it promises to keep, two calls of
  \<open>strings.Split\<close>.
\<close>

abbreviation slash :: char where "slash \<equiv> CHR ''/''"
abbreviation at_sign :: char where "at_sign \<equiv> CHR ''@''"

subsection \<open>Constants of config.go\<close>

definition defaultActDirect :: string where "defaultActDirect = ''direct''"
definition defaultActCluster :: string where "defaultActCluster = ''cluster''"
definition defaultLocalKind :: string where "defaultLocalKind = ''local''"
definition defaultSystemKind :: string where "defaultSystemKind = ''system''"
definition defaultReplyKind :: string where "defaultReplyKind = ''reply''"
definition defaultWriteStreamKind :: string where "defaultWriteStreamKind = ''write_stream''"
definition eventStreamWatchName :: string where "eventStreamWatchName = ''event_stream''"

lemmas name_constants = defaultActDirect_def defaultActCluster_def defaultLocalKind_def
  defaultSystemKind_def defaultReplyKind_def defaultWriteStreamKind_def eventStreamWatchName_def

subsection \<open>Validation: actor_name.go\<close>

datatype name_error = EmptyName | SeparatorInName char

definition invalidNameChars :: "char list" where
  "invalidNameChars = [slash, at_sign]"

text \<open>\<open>strings.IndexAny(name, chars)\<close>: the first byte of the name that is one of \<open>chars\<close>.\<close>

definition index_any :: "string \<Rightarrow> char list \<Rightarrow> char option" where
  "index_any s cs = find (\<lambda>c. c \<in> set cs) s"

definition ValidateActorName :: "string \<Rightarrow> name_error option" where
  "ValidateActorName name =
     (if name = [] then Some EmptyName
      else case index_any name invalidNameChars of
        Some c \<Rightarrow> Some (SeparatorInName c)
      | None \<Rightarrow> None)"

definition validateKindName :: "string \<Rightarrow> name_error option" where
  "validateKindName kind =
     (if kind = [] then Some EmptyName
      else case index_any kind invalidNameChars of
        Some c \<Rightarrow> Some (SeparatorInName c)
      | None \<Rightarrow> None)"

lemma ValidateActorName_ok:
  "ValidateActorName n = None \<longleftrightarrow> n \<noteq> [] \<and> slash \<notin> set n \<and> at_sign \<notin> set n"
proof -
  have "ValidateActorName n = None \<longleftrightarrow> n \<noteq> [] \<and> index_any n invalidNameChars = None"
    by (auto simp: ValidateActorName_def split: option.splits)
  then show ?thesis by (auto simp: index_any_def invalidNameChars_def find_None_iff)
qed

lemma validateKindName_ok:
  "validateKindName n = None \<longleftrightarrow> n \<noteq> [] \<and> slash \<notin> set n \<and> at_sign \<notin> set n"
  using ValidateActorName_ok [of n] by (simp add: ValidateActorName_def validateKindName_def)

subsection \<open>The parser: actor_parse.go\<close>

record cache_parse =
  cp_d8c :: string
  cp_kind :: string
  cp_name :: string
  cp_directAddr :: string

definition no_parse :: cache_parse where
  "no_parse = \<lparr>cp_d8c = [], cp_kind = [], cp_name = [], cp_directAddr = []\<rparr>"

definition parseCache :: "string \<Rightarrow> cache_parse" where
  "parseCache fullPath =
     (case index_byte fullPath slash of
        None \<Rightarrow> no_parse
      | Some i \<Rightarrow>
          let rest = drop (i + 1) fullPath in
          (case index_byte rest slash of
             None \<Rightarrow> no_parse
           | Some j \<Rightarrow>
               let name = drop (j + 1) rest in
               if index_byte name slash \<noteq> None then no_parse
               else
                 let typ = take i fullPath; kind = take j rest in
                 (case index_byte name at_sign of
                    None \<Rightarrow> \<lparr>cp_d8c = typ, cp_kind = kind, cp_name = name, cp_directAddr = []\<rparr>
                  | Some k \<Rightarrow>
                      let addr = drop (k + 1) name;
                          addr' = (case index_byte addr at_sign of
                                     None \<Rightarrow> addr | Some k2 \<Rightarrow> take k2 addr)
                      in \<lparr>cp_d8c = typ, cp_kind = kind, cp_name = take k name,
                          cp_directAddr = addr'\<rparr>)))"

text \<open>The reference: split at \<open>/\<close> into exactly three parts, then the third at \<open>@\<close>.\<close>

definition parse_by_split :: "string \<Rightarrow> cache_parse" where
  "parse_by_split s =
     (case split_byte slash s of
        [typ, kind, rest] \<Rightarrow>
          (case split_byte at_sign rest of
             [name] \<Rightarrow> \<lparr>cp_d8c = typ, cp_kind = kind, cp_name = name, cp_directAddr = []\<rparr>
           | name # addr # _ \<Rightarrow>
               \<lparr>cp_d8c = typ, cp_kind = kind, cp_name = name, cp_directAddr = addr\<rparr>
           | [] \<Rightarrow> no_parse)
      | _ \<Rightarrow> no_parse)"

subsection \<open>References: actor_wrapper.go, reply_ref.go\<close>

text \<open>
  A reference is one of two objects. \<open>aw_ptr\<close> is the identity of the Go pointer: the code compares
  references by pointer (\<open>ctx.Target() == p.self()\<close>). \<open>sys\<close> identifies the owning system.
\<close>

record actor_id_wrapper =
  aw_parse :: cache_parse
  aw_fullPath :: string
  aw_system :: nat
  aw_ptr :: nat

record reply_ref =
  rr_snId :: u64
  rr_addr :: string
  rr_system :: nat

datatype actor_ref = ActorIdRef actor_id_wrapper | ReplyRef reply_ref

definition newActorRefFromAID :: "string \<Rightarrow> nat \<Rightarrow> nat \<Rightarrow> actor_ref" where
  "newActorRefFromAID aid sys ptr = ActorIdRef
     \<lparr>aw_parse = parseCache aid, aw_fullPath = aid, aw_system = sys, aw_ptr = ptr\<rparr>"

definition newDirectActorRef :: "string \<Rightarrow> string \<Rightarrow> string \<Rightarrow> nat \<Rightarrow> nat \<Rightarrow> actor_ref" where
  "newDirectActorRef kind name addr sys ptr =
     (let path = defaultActDirect @ ''/'' @ kind @ ''/'' @ name @ ''@'' @ addr
      in ActorIdRef \<lparr>aw_parse = parseCache path, aw_fullPath = path, aw_system = sys, aw_ptr = ptr\<rparr>)"

definition newClusterActorRef :: "string \<Rightarrow> string \<Rightarrow> nat \<Rightarrow> nat \<Rightarrow> actor_ref" where
  "newClusterActorRef kind name sys ptr =
     (let path = defaultActCluster @ ''/'' @ kind @ ''/'' @ name
      in ActorIdRef \<lparr>aw_parse = parseCache path, aw_fullPath = path, aw_system = sys, aw_ptr = ptr\<rparr>)"

definition newReplyRef :: "u64 \<Rightarrow> string \<Rightarrow> nat \<Rightarrow> actor_ref" where
  "newReplyRef snId addr sys = ReplyRef \<lparr>rr_snId = snId, rr_addr = addr, rr_system = sys\<rparr>"

fun GetId :: "actor_ref \<Rightarrow> string" where
  "GetId (ActorIdRef w) = aw_fullPath w"
| "GetId (ReplyRef r) = defaultActDirect @ ''/'' @ defaultReplyKind @ ''/'' @
     FormatUint (rr_snId r) @ ''@'' @ rr_addr r"

fun GetSystem :: "actor_ref \<Rightarrow> nat" where
  "GetSystem (ActorIdRef w) = aw_system w"
| "GetSystem (ReplyRef r) = rr_system r"

fun GetKind :: "actor_ref \<Rightarrow> string" where
  "GetKind (ActorIdRef w) = cp_kind (aw_parse w)"
| "GetKind (ReplyRef r) = defaultReplyKind"

fun GetName :: "actor_ref \<Rightarrow> string" where
  "GetName (ActorIdRef w) = cp_name (aw_parse w)"
| "GetName (ReplyRef r) = FormatUint (rr_snId r)"

fun GetDirectAddr :: "actor_ref \<Rightarrow> string" where
  "GetDirectAddr (ActorIdRef w) = cp_directAddr (aw_parse w)"
| "GetDirectAddr (ReplyRef r) = rr_addr r"

fun isDirect :: "actor_ref \<Rightarrow> bool" where
  "isDirect (ActorIdRef w) = (cp_d8c (aw_parse w) = defaultActDirect)"
| "isDirect (ReplyRef r) = True"

fun isCluster :: "actor_ref \<Rightarrow> bool" where
  "isCluster (ActorIdRef w) = (cp_d8c (aw_parse w) = defaultActCluster)"
| "isCluster (ReplyRef r) = False"

fun isAsk :: "actor_ref \<Rightarrow> bool" where
  "isAsk (ActorIdRef w) = (GetKind (ActorIdRef w) = defaultReplyKind)"
| "isAsk (ReplyRef r) = True"

fun askSnId :: "actor_ref \<Rightarrow> u64" where
  "askSnId (ActorIdRef w) = ParseUint (GetName (ActorIdRef w))"
| "askSnId (ReplyRef r) = rr_snId r"

subsection \<open>Lemmas\<close>

lemma parseCache_direct:
  assumes "slash \<notin> set t" "slash \<notin> set k" "slash \<notin> set n" "at_sign \<notin> set n"
    and "slash \<notin> set a" "at_sign \<notin> set a"
  shows "parseCache (t @ slash # k @ slash # n @ at_sign # a)
    = \<lparr>cp_d8c = t, cp_kind = k, cp_name = n, cp_directAddr = a\<rparr>"
  using assms by (simp add: parseCache_def Let_def)

lemma parseCache_cluster:
  assumes "slash \<notin> set t" "slash \<notin> set k" "slash \<notin> set n" "at_sign \<notin> set n"
  shows "parseCache (t @ slash # k @ slash # n)
    = \<lparr>cp_d8c = t, cp_kind = k, cp_name = n, cp_directAddr = []\<rparr>"
  using assms by (simp add: parseCache_def Let_def)

lemma not_ok_names [simp]: "slash \<notin> set defaultActDirect" "slash \<notin> set defaultActCluster"
  "slash \<notin> set defaultReplyKind" "at_sign \<notin> set defaultReplyKind"
  by (simp_all add: name_constants)

lemma direct_ref_parse:
  assumes "slash \<notin> set kind" "slash \<notin> set name" "at_sign \<notin> set name" "slash \<notin> set addr" "at_sign \<notin> set addr"
  shows "parseCache (defaultActDirect @ ''/'' @ kind @ ''/'' @ name @ ''@'' @ addr)
      = \<lparr>cp_d8c = defaultActDirect, cp_kind = kind, cp_name = name, cp_directAddr = addr\<rparr>"
  using parseCache_direct [of defaultActDirect kind name addr] assms by simp

lemma cluster_ref_parse:
  assumes "slash \<notin> set kind" "slash \<notin> set name" "at_sign \<notin> set name"
  shows "parseCache (defaultActCluster @ ''/'' @ kind @ ''/'' @ name)
      = \<lparr>cp_d8c = defaultActCluster, cp_kind = kind, cp_name = name, cp_directAddr = []\<rparr>"
  using parseCache_cluster [of defaultActCluster kind name] assms by simp

lemma direct_ref_parts:
  assumes "slash \<notin> set kind" "slash \<notin> set name" "at_sign \<notin> set name" "slash \<notin> set addr" "at_sign \<notin> set addr"
  shows "GetKind (newDirectActorRef kind name addr sys p) = kind" "GetName (newDirectActorRef kind name addr sys p) = name"
    "GetDirectAddr (newDirectActorRef kind name addr sys p) = addr" "isDirect (newDirectActorRef kind name addr sys p)"
    "\<not> isCluster (newDirectActorRef kind name addr sys p)"
    "isAsk (newDirectActorRef kind name addr sys p) = (kind = defaultReplyKind)"
proof -
  note p = direct_ref_parse [OF assms]
  show "GetKind (newDirectActorRef kind name addr sys p) = kind" "GetName (newDirectActorRef kind name addr sys p) = name"
    "GetDirectAddr (newDirectActorRef kind name addr sys p) = addr" "isDirect (newDirectActorRef kind name addr sys p)"
    "\<not> isCluster (newDirectActorRef kind name addr sys p)"
    "isAsk (newDirectActorRef kind name addr sys p) = (kind = defaultReplyKind)"
    unfolding newDirectActorRef_def Let_def p by (simp_all add: name_constants)
qed

lemma cluster_ref_parts:
  assumes "slash \<notin> set kind" "slash \<notin> set name" "at_sign \<notin> set name"
  shows "GetKind (newClusterActorRef kind name sys p) = kind" "GetName (newClusterActorRef kind name sys p) = name"
    "GetDirectAddr (newClusterActorRef kind name sys p) = []" "isCluster (newClusterActorRef kind name sys p)"
    "\<not> isDirect (newClusterActorRef kind name sys p)"
proof -
  note p = cluster_ref_parse [OF assms]
  show "GetKind (newClusterActorRef kind name sys p) = kind" "GetName (newClusterActorRef kind name sys p) = name"
    "GetDirectAddr (newClusterActorRef kind name sys p) = []" "isCluster (newClusterActorRef kind name sys p)"
    "\<not> isDirect (newClusterActorRef kind name sys p)"
    unfolding newClusterActorRef_def Let_def p by (simp_all add: name_constants)
qed

subsection \<open>Properties\<close>

text \<open>
  C24. The index-based parser agrees with the two \<open>strings.Split\<close> calls it replaces on every input,
  well formed or not: exactly three \<open>/\<close>-parts or all fields empty, and a second \<open>@\<close> ends the
  address.
\<close>

theorem parseCache_is_split: "parseCache s = parse_by_split s"
proof (cases "index_byte s slash")
  case None
  then show ?thesis
    unfolding parseCache_def parse_by_split_def split_byte_index [of slash s] by simp
next
  case (Some i)
  let ?rest = "drop (Suc i) s"
  show ?thesis
  proof (cases "index_byte ?rest slash")
    case None
    with Some show ?thesis
      unfolding parseCache_def parse_by_split_def split_byte_index [of slash s]
        split_byte_index [of slash ?rest] by simp
  next
    case j: (Some j)
    let ?name = "drop (Suc j) ?rest"
    have sp: "split_byte slash s = take i s # take j ?rest # split_byte slash ?name"
      using Some j by (simp add: split_byte_index [of slash s] split_byte_index [of slash ?rest])
    show ?thesis
    proof (cases "index_byte ?name slash")
      case k: (Some k)
      then obtain a b cs where "split_byte slash ?name = a # b # cs"
        using split_byte_index [of slash ?name] by (cases "split_byte slash (drop (Suc k) ?name)") auto
      moreover have "slash \<in> set ?name"
        using k index_byte_None [of ?name slash] by (metis option.distinct(1))
      ultimately show ?thesis using Some j by (simp add: parseCache_def parse_by_split_def sp)
    next
      case None
      then have "split_byte slash ?name = [?name]" by simp
      with Some j None show ?thesis
        by (simp add: parseCache_def parse_by_split_def sp split_byte_index [of at_sign ?name]
            Let_def split: option.splits)
          (auto simp: split_byte_index split: option.splits)
    qed
  qed
qed

text \<open>
  Rebuilding a reference from its own id gives the same reference up to the system and the pointer.
\<close>

lemma rebuild_ref:
  "newActorRefFromAID (GetId (newDirectActorRef kind name addr sys p)) sys' p' = newDirectActorRef kind name addr sys' p'"
  "newActorRefFromAID (GetId (newClusterActorRef kind name sys p)) sys' p' = newClusterActorRef kind name sys' p'"
  by (simp_all add: newActorRefFromAID_def newDirectActorRef_def newClusterActorRef_def Let_def)

text \<open>
  C25. Building a reference and parsing its id are inverse for every kind and name the validators
  admit. The id is the type, the kind and the name with their separators, and the address of a direct
  one. The reference and the one that another system rebuilds from its id have the same id and exactly these
  parts: the kind, the name, the address (none for a cluster actor) and the type come back, each
  belongs to the system that built it, and it counts as a reply reference exactly when its kind is the reserved one.
\<close>

theorem actor_ref_round_trip:
  assumes "validateKindName kind = None" and "ValidateActorName name = None"
    and "slash \<notin> set addr" and "at_sign \<notin> set addr"
  shows "let d = newDirectActorRef kind name addr sys p; d' = newActorRefFromAID (GetId d) sys' p';
             c = newClusterActorRef kind name sys p; c' = newActorRefFromAID (GetId c) sys' p' in
     GetId d = ''direct/'' @ kind @ ''/'' @ name @ ''@'' @ addr \<and> GetId d' = GetId d \<and>
     GetId c = ''cluster/'' @ kind @ ''/'' @ name \<and> GetId c' = GetId c \<and>
     GetSystem d = sys \<and> GetSystem d' = sys' \<and> GetSystem c = sys \<and> GetSystem c' = sys' \<and>
     (\<forall>r \<in> {d, d', c, c'}. GetKind r = kind \<and> GetName r = name \<and> isAsk r = (kind = defaultReplyKind)) \<and>
     (\<forall>r \<in> {d, d'}. GetDirectAddr r = addr \<and> isDirect r \<and> \<not> isCluster r) \<and>
     (\<forall>r \<in> {c, c'}. GetDirectAddr r = [] \<and> isCluster r \<and> \<not> isDirect r)"
proof -
  note ok = assms [unfolded validateKindName_ok ValidateActorName_ok]
  have d: "GetId (newDirectActorRef kind name addr s q) = ''direct/'' @ kind @ ''/'' @ name @ ''@'' @ addr \<and>
      GetSystem (newDirectActorRef kind name addr s q) = s" for s q
    by (simp add: newDirectActorRef_def Let_def name_constants)
  have c: "GetId (newClusterActorRef kind name s q) = ''cluster/'' @ kind @ ''/'' @ name \<and>
      GetSystem (newClusterActorRef kind name s q) = s \<and>
      isAsk (newClusterActorRef kind name s q) = (kind = defaultReplyKind)" for s q
    using cluster_ref_parts(1) [of kind name s q] ok by (simp add: newClusterActorRef_def Let_def name_constants)
  show ?thesis
    unfolding Let_def rebuild_ref using d c ok direct_ref_parts [of kind name addr] cluster_ref_parts [of kind name] by simp
qed

theorem actor_ref_round_trip_witness:
  "let d = newActorRefFromAID (GetId (newDirectActorRef ''player'' ''p1'' ''10.0.0.1:80'' 0 7)) 1 8;
       c = newActorRefFromAID (GetId (newClusterActorRef ''player'' ''p1'' 0 7)) 1 8 in
   GetName d = ''p1'' \<and> GetDirectAddr d = ''10.0.0.1:80'' \<and> isDirect d \<and> \<not> isAsk d \<and> GetSystem d = 1 \<and>
   GetKind c = ''player'' \<and> GetName c = ''p1'' \<and> isCluster c"
proof -
  have ok: "validateKindName ''player'' = None" "ValidateActorName ''p1'' = None" "slash \<notin> set ''10.0.0.1:80''"
      "at_sign \<notin> set ''10.0.0.1:80''" "''player'' \<noteq> defaultReplyKind"
    by (simp_all add: validateKindName_ok ValidateActorName_ok defaultReplyKind_def)
  show ?thesis
    using actor_ref_round_trip [OF ok(1-4), of 0 7 1 8] ok(5) unfolding Let_def by blast
qed

text \<open>
  A reply reference survives the wire: the id it sends to another node parses there into a
  direct reply reference with the same correlation id and the same origin address, so the reply
  comes back to the waiter that asked.
\<close>

lemma reply_ref_round_trip:
  assumes "slash \<notin> set addr" and "at_sign \<notin> set addr"
  shows "(let r = newActorRefFromAID (GetId (newReplyRef snId addr sys)) sys' p
          in isAsk r \<and> isDirect r \<and> askSnId r = snId \<and> GetDirectAddr r = addr)"
proof -
  have "slash \<notin> set (FormatUint snId)" "at_sign \<notin> set (FormatUint snId)"
    by (auto intro!: FormatUint_notin)
  then have "parseCache (GetId (newReplyRef snId addr sys)) = \<lparr>cp_d8c = defaultActDirect,
      cp_kind = defaultReplyKind, cp_name = FormatUint snId, cp_directAddr = addr\<rparr>"
    using assms direct_ref_parse [of defaultReplyKind "FormatUint snId" addr] by (simp add: newReplyRef_def)
  then show ?thesis by (simp add: newActorRefFromAID_def Let_def)
qed

end
