(* ===== verification/Err_Code.thy ===== *)
theory Err_Code
  imports Go_Strings
begin

section \<open>Error codes: message/msg.code.go, message.go\<close>

text \<open>
  An \<open>*ErrCode\<close> (a code and a description) is what every failing \<open>Ask\<close> returns; a \<open>Code\<close> is an
  error value of its own, so that callers match by code. A Go \<open>error\<close> is a tree: a leaf, one value
  wrapped by \<open>fmt.Errorf("%w")\<close>, or several joined by \<open>errors.Join\<close>; \<open>errors.Is\<close> and \<open>errors.As\<close>
  walk it in pre-order. A \<open>*ErrCode\<close> inside an error may be a nil pointer, hence the option.
\<close>

definition CodeErr :: int where "CodeErr = -1"
definition CodeActorNotFound :: int where "CodeActorNotFound = -2"
definition CodeAskNotRunning :: int where "CodeAskNotRunning = -3"
definition CodeAskInvalidContext :: int where "CodeAskInvalidContext = -4"
definition CodeSystemStopping :: int where "CodeSystemStopping = -5"

lemmas code_constants = CodeErr_def CodeActorNotFound_def CodeAskNotRunning_def
  CodeAskInvalidContext_def CodeSystemStopping_def

record err_code =
  ec_Code :: int
  ec_Des :: string

datatype go_error =
    CodeError int
  | ErrCodePtr "err_code option"
  | OtherError string
  | Wrapped string go_error
  | Joined "go_error list"

definition Code_Error :: "int \<Rightarrow> string" where
  "Code_Error c = ''ErrCode, code:'' @ Itoa c"

definition ErrCode_Error :: "err_code \<Rightarrow> string" where
  "ErrCode_Error x = ''ErrCode, code:'' @ Itoa (ec_Code x) @ '', des:'' @ ec_Des x"

text \<open>\<open>(*ErrCode).Is\<close>: by code only; a nil receiver or a nil target never matches.\<close>

definition ErrCode_Is :: "err_code option \<Rightarrow> go_error \<Rightarrow> bool" where
  "ErrCode_Is x target = (case x of None \<Rightarrow> False
     | Some e \<Rightarrow> (case target of
           CodeError c \<Rightarrow> ec_Code e = c
         | ErrCodePtr t \<Rightarrow> (case t of None \<Rightarrow> False | Some e' \<Rightarrow> ec_Code e = ec_Code e')
         | _ \<Rightarrow> False))"

text \<open>The nodes of an error tree in the order \<open>errors.Is\<close> and \<open>errors.As\<close> visit them.\<close>

fun error_nodes :: "go_error \<Rightarrow> go_error list" where
  "error_nodes (Wrapped s e) = Wrapped s e # error_nodes e"
| "error_nodes (Joined es) = Joined es # concat (map error_nodes es)"
| "error_nodes e = [e]"

text \<open>
  \<open>errors.Is\<close> for a target that is a \<open>Code\<close>: a node matches when it is that code or when its \<open>Is\<close>
  method says so; only \<open>*ErrCode\<close> has one.
\<close>

definition errors_Is_Code :: "go_error \<Rightarrow> int \<Rightarrow> bool" where
  "errors_Is_Code err c = (\<exists>n \<in> set (error_nodes err).
     n = CodeError c \<or> (\<exists>x. n = ErrCodePtr x \<and> ErrCode_Is x (CodeError c)))"

fun first_err_code :: "go_error list \<Rightarrow> err_code option option" where
  "first_err_code [] = None"
| "first_err_code (ErrCodePtr x # ns) = Some x"
| "first_err_code (n # ns) = first_err_code ns"

fun first_code :: "go_error list \<Rightarrow> int option" where
  "first_code [] = None"
| "first_code (CodeError c # ns) = Some c"
| "first_code (n # ns) = first_code ns"

text \<open>\<open>CodeOf\<close>: \<open>errors.As\<close> for a \<open>*ErrCode\<close> that is not nil, then for a \<open>Code\<close>.\<close>

definition CodeOf :: "go_error \<Rightarrow> int option" where
  "CodeOf err = (case first_err_code (error_nodes err) of
      Some (Some e) \<Rightarrow> Some (ec_Code e)
    | _ \<Rightarrow> first_code (error_nodes err))"

definition WithErr :: "string \<Rightarrow> err_code" where
  "WithErr des = \<lparr>ec_Code = CodeErr, ec_Des = des\<rparr>"

fun join_des :: "string \<Rightarrow> string list \<Rightarrow> string" where
  "join_des all [] = all"
| "join_des all (de # des) = join_des (if all = [] then de else all @ [CHR 0x0A] @ de) des"

definition WithErrCode :: "int \<Rightarrow> string list \<Rightarrow> err_code" where
  "WithErrCode code des = \<lparr>ec_Code = code, ec_Des = join_des [] des\<rparr>"

text \<open>The shared values of message.go.\<close>

definition errAskInvalidContext :: err_code where
  "errAskInvalidContext =
     WithErrCode CodeAskInvalidContext [''ask requires the owning actor handler goroutine'']"

definition errSystemStopping :: err_code where
  "errSystemStopping = WithErrCode CodeSystemStopping [''actor system is stopping'']"

definition errActorNotFound :: err_code where
  "errActorNotFound = WithErrCode CodeActorNotFound [''actor not found'']"

definition errKindNotInCluster :: err_code where
  "errKindNotInCluster =
     WithErrCode CodeActorNotFound [''actor kind is not hosted by any node in the cluster'']"

definition errAskNotRunning :: err_code where
  "errAskNotRunning = WithErrCode CodeAskNotRunning
     [''ask is only allowed from a normal handler, not Started() or PreStop(); tell self a message to defer startup work'']"

lemma first_err_code_mem: "first_err_code ns = Some x \<Longrightarrow> ErrCodePtr x \<in> set ns"
  by (induction ns rule: first_err_code.induct) auto

lemma first_code_mem: "first_code ns = Some c \<Longrightarrow> CodeError c \<in> set ns"
  by (induction ns rule: first_code.induct) auto

lemma first_err_code_None: "first_err_code ns = None \<longleftrightarrow> (\<forall>x. ErrCodePtr x \<notin> set ns)"
  by (induction ns rule: first_err_code.induct) auto

lemma first_code_None: "first_code ns = None \<longleftrightarrow> (\<forall>c. CodeError c \<notin> set ns)"
  by (induction ns rule: first_code.induct) auto

lemma CodeOf_found_by_Is:
  assumes "CodeOf err = Some c"
  shows "errors_Is_Code err c"
proof (cases "first_err_code (error_nodes err)")
  case None
  then have "CodeError c \<in> set (error_nodes err)"
    using assms by (auto simp: CodeOf_def intro: first_code_mem)
  then show ?thesis by (auto simp: errors_Is_Code_def)
next
  case (Some x)
  then have m: "ErrCodePtr x \<in> set (error_nodes err)" by (rule first_err_code_mem)
  show ?thesis
  proof (cases x)
    case None
    then have "CodeError c \<in> set (error_nodes err)"
      using assms Some by (auto simp: CodeOf_def intro: first_code_mem)
    then show ?thesis by (auto simp: errors_Is_Code_def)
  next
    case e: (Some e)
    then have "ErrCode_Is x (CodeError c)" using assms Some by (simp add: CodeOf_def ErrCode_Is_def)
    then show ?thesis using m by (auto simp: errors_Is_Code_def)
  qed
qed

lemma Is_has_CodeOf:
  assumes "errors_Is_Code err c" and "ErrCodePtr None \<notin> set (error_nodes err)"
  shows "CodeOf err \<noteq> None"
proof (cases "first_err_code (error_nodes err)")
  case None
  then have "CodeError c \<in> set (error_nodes err)"
    using assms(1) by (auto simp: errors_Is_Code_def first_err_code_None)
  then show ?thesis using None first_code_None by (auto simp: CodeOf_def)
next
  case (Some x)
  then show ?thesis using assms(2) first_err_code_mem [OF Some] by (cases x) (auto simp: CodeOf_def)
qed

text \<open>
  \<open>CodeOf\<close> and \<open>errors.Is\<close> agree: the code \<open>CodeOf\<close> extracts from an error tree, however it was
  wrapped or joined, is one that \<open>errors.Is\<close> finds in the same tree; and an error in which
  \<open>errors.Is\<close> finds some code has a code for \<open>CodeOf\<close> to return, unless a nil \<open>*ErrCode\<close> hides it.
\<close>

lemma CodeOf_agrees_with_Is:
  "(CodeOf err = Some c \<longrightarrow> errors_Is_Code err c) \<and>
   (errors_Is_Code err c \<longrightarrow> ErrCodePtr None \<notin> set (error_nodes err) \<longrightarrow> CodeOf err \<noteq> None)"
  using CodeOf_found_by_Is Is_has_CodeOf by blast

end
