(* ===== verification/Message_Context.thy ===== *)
theory Message_Context
  imports Actor_Id Err_Code
begin

section \<open>Messages and their delivery context: message/, context_impl.go, dead_letter.go\<close>

text \<open>
  The protobuf messages the framework itself distinguishes, one constructor each, and the user's
  messages by name and payload. \<open>BroadcastPublishProtoWrapper\<close> embeds the message it carries, so
  its protobuf name is the one of the message inside. A \<open>Context\<close> is one delivery.
\<close>

datatype proto_message =
    Initialize
  | Poison
  | ErrCodeMsg err_code
  | Subscribe (sub_actorId: string) (sub_eventName: string)
  | Unsubscribe (unsub_actorId: string) (unsub_eventName: string)
  | BroadcastPublish proto_message
  | UserMsg (user_name: string) (user_payload: nat)

fun MessageName :: "proto_message \<Rightarrow> string" where
  "MessageName Initialize = ''message.Initialize''"
| "MessageName Poison = ''message.Poison''"
| "MessageName (ErrCodeMsg e) = ''message.ErrCode''"
| "MessageName (Subscribe a e) = ''message.Subscribe''"
| "MessageName (Unsubscribe a e) = ''message.Unsubscribe''"
| "MessageName (BroadcastPublish m) = MessageName m"
| "MessageName (UserMsg n p) = n"

record actor_context =
  ctx_target :: actor_ref
  ctx_sender :: "actor_ref option"
  ctx_msgSnId :: u64
  ctx_message :: proto_message

definition newContext :: "actor_ref \<Rightarrow> actor_ref option \<Rightarrow> proto_message \<Rightarrow> u64 \<Rightarrow> actor_context" where
  "newContext target sender msg snId =
     \<lparr>ctx_target = target, ctx_sender = sender, ctx_msgSnId = snId, ctx_message = msg\<rparr>"

subsection \<open>Dead letters\<close>

datatype dead_letter_reason = ReasonOverflow | ReasonStopped | ReasonNotFound | ReasonNoOwner
  | ReasonUnreachable | ReasonMarshal string

fun reason_text :: "dead_letter_reason \<Rightarrow> string" where
  "reason_text ReasonOverflow = ''mailbox overflow''"
| "reason_text ReasonStopped = ''actor stopped''"
| "reason_text ReasonNotFound = ''actor not found''"
| "reason_text ReasonNoOwner = ''kind not hosted by any node''"
| "reason_text ReasonUnreachable = ''remote node unreachable''"
| "reason_text (ReasonMarshal e) = ''proto marshal failed: '' @ e"

record dead_letter =
  dl_Target :: actor_ref
  dl_Owner :: "actor_ref option"
  dl_Sender :: "actor_ref option"
  dl_Message :: proto_message
  dl_MsgSnId :: u64
  dl_Reason :: dead_letter_reason

definition ctx_dead_letter :: "actor_ref option \<Rightarrow> dead_letter_reason \<Rightarrow> actor_context \<Rightarrow> dead_letter" where
  "ctx_dead_letter owner reason ctx = \<lparr>dl_Target = ctx_target ctx, dl_Owner = owner,
     dl_Sender = ctx_sender ctx, dl_Message = ctx_message ctx, dl_MsgSnId = ctx_msgSnId ctx,
     dl_Reason = reason\<rparr>"

end
