(* ===== verification/Mailbox_Processor.thy ===== *)
theory Mailbox_Processor
  imports Ring_Buffer Message_Context
begin

section \<open>The actor processor: mailbox, scheduler, execution gate and lifecycle\<close>

text \<open>
  Sources: \<open>processor_mailbox.go\<close>, \<open>processor_scheduler.go\<close>, \<open>execution.go\<close>, \<open>execution_gate.go\<close>,
  \<open>processor_lifecycle.go\<close> and the phase check of \<open>BaseActor.Ask\<close> (\<open>baseactor.go\<close>).

  An actor has no goroutine of its own. A send pushes into the mailbox and calls \<open>schedule\<close>, whose
  compare-and-swap from idle to running starts a drainer; the drainer pops and runs handlers until
  the mailbox is empty. A handler that asks hands the draining to a successor and gives up the
  execution permit while it waits. The code is lock-free, so the model is a step relation: the
  shared state of one processor, a list of drainer goroutines each with its program counter, and
  callers that have pushed (or requested a stop) but not yet reached their \<open>schedule\<close>. One step is
  one atomic action of the source: an atomic load, store, add or compare-and-swap, a mailbox
  operation (under the ring's mutex), a permit transfer, a write that the permit protects, or a
  piece of user code up to its next visible action.

  The fields after \<open>waking\<close> record history (what was accepted, handed to a handler, flushed to the
  dead letters, which hooks ran); no step reads them.
\<close>

datatype drain_status = DrainIdle | DrainRunning | DrainStopped

datatype call_kind = CallStart | CallReceive | CallStop

datatype actor_lifecycle =
  ActorInitializing | ActorStarting | ActorStarted | ActorStopping | ActorStopped

text \<open>
  What the history of the hooks records: \<open>EvStarted\<close> and \<open>EvPreStop\<close> when the call begins, \<open>EvStartReturned\<close> when
  \<open>Started\<close> is over, with whether it returned (and did not panic or leave the goroutine).
\<close>

datatype proc_event = EvStarted | EvStartReturned bool | EvReceive actor_context | EvPreStop | EvUnregister

record shared =
  sh_self :: actor_ref
  sh_mailbox :: "actor_context ring_buffer"
  sh_drainStatus :: drain_status
  sh_unfinishedCalls :: int
  sh_permit :: bool
  sh_executionOwnerID :: nat
  sh_executingCall :: "nat option"
  sh_lifecycleState :: actor_lifecycle
  sh_stopRequested :: bool
  sh_clusterRegistrationOwned :: bool
  sh_registerToCluster :: bool
  sh_unRegisterFromCluster :: bool
  sh_registered :: bool
  sh_waking :: nat
  sh_accepted :: "actor_context list"
  sh_handled :: "actor_context list"
  sh_flushed :: "actor_context list"
  sh_deadLetters :: "dead_letter list"
  sh_askReplies :: "(actor_ref \<times> proto_message) list"
  sh_trace :: "proc_event list"

text \<open>How a handler invocation ended: back to the drain loop, or through \<open>runtime.Goexit\<close>.\<close>

datatype exit_mode = Normal | Goexit

text \<open>Who called \<open>lifecycle.stop\<close>, i.e. where it returns to.\<close>

datatype stop_caller = FromStart exit_mode | FromStopIfIdle

text \<open>The three places where user code runs.\<close>

datatype user_pc = InReceive actor_context | InStarted | InPreStop stop_caller

datatype drainer_pc =
    DLoad | DPop
  | DStopReady1 | DStopReady2
  | DStopEnter | DStopCheck1 | DStopCheck2 | DStopCheck3 | DStopLeave
  | DInc actor_context | DEnter actor_context | DDispatch actor_context
  | DPoisonStore | DPoisonSched
  | DUser user_pc | DSuspendLeave user_pc | DSuspended user_pc
  | LRegister
  | LStop stop_caller | LClose bool stop_caller | LUnregister stop_caller
  | LStopped stop_caller | LRemove stop_caller | LFlush stop_caller
  | DLeave exit_mode | DDec exit_mode | DDecCheck exit_mode | DDecSched exit_mode
  | DFin | DRecheckLen | DRecheckStop | DRecheckUnf | DFinSched | DDone

text \<open>The \<open>execution\<close> object of a drainer, with the drainer's program counter.\<close>

record drainer =
  d_pc :: drainer_pc
  d_callKind :: call_kind
  d_transferred :: bool

definition new_drainer :: drainer where
  "new_drainer = \<lparr>d_pc = DLoad, d_callKind = CallStart, d_transferred = False\<rparr>"

text \<open>What user code or the cluster provider does where the framework calls them.\<close>

datatype choice = UReturn | UError | UPanic | UGoexit | UAsk

text \<open>The nil interface value that fills the empty slots of the ring.\<close>

definition nil_context :: actor_context where
  "nil_context = newContext (newReplyRef 0 [] 0) None Initialize 0"

text \<open>A step yields the new shared state, the new drainer, and whether it starts another drainer.\<close>

type_synonym local_result = "(shared \<times> drainer \<times> bool) option"

abbreviation goto_pc :: "drainer_pc \<Rightarrow> shared \<Rightarrow> drainer \<Rightarrow> local_result" where
  "goto_pc pc sh d \<equiv> Some (sh, d\<lparr>d_pc := pc\<rparr>, False)"

subsection \<open>The execution gate: execution_gate.go\<close>

text \<open>
  \<open>enter\<close> blocks until the permit is in the channel, \<open>leave\<close> would block if it were there already;
  a blocked operation is \<open>None\<close>. \<open>g\<close> is the goroutine id, which also names the drainer's
  \<open>execution\<close> object.
\<close>

definition gate_enter :: "nat \<Rightarrow> shared \<Rightarrow> shared option" where
  "gate_enter g sh = (if sh_permit sh
     then Some (sh\<lparr>sh_permit := False, sh_executingCall := Some g, sh_executionOwnerID := g\<rparr>)
     else None)"

definition gate_leave :: "shared \<Rightarrow> shared option" where
  "gate_leave sh = (if sh_permit sh then None
     else Some (sh\<lparr>sh_executionOwnerID := 0, sh_executingCall := None, sh_permit := True\<rparr>))"

definition currentExecution :: "nat \<Rightarrow> shared \<Rightarrow> nat option" where
  "currentExecution g sh =
     (if sh_executionOwnerID sh = 0 \<or> sh_executionOwnerID sh \<noteq> g then None
      else sh_executingCall sh)"

subsection \<open>Scheduling: processor_scheduler.go\<close>

definition schedule :: "shared \<Rightarrow> shared \<times> bool" where
  "schedule sh = (if sh_drainStatus sh = DrainIdle
     then (sh\<lparr>sh_drainStatus := DrainRunning\<rparr>, True) else (sh, False))"

definition sched_then :: "drainer_pc \<Rightarrow> shared \<Rightarrow> drainer \<Rightarrow> local_result" where
  "sched_then pc sh d = (let (sh', sp) = schedule sh in Some (sh', d\<lparr>d_pc := pc\<rparr>, sp))"

text \<open>The head of the drain loop, and what follows an invocation.\<close>

definition step_drain :: "shared \<Rightarrow> drainer \<Rightarrow> local_result" where
  "step_drain sh d = (case d_pc d of
      DLoad \<Rightarrow> goto_pc (if sh_drainStatus sh = DrainStopped then DFin else DPop) sh d
    | DPop \<Rightarrow> (case rb_pop nil_context (sh_mailbox sh) of
          None \<Rightarrow> None
        | Some (None, mb) \<Rightarrow> goto_pc DStopReady1 (sh\<lparr>sh_mailbox := mb\<rparr>) d
        | Some (Some ctx, mb) \<Rightarrow> goto_pc (DInc ctx) (sh\<lparr>sh_mailbox := mb\<rparr>) d)
    | _ \<Rightarrow> None)"

definition after_invoke :: "exit_mode \<Rightarrow> drainer \<Rightarrow> drainer_pc" where
  "after_invoke m d = (if m = Goexit \<or> d_transferred d then DFin else DLoad)"

text \<open>\<open>stopReady\<close>: two atomic loads.\<close>

definition step_stopReady :: "shared \<Rightarrow> drainer \<Rightarrow> local_result" where
  "step_stopReady sh d = (case d_pc d of
      DStopReady1 \<Rightarrow> goto_pc (if sh_stopRequested sh then DStopReady2 else DFin) sh d
    | DStopReady2 \<Rightarrow> (if sh_unfinishedCalls sh = 0
          then Some (sh, d\<lparr>d_pc := DStopEnter, d_callKind := CallStop\<rparr>, False)
          else goto_pc DFin sh d)
    | _ \<Rightarrow> None)"

definition step_stopIfIdle :: "nat \<Rightarrow> shared \<Rightarrow> drainer \<Rightarrow> local_result" where
  "step_stopIfIdle g sh d = (case d_pc d of
      DStopEnter \<Rightarrow> (case gate_enter g sh of None \<Rightarrow> None | Some sh' \<Rightarrow> goto_pc DStopCheck1 sh' d)
    | DStopCheck1 \<Rightarrow> goto_pc (if sh_drainStatus sh = DrainStopped then DStopLeave else DStopCheck2) sh d
    | DStopCheck2 \<Rightarrow> goto_pc (if rb_Len (sh_mailbox sh) \<noteq> 0 then DStopLeave else DStopCheck3) sh d
    | DStopCheck3 \<Rightarrow> goto_pc (if sh_unfinishedCalls sh \<noteq> 0 then DStopLeave else LStop FromStopIfIdle) sh d
    | DStopLeave \<Rightarrow> (case gate_leave sh of None \<Rightarrow> None | Some sh' \<Rightarrow> goto_pc DFin sh' d)
    | _ \<Rightarrow> None)"

definition step_invoke :: "nat \<Rightarrow> shared \<Rightarrow> drainer \<Rightarrow> local_result" where
  "step_invoke g sh d = (case d_pc d of
      DInc ctx \<Rightarrow> goto_pc (DEnter ctx) (sh\<lparr>sh_unfinishedCalls := sh_unfinishedCalls sh + 1\<rparr>) d
    | DEnter ctx \<Rightarrow> (case gate_enter g sh of None \<Rightarrow> None | Some sh' \<Rightarrow> goto_pc (DDispatch ctx) sh' d)
    | DLeave m \<Rightarrow> (case gate_leave sh of None \<Rightarrow> None | Some sh' \<Rightarrow> goto_pc (DDec m) sh' d)
    | DDec m \<Rightarrow>
        (let remaining = sh_unfinishedCalls sh - 1; sh' = sh\<lparr>sh_unfinishedCalls := remaining\<rparr>
         in goto_pc (if d_transferred d \<and> remaining = 0 then DDecCheck m else after_invoke m d) sh' d)
    | DDecCheck m \<Rightarrow> goto_pc (if sh_stopRequested sh then DDecSched m else after_invoke m d) sh d
    | DDecSched m \<Rightarrow> sched_then (after_invoke m d) sh d
    | _ \<Rightarrow> None)"

definition step_finishDraining :: "shared \<Rightarrow> drainer \<Rightarrow> local_result" where
  "step_finishDraining sh d = (case d_pc d of
      DFin \<Rightarrow> (if d_transferred d then goto_pc DDone sh d
              else if sh_drainStatus sh = DrainRunning
                then goto_pc DRecheckLen (sh\<lparr>sh_drainStatus := DrainIdle\<rparr>) d
                else goto_pc DDone sh d)
    | DRecheckLen \<Rightarrow> goto_pc (if 0 < rb_Len (sh_mailbox sh) then DFinSched else DRecheckStop) sh d
    | DRecheckStop \<Rightarrow> goto_pc (if sh_stopRequested sh then DRecheckUnf else DDone) sh d
    | DRecheckUnf \<Rightarrow> goto_pc (if sh_unfinishedCalls sh = 0 then DFinSched else DDone) sh d
    | DFinSched \<Rightarrow> sched_then DDone sh d
    | _ \<Rightarrow> None)"

subsection \<open>Running a call: execution.go, baseactor.go\<close>

text \<open>
  \<open>execution.invoke\<close>: the framework's own two messages count as such only when they are addressed
  to this very actor; everything else goes to the user's \<open>Receive\<close>. \<open>lifecycle.start\<close> begins here:
  it only acts on an actor that was never started.
\<close>

definition step_execution_invoke :: "shared \<Rightarrow> drainer \<Rightarrow> local_result" where
  "step_execution_invoke sh d = (case d_pc d of
      DDispatch ctx \<Rightarrow>
        (let sh' = sh\<lparr>sh_handled := sh_handled sh @ [ctx]\<rparr> in
         if ctx_target ctx = sh_self sh \<and> ctx_message ctx = Initialize then
           (let d' = d\<lparr>d_callKind := CallStart\<rparr> in
            if sh_lifecycleState sh \<noteq> ActorInitializing then goto_pc (DLeave Normal) sh' d'
            else goto_pc (if sh_registerToCluster sh then LRegister else DUser InStarted)
                   (sh'\<lparr>sh_lifecycleState := ActorStarting,
                        sh_trace := (if sh_registerToCluster sh then sh_trace sh
                                     else sh_trace sh @ [EvStarted])\<rparr>) d')
         else if ctx_target ctx = sh_self sh \<and> ctx_message ctx = Poison then
           goto_pc DPoisonStore sh' d
         else goto_pc (DUser (InReceive ctx))
                (sh'\<lparr>sh_trace := sh_trace sh @ [EvReceive ctx]\<rparr>) (d\<lparr>d_callKind := CallReceive\<rparr>))
    | DPoisonStore \<Rightarrow> goto_pc DPoisonSched (sh\<lparr>sh_stopRequested := True\<rparr>) d
    | DPoisonSched \<Rightarrow> sched_then (DLeave Normal) sh d
    | _ \<Rightarrow> None)"

text \<open>
  \<open>BaseActor.Ask\<close> up to the suspension: without the identity of the running call, or outside a
  normal handler, nothing happens (an error is returned); otherwise \<open>suspend\<close> starts a successor
  drainer on the first \<open>Ask\<close> of this drainer and gives the permit back.
\<close>

definition step_ask :: "nat \<Rightarrow> user_pc \<Rightarrow> shared \<Rightarrow> drainer \<Rightarrow> local_result" where
  "step_ask g u sh d =
     (if currentExecution g sh = None \<or> d_callKind d \<noteq> CallReceive then Some (sh, d, False)
      else Some (sh, d\<lparr>d_pc := DSuspendLeave u, d_transferred := True\<rparr>, \<not> d_transferred d))"

definition step_suspend_resume :: "nat \<Rightarrow> shared \<Rightarrow> drainer \<Rightarrow> local_result" where
  "step_suspend_resume g sh d = (case d_pc d of
      DSuspendLeave u \<Rightarrow> (case gate_leave sh of None \<Rightarrow> None | Some sh' \<Rightarrow> goto_pc (DSuspended u) sh' d)
    | DSuspended u \<Rightarrow> (case gate_enter g sh of None \<Rightarrow> None | Some sh' \<Rightarrow> goto_pc (DUser u) sh' d)
    | _ \<Rightarrow> None)"

text \<open>User code: it returns, panics (recovered), calls \<open>Goexit\<close>, or asks.\<close>

definition step_receive :: "choice \<Rightarrow> nat \<Rightarrow> actor_context \<Rightarrow> shared \<Rightarrow> drainer \<Rightarrow> local_result" where
  "step_receive c g ctx sh d = (case c of
      UAsk \<Rightarrow> step_ask g (InReceive ctx) sh d
    | UGoexit \<Rightarrow> goto_pc (DLeave Goexit) sh d
    | _ \<Rightarrow> goto_pc (DLeave Normal) sh d)"

subsection \<open>The lifecycle: processor_lifecycle.go\<close>

text \<open>\<open>start\<close> after its first check: registration, then \<open>Started\<close>; any failure stops the actor.\<close>

definition step_start :: "choice \<Rightarrow> nat \<Rightarrow> shared \<Rightarrow> drainer \<Rightarrow> local_result" where
  "step_start c g sh d = (case d_pc d of
      LRegister \<Rightarrow> (case c of
          UReturn \<Rightarrow> goto_pc (DUser InStarted)
             (sh\<lparr>sh_clusterRegistrationOwned := True, sh_trace := sh_trace sh @ [EvStarted]\<rparr>) d
        | UGoexit \<Rightarrow> goto_pc (LStop (FromStart Goexit)) sh d
        | _ \<Rightarrow> goto_pc (LStop (FromStart Normal)) sh d)
    | DUser InStarted \<Rightarrow> (case c of
          UAsk \<Rightarrow> step_ask g InStarted sh d
        | UReturn \<Rightarrow> goto_pc (DLeave Normal)
             (sh\<lparr>sh_lifecycleState := ActorStarted, sh_trace := sh_trace sh @ [EvStartReturned True]\<rparr>) d
        | UGoexit \<Rightarrow> goto_pc (LStop (FromStart Goexit)) (sh\<lparr>sh_trace := sh_trace sh @ [EvStartReturned False]\<rparr>) d
        | _ \<Rightarrow> goto_pc (LStop (FromStart Normal)) (sh\<lparr>sh_trace := sh_trace sh @ [EvStartReturned False]\<rparr>) d)
    | _ \<Rightarrow> None)"

definition stop_return :: "stop_caller \<Rightarrow> drainer_pc" where
  "stop_return sc = (case sc of FromStart m \<Rightarrow> DLeave m | FromStopIfIdle \<Rightarrow> DStopLeave)"

text \<open>
  \<open>toDeadLetter\<close>: a message that was sent by an \<open>Ask\<close> is answered with an error, so that the asker
  does not wait for its timeout; then the letter goes to the dead-letter handler.
\<close>

definition unavailable_reply :: "dead_letter_reason \<Rightarrow> actor_ref option \<Rightarrow> (actor_ref \<times> proto_message) list" where
  "unavailable_reply reason sender = (case sender of
      Some s \<Rightarrow> if isAsk s
        then [(s, ErrCodeMsg (WithErr (''ask target mailbox unavailable: '' @ reason_text reason)))]
        else []
    | None \<Rightarrow> [])"

definition toDeadLetter :: "dead_letter_reason \<Rightarrow> actor_context \<Rightarrow> shared \<Rightarrow> shared" where
  "toDeadLetter reason ctx sh = sh\<lparr>
     sh_askReplies := sh_askReplies sh @ unavailable_reply reason (ctx_sender ctx),
     sh_deadLetters := sh_deadLetters sh @ [ctx_dead_letter (Some (sh_self sh)) reason ctx]\<rparr>"

definition step_stop :: "choice \<Rightarrow> nat \<Rightarrow> shared \<Rightarrow> drainer \<Rightarrow> local_result" where
  "step_stop c g sh d = (case d_pc d of
      LStop sc \<Rightarrow>
        (if sh_lifecycleState sh = ActorStopped \<or> sh_lifecycleState sh = ActorStopping
         then goto_pc (stop_return sc) sh d
         else Some (sh\<lparr>sh_lifecycleState := ActorStopping\<rparr>,
                    d\<lparr>d_pc := LClose (sh_lifecycleState sh = ActorStarted) sc,
                      d_callKind := CallStop\<rparr>, False))
    | LClose runPreStop sc \<Rightarrow>
        (let sh' = sh\<lparr>sh_mailbox := rb_close (sh_mailbox sh)\<rparr> in
         if runPreStop
         then goto_pc (DUser (InPreStop sc)) (sh'\<lparr>sh_trace := sh_trace sh @ [EvPreStop]\<rparr>) d
         else goto_pc (LUnregister sc) sh' d)
    | DUser (InPreStop sc) \<Rightarrow>
        (if c = UAsk then step_ask g (InPreStop sc) sh d else goto_pc (LUnregister sc) sh d)
    | LUnregister sc \<Rightarrow> goto_pc (LStopped sc)
        (if sh_clusterRegistrationOwned sh \<and> sh_unRegisterFromCluster sh
         then sh\<lparr>sh_trace := sh_trace sh @ [EvUnregister]\<rparr> else sh) d
    | LStopped sc \<Rightarrow> goto_pc (LRemove sc)
        (sh\<lparr>sh_lifecycleState := ActorStopped, sh_drainStatus := DrainStopped\<rparr>) d
    | LRemove sc \<Rightarrow> goto_pc (LFlush sc) (sh\<lparr>sh_registered := False\<rparr>) d
    | LFlush sc \<Rightarrow> (case rb_pop nil_context (sh_mailbox sh) of
          None \<Rightarrow> None
        | Some (None, mb) \<Rightarrow> goto_pc (stop_return sc) (sh\<lparr>sh_mailbox := mb\<rparr>) d
        | Some (Some ctx, mb) \<Rightarrow> goto_pc (LFlush sc)
            (toDeadLetter ReasonStopped ctx
              (sh\<lparr>sh_mailbox := mb, sh_flushed := sh_flushed sh @ [ctx]\<rparr>)) d)
    | _ \<Rightarrow> None)"

subsection \<open>The whole processor\<close>

text \<open>One action of the drainer with goroutine id \<open>g\<close>.\<close>

definition local_step :: "choice \<Rightarrow> nat \<Rightarrow> shared \<Rightarrow> drainer \<Rightarrow> local_result" where
  "local_step c g sh d = (case d_pc d of
      DLoad \<Rightarrow> step_drain sh d | DPop \<Rightarrow> step_drain sh d
    | DStopReady1 \<Rightarrow> step_stopReady sh d | DStopReady2 \<Rightarrow> step_stopReady sh d
    | DStopEnter \<Rightarrow> step_stopIfIdle g sh d | DStopCheck1 \<Rightarrow> step_stopIfIdle g sh d
    | DStopCheck2 \<Rightarrow> step_stopIfIdle g sh d | DStopCheck3 \<Rightarrow> step_stopIfIdle g sh d
    | DStopLeave \<Rightarrow> step_stopIfIdle g sh d
    | DInc ctx \<Rightarrow> step_invoke g sh d | DEnter ctx \<Rightarrow> step_invoke g sh d
    | DDispatch ctx \<Rightarrow> step_execution_invoke sh d
    | DPoisonStore \<Rightarrow> step_execution_invoke sh d | DPoisonSched \<Rightarrow> step_execution_invoke sh d
    | DUser u \<Rightarrow> (case u of InReceive ctx \<Rightarrow> step_receive c g ctx sh d
                   | InStarted \<Rightarrow> step_start c g sh d | InPreStop sc \<Rightarrow> step_stop c g sh d)
    | DSuspendLeave u \<Rightarrow> step_suspend_resume g sh d | DSuspended u \<Rightarrow> step_suspend_resume g sh d
    | LRegister \<Rightarrow> step_start c g sh d
    | LStop sc \<Rightarrow> step_stop c g sh d | LClose b sc \<Rightarrow> step_stop c g sh d
    | LUnregister sc \<Rightarrow> step_stop c g sh d | LStopped sc \<Rightarrow> step_stop c g sh d
    | LRemove sc \<Rightarrow> step_stop c g sh d | LFlush sc \<Rightarrow> step_stop c g sh d
    | DLeave m \<Rightarrow> step_invoke g sh d | DDec m \<Rightarrow> step_invoke g sh d
    | DDecCheck m \<Rightarrow> step_invoke g sh d | DDecSched m \<Rightarrow> step_invoke g sh d
    | DFin \<Rightarrow> step_finishDraining sh d | DRecheckLen \<Rightarrow> step_finishDraining sh d
    | DRecheckStop \<Rightarrow> step_finishDraining sh d | DRecheckUnf \<Rightarrow> step_finishDraining sh d
    | DFinSched \<Rightarrow> step_finishDraining sh d
    | DDone \<Rightarrow> None)"

text \<open>
  \<open>processorMailBox.send\<close> up to its \<open>schedule\<close> and \<open>poison\<close> up to its \<open>schedule\<close>: the caller is then
  one of the \<open>sh_waking\<close> goroutines on their way to the compare-and-swap.
\<close>

definition proc_send :: "actor_context \<Rightarrow> shared \<Rightarrow> shared option" where
  "proc_send ctx sh = (case rb_push nil_context ctx (sh_mailbox sh) of
      None \<Rightarrow> None
    | Some (PushOK, mb) \<Rightarrow> Some (sh\<lparr>sh_mailbox := mb, sh_waking := sh_waking sh + 1,
                                  sh_accepted := sh_accepted sh @ [ctx]\<rparr>)
    | Some (PushOverflow, mb) \<Rightarrow> Some (toDeadLetter ReasonOverflow ctx (sh\<lparr>sh_mailbox := mb\<rparr>))
    | Some (PushClosed, mb) \<Rightarrow> Some (toDeadLetter ReasonStopped ctx (sh\<lparr>sh_mailbox := mb\<rparr>)))"

definition proc_poison :: "shared \<Rightarrow> shared" where
  "proc_poison sh = sh\<lparr>sh_stopRequested := True, sh_waking := sh_waking sh + 1\<rparr>"

definition proc_wake :: "shared \<Rightarrow> (shared \<times> bool) option" where
  "proc_wake sh = (if sh_waking sh = 0 then None
     else Some (schedule (sh\<lparr>sh_waking := sh_waking sh - 1\<rparr>)))"

text \<open>
  \<open>buildProcessor\<close> with \<open>initializeScheduling\<close>: the startup message is the first of the mailbox, and
  the spawner is about to call \<open>init\<close>, i.e. \<open>schedule\<close>.
\<close>

definition buildProcessor ::
  "actor_ref \<Rightarrow> int \<Rightarrow> int \<Rightarrow> bool \<Rightarrow> bool \<Rightarrow> u64 \<Rightarrow> shared option" where
  "buildProcessor self initSize maxSize reg unreg snId = do {
     mb0 \<leftarrow> rb_New nil_context initSize maxSize;
     (r, mb) \<leftarrow> rb_push nil_context (newContext self (Some self) Initialize snId) mb0;
     Some \<lparr>sh_self = self, sh_mailbox = mb, sh_drainStatus = DrainIdle, sh_unfinishedCalls = 0,
           sh_permit = True, sh_executionOwnerID = 0, sh_executingCall = None,
           sh_lifecycleState = ActorInitializing, sh_stopRequested = False,
           sh_clusterRegistrationOwned = False, sh_registerToCluster = reg,
           sh_unRegisterFromCluster = unreg, sh_registered = True, sh_waking = 1,
           sh_accepted = [newContext self (Some self) Initialize snId], sh_handled = [],
           sh_flushed = [], sh_deadLetters = [], sh_askReplies = [], sh_trace = []\<rparr>
   }"

type_synonym processor = "shared \<times> drainer list"

definition spawned :: "bool \<Rightarrow> drainer list" where
  "spawned sp = (if sp then [new_drainer] else [])"

inductive pstep :: "processor \<Rightarrow> processor \<Rightarrow> bool" where
  drainer: "i < length ds \<Longrightarrow> local_step c (Suc i) sh (ds ! i) = Some (sh', d', sp) \<Longrightarrow>
     pstep (sh, ds) (sh', ds[i := d'] @ spawned sp)"
| send: "proc_send ctx sh = Some sh' \<Longrightarrow> pstep (sh, ds) (sh', ds)"
| poison: "pstep (sh, ds) (proc_poison sh, ds)"
| wake: "proc_wake sh = Some (sh', sp) \<Longrightarrow> pstep (sh, ds) (sh', ds @ spawned sp)"

inductive preach :: "processor \<Rightarrow> bool" where
  start: "initSize < 2 ^ 62 \<Longrightarrow> maxSize < 2 ^ 62 \<Longrightarrow>
     buildProcessor self initSize maxSize reg unreg snId = Some sh \<Longrightarrow> preach (sh, [])"
| step: "preach p \<Longrightarrow> pstep p p' \<Longrightarrow> preach p'"

end
