(* ===== verification/Processor_Invariants.thy ===== *)
theory Processor_Invariants
  imports Mailbox_Processor
begin

section \<open>Invariants of the processor\<close>

text \<open>
  Four layers, each proved from the ones below: the counting invariants that tie the shared
  atomics to the program counters of the drainers (who owns the draining, how many calls are
  unfinished, who holds the permit); the lifecycle; the bookkeeping of every accepted message; and
  the wake-up conditions that rule out a lost message or a lost stop request.
\<close>

subsection \<open>Regions of the drainer's program\<close>

text \<open>Past the point where a drainer gives up draining in \<open>finishDraining\<close>.\<close>

fun pc_released :: "drainer_pc \<Rightarrow> bool" where
  "pc_released DRecheckLen = True" | "pc_released DRecheckStop = True"
| "pc_released DRecheckUnf = True" | "pc_released DFinSched = True"
| "pc_released DDone = True" | "pc_released _ = False"

definition owner :: "drainer \<Rightarrow> bool" where
  "owner d \<longleftrightarrow> \<not> d_transferred d \<and> \<not> pc_released (d_pc d)"

text \<open>Between the two updates of \<open>unfinishedCalls\<close>.\<close>

fun sc_in_call :: "stop_caller \<Rightarrow> bool" where
  "sc_in_call (FromStart m) = True" | "sc_in_call FromStopIfIdle = False"

fun pc_in_call :: "drainer_pc \<Rightarrow> bool" where
  "pc_in_call (DEnter ctx) = True" | "pc_in_call (DDispatch ctx) = True"
| "pc_in_call DPoisonStore = True" | "pc_in_call DPoisonSched = True"
| "pc_in_call (DUser (InPreStop sc)) = sc_in_call sc" | "pc_in_call (DUser _) = True"
| "pc_in_call (DSuspendLeave u) = True" | "pc_in_call (DSuspended u) = True"
| "pc_in_call LRegister = True"
| "pc_in_call (LStop sc) = sc_in_call sc" | "pc_in_call (LClose b sc) = sc_in_call sc"
| "pc_in_call (LUnregister sc) = sc_in_call sc" | "pc_in_call (LStopped sc) = sc_in_call sc"
| "pc_in_call (LRemove sc) = sc_in_call sc" | "pc_in_call (LFlush sc) = sc_in_call sc"
| "pc_in_call (DLeave m) = True" | "pc_in_call (DDec m) = True" | "pc_in_call _ = False"

text \<open>Holding the execution permit.\<close>

fun pc_holds :: "drainer_pc \<Rightarrow> bool" where
  "pc_holds (DDispatch ctx) = True" | "pc_holds DPoisonStore = True" | "pc_holds DPoisonSched = True"
| "pc_holds (DUser u) = True" | "pc_holds (DSuspendLeave u) = True"
| "pc_holds LRegister = True" | "pc_holds (LStop sc) = True" | "pc_holds (LClose b sc) = True"
| "pc_holds (LUnregister sc) = True" | "pc_holds (LStopped sc) = True"
| "pc_holds (LRemove sc) = True" | "pc_holds (LFlush sc) = True"
| "pc_holds DStopCheck1 = True" | "pc_holds DStopCheck2 = True" | "pc_holds DStopCheck3 = True"
| "pc_holds DStopLeave = True" | "pc_holds (DLeave m) = True" | "pc_holds _ = False"

text \<open>Running user code.\<close>

fun pc_user :: "drainer_pc \<Rightarrow> bool" where
  "pc_user (DUser u) = True" | "pc_user _ = False"

abbreviation in_call :: "drainer \<Rightarrow> bool" where "in_call d \<equiv> pc_in_call (d_pc d)"
abbreviation holds :: "drainer \<Rightarrow> bool" where "holds d \<equiv> pc_holds (d_pc d)"

text \<open>The private fields of a drainer agree with its program counter.\<close>

fun d_ok_pc :: "drainer_pc \<Rightarrow> call_kind \<Rightarrow> bool \<Rightarrow> bool" where
  "d_ok_pc (DUser (InReceive ctx)) k t = (k = CallReceive)"
| "d_ok_pc (DUser InStarted) k t = (k = CallStart \<and> \<not> t)"
| "d_ok_pc (DUser (InPreStop sc)) k t = (k = CallStop \<and> \<not> t)"
| "d_ok_pc (DSuspendLeave u) k t = (t \<and> k = CallReceive \<and> (\<exists>ctx. u = InReceive ctx))"
| "d_ok_pc (DSuspended u) k t = (t \<and> k = CallReceive \<and> (\<exists>ctx. u = InReceive ctx))"
| "d_ok_pc LRegister k t = (k = CallStart \<and> \<not> t)"
| "d_ok_pc (LClose b sc) k t = (k = CallStop \<and> \<not> t)"
| "d_ok_pc (DLeave m) k t = True" | "d_ok_pc (DDec m) k t = True"
| "d_ok_pc (DDecCheck m) k t = t" | "d_ok_pc (DDecSched m) k t = t"
| "d_ok_pc DFin k t = True" | "d_ok_pc DDone k t = True"
| "d_ok_pc _ k t = (\<not> t)"

definition d_ok :: "drainer \<Rightarrow> bool" where
  "d_ok d = d_ok_pc (d_pc d) (d_callKind d) (d_transferred d)"

subsection \<open>Layer 1: counting\<close>

definition inv_mailbox :: "processor \<Rightarrow> bool" where
  "inv_mailbox p = rb_wf nil_context (sh_mailbox (fst p))"

definition inv_local :: "processor \<Rightarrow> bool" where
  "inv_local p = (\<forall>d \<in> set (snd p). d_ok d)"

definition inv_owner :: "processor \<Rightarrow> bool" where
  "inv_owner p \<longleftrightarrow> (sh_drainStatus (fst p) = DrainIdle \<longrightarrow> num owner (snd p) = 0) \<and>
     (sh_drainStatus (fst p) = DrainRunning \<longrightarrow> num owner (snd p) = 1) \<and> num owner (snd p) \<le> 1"

definition inv_calls :: "processor \<Rightarrow> bool" where
  "inv_calls p \<longleftrightarrow> sh_unfinishedCalls (fst p) = int (num in_call (snd p))"

definition inv_permit :: "processor \<Rightarrow> bool" where
  "inv_permit p \<longleftrightarrow> num holds (snd p) = (if sh_permit (fst p) then 0 else 1)"

lemmas step_defs = local_step_def step_drain_def step_stopReady_def step_stopIfIdle_def
  step_invoke_def step_finishDraining_def step_execution_invoke_def step_suspend_resume_def
  step_receive_def step_start_def step_stop_def step_ask_def
  sched_then_def schedule_def gate_enter_def gate_leave_def toDeadLetter_def

lemma new_drainer_regions [simp]:
  "owner new_drainer" "\<not> in_call new_drainer" "\<not> holds new_drainer" "d_ok new_drainer"
  by (simp_all add: new_drainer_def owner_def d_ok_def)

lemma spawned_set [simp]: "set (spawned sp) = (if sp then {new_drainer} else {})"
  by (simp add: spawned_def)

lemma num_spawned [simp]: "num P (spawned sp) = (if sp \<and> P new_drainer then 1 else 0)"
  by (simp add: spawned_def)

lemma local_step_d_ok:
  assumes "local_step c g sh d = Some (sh', d', sp)" and "d_ok d"
  shows "d_ok d'"
proof -
  show ?thesis
    using assms
    by (cases "d_pc d")
      (auto simp: step_defs d_ok_def after_invoke_def stop_return_def Let_def
        split: if_splits option.splits prod.splits user_pc.splits choice.splits stop_caller.splits)
qed

text \<open>A truth value as a number of threads.\<close>

abbreviation bit_of :: "bool \<Rightarrow> nat" where "bit_of b \<equiv> of_bool b"

lemmas step_splits = if_splits option.splits prod.splits user_pc.splits choice.splits
  stop_caller.splits

lemma stopped_otherwise: "s \<noteq> DrainIdle \<Longrightarrow> s \<noteq> DrainRunning \<Longrightarrow> s = DrainStopped"
  by (cases s) auto

lemma local_step_owner:
  assumes "local_step c g sh d = Some (sh', d', sp)" and "d_ok d"
    and "owner d \<Longrightarrow> sh_drainStatus sh \<noteq> DrainIdle"
  shows "if sh_drainStatus sh' = DrainStopped
     then bit_of (owner d') + bit_of sp \<le> bit_of (owner d)
     else sh_drainStatus sh \<noteq> DrainStopped \<and>
       bit_of (owner d') + bit_of sp + bit_of (sh_drainStatus sh = DrainRunning)
         = bit_of (owner d) + bit_of (sh_drainStatus sh' = DrainRunning)"
  using assms
  by (cases "d_pc d")
    (auto simp: step_defs d_ok_def owner_def after_invoke_def stop_return_def Let_def
      split: step_splits intro: stopped_otherwise)

lemma local_step_calls:
  assumes "local_step c g sh d = Some (sh', d', sp)" and "d_ok d"
  shows "sh_unfinishedCalls sh' + int (bit_of (in_call d)) = sh_unfinishedCalls sh + int (bit_of (in_call d'))"
  using assms
  by (cases "d_pc d")
    (auto simp: step_defs d_ok_def after_invoke_def stop_return_def Let_def split: step_splits)

lemma local_step_permit:
  assumes "local_step c g sh d = Some (sh', d', sp)" and "d_ok d" and "holds d \<Longrightarrow> \<not> sh_permit sh"
  shows "bit_of (holds d') + bit_of (\<not> sh_permit sh) = bit_of (holds d) + bit_of (\<not> sh_permit sh')"
  using assms
  by (cases "d_pc d")
    (auto simp: step_defs d_ok_def after_invoke_def stop_return_def Let_def split: step_splits)

lemma local_step_mailbox:
  assumes "local_step c g sh d = Some (sh', d', sp)" and "rb_wf nil_context (sh_mailbox sh)"
  shows "rb_wf nil_context (sh_mailbox sh')"
  using assms rbm.pop_keeps [of nil_context "sh_mailbox sh"] rbm.cls_spec [of nil_context "sh_mailbox sh"]
  by (cases "d_pc d")
    (auto simp: step_defs Let_def split: step_splits)

text \<open>The four together, and that every step of the processor keeps them.\<close>

definition inv_count :: "processor \<Rightarrow> bool" where
  "inv_count p \<longleftrightarrow> inv_mailbox p \<and> inv_local p \<and> inv_owner p \<and> inv_calls p \<and> inv_permit p"

lemma inv_countD:
  assumes "inv_count (sh, ds)" and "i < length ds"
  shows "d_ok (ds ! i)" and "owner (ds ! i) \<Longrightarrow> sh_drainStatus sh \<noteq> DrainIdle"
    and "holds (ds ! i) \<Longrightarrow> \<not> sh_permit sh" and "rb_wf nil_context (sh_mailbox sh)"
    and "num owner ds \<le> 1"
  using assms num_pos_if_nth [OF assms(2), of owner] num_pos_if_nth [OF assms(2), of holds]
  by (auto simp: inv_count_def inv_local_def inv_owner_def inv_permit_def inv_mailbox_def
      split: if_splits)

lemma num_step:
  assumes "i < length ds"
  shows "num P (ds[i := d'] @ spawned sp) + bit_of (P (ds ! i))
    = num P ds + bit_of (P d') + bit_of (sp \<and> P new_drainer)"
  using assms num_pos_if_nth [OF assms, of P] by (auto simp: count_simps)

lemma inv_count_drainer:
  assumes inv: "inv_count (sh, ds)" and i: "i < length ds"
    and st: "local_step c (Suc i) sh (ds ! i) = Some (sh', d', sp)"
  shows "inv_count (sh', ds[i := d'] @ spawned sp)"
proof -
  note D = inv_countD [OF inv i]
  let ?ds = "ds[i := d'] @ spawned sp"
  have "inv_mailbox (sh', ?ds)"
    using local_step_mailbox [OF st D(4)] by (simp add: inv_mailbox_def)
  moreover have "inv_local (sh', ?ds)"
    using local_step_d_ok [OF st D(1)] inv i
    by (auto simp: inv_count_def inv_local_def dest!: in_set_conv_nth [THEN iffD1]
        set_update_subset_insert [THEN subsetD])
  moreover have "inv_owner (sh', ?ds)"
    using local_step_owner [OF st D(1,2)] num_step [OF i, of owner d' sp] D(5) inv
    by (cases "sh_drainStatus sh'"; cases "sh_drainStatus sh")
      (simp_all add: inv_count_def inv_owner_def)
  moreover have "inv_calls (sh', ?ds)"
    using local_step_calls [OF st D(1)] num_step [OF i, of in_call d' sp] inv
    by (cases "in_call (ds ! i)"; cases "in_call d'") (simp_all add: inv_count_def inv_calls_def)
  moreover have "inv_permit (sh', ?ds)"
    using local_step_permit [OF st D(1,3)] num_step [OF i, of holds d' sp] inv
    by (cases "sh_permit sh"; cases "sh_permit sh'") (simp_all add: inv_count_def inv_permit_def)
  ultimately show ?thesis by (simp add: inv_count_def)
qed

lemma inv_count_init:
  assumes "buildProcessor self initSize maxSize reg unreg snId = Some sh"
    and "initSize < 2 ^ 62" and "maxSize < 2 ^ 62"
  shows "inv_count (sh, [])"
proof -
  obtain mb0 where mb0: "rb_New nil_context initSize maxSize = Some mb0" "rb_wf nil_context mb0"
    using rb_New_wf [of initSize maxSize nil_context] assms(2,3) by auto
  then have "rb_wf nil_context (sh_mailbox sh)"
    using assms(1) rbm.push_keeps [OF mb0(2)] by (auto simp: buildProcessor_def bind_eq_Some_conv)
  then show ?thesis
    using assms(1) by (auto simp: inv_count_def inv_mailbox_def inv_local_def inv_owner_def
        inv_calls_def inv_permit_def buildProcessor_def bind_eq_Some_conv)
qed

lemma inv_count_step: "pstep p p' \<Longrightarrow> inv_count p \<Longrightarrow> inv_count p'"
proof (induction rule: pstep.induct)
  case (drainer i ds c sh sh' d' sp)
  then show ?case by (intro inv_count_drainer)
next
  case (send ctx sh sh' ds)
  then have "rb_wf nil_context (sh_mailbox sh')"
    using rbm.push_keeps [of nil_context "sh_mailbox sh" ctx]
    by (auto simp: proc_send_def inv_count_def inv_mailbox_def toDeadLetter_def
        split: option.splits prod.splits push_result.splits)
  with send show ?case
    by (auto simp: proc_send_def inv_count_def inv_mailbox_def inv_local_def inv_owner_def
        inv_calls_def inv_permit_def toDeadLetter_def
        split: option.splits prod.splits push_result.splits)
next
  case (poison sh ds)
  then show ?case by (simp add: proc_poison_def inv_count_def inv_mailbox_def inv_local_def
      inv_owner_def inv_calls_def inv_permit_def)
next
  case (wake sh sh' sp ds)
  then show ?case
    by (auto simp: proc_wake_def schedule_def inv_count_def inv_mailbox_def inv_local_def
      inv_owner_def inv_calls_def inv_permit_def split: if_splits)
qed

lemma preach_inv_count: "preach p \<Longrightarrow> inv_count p"
  by (induction rule: preach.induct) (auto intro: inv_count_init inv_count_step)

subsection \<open>Layer 2: lifecycle and bookkeeping\<close>

text \<open>The message a drainer has popped and not yet dispatched.\<close>

fun pc_flight :: "drainer_pc \<Rightarrow> actor_context list" where
  "pc_flight (DInc ctx) = [ctx]" | "pc_flight (DEnter ctx) = [ctx]"
| "pc_flight (DDispatch ctx) = [ctx]" | "pc_flight _ = []"

definition in_flight :: "drainer list \<Rightarrow> actor_context list" where
  "in_flight ds = concat (map (\<lambda>d. pc_flight (d_pc d)) ds)"

text \<open>The startup message of this actor.\<close>

definition is_startup :: "shared \<Rightarrow> actor_context \<Rightarrow> bool" where
  "is_startup sh ctx \<longleftrightarrow> ctx_target ctx = sh_self sh \<and> ctx_message ctx = Initialize"

text \<open>Which lifecycle states each program counter can meet.\<close>

fun life_ok :: "drainer_pc \<Rightarrow> actor_lifecycle \<Rightarrow> bool" where
  "life_ok LRegister l = (l = ActorStarting)"
| "life_ok (DUser InStarted) l = (l = ActorStarting)"
| "life_ok (LStop (FromStart m)) l = (l = ActorStarting)"
| "life_ok (LStop FromStopIfIdle) l = (l = ActorStarted)"
| "life_ok (DUser (InReceive ctx)) l = (l = ActorStarted)"
| "life_ok (DSuspendLeave u) l = (l = ActorStarted)"
| "life_ok (DSuspended u) l = (l = ActorStarted)"
| "life_ok DPoisonStore l = (l = ActorStarted)"
| "life_ok DPoisonSched l = (l = ActorStarted)"
| "life_ok (LClose b sc) l = (l = ActorStopping)"
| "life_ok (DUser (InPreStop sc)) l = (l = ActorStopping)"
| "life_ok (LUnregister sc) l = (l = ActorStopping)"
| "life_ok (LStopped sc) l = (l = ActorStopping)"
| "life_ok (LRemove sc) l = (l = ActorStopped)"
| "life_ok (LFlush sc) l = (l = ActorStopped)"
| "life_ok DStopCheck3 l = (l = ActorStarted)"
| "life_ok DLoad l = True" | "life_ok DStopLeave l = True" | "life_ok (DLeave m) l = True"
| "life_ok (DDec m) l = True" | "life_ok (DDecCheck m) l = True" | "life_ok (DDecSched m) l = True"
| "life_ok DFin l = True" | "life_ok DRecheckLen l = True" | "life_ok DRecheckStop l = True"
| "life_ok DRecheckUnf l = True" | "life_ok DFinSched l = True" | "life_ok DDone l = True"
| "life_ok _ l = (l = ActorInitializing \<or> l = ActorStarted)"

fun pc_starting :: "drainer_pc \<Rightarrow> bool" where
  "pc_starting LRegister = True" | "pc_starting (DUser InStarted) = True"
| "pc_starting (LStop (FromStart m)) = True" | "pc_starting _ = False"

fun pc_stopping :: "drainer_pc \<Rightarrow> bool" where
  "pc_stopping (LClose b sc) = True" | "pc_stopping (DUser (InPreStop sc)) = True"
| "pc_stopping (LUnregister sc) = True" | "pc_stopping (LStopped sc) = True"
| "pc_stopping _ = False"

definition inv_life :: "processor \<Rightarrow> bool" where
  "inv_life p \<longleftrightarrow>
     (sh_lifecycleState (fst p) = ActorStopped \<longleftrightarrow> sh_drainStatus (fst p) = DrainStopped) \<and>
     (\<forall>d \<in> set (snd p). life_ok (d_pc d) (sh_lifecycleState (fst p))) \<and>
     (sh_lifecycleState (fst p) \<in> {ActorInitializing, ActorStarting} \<longrightarrow>
        (\<forall>d \<in> set (snd p). \<not> d_transferred d)) \<and>
     (sh_lifecycleState (fst p) = ActorStarting \<longrightarrow> (\<exists>d \<in> set (snd p). pc_starting (d_pc d))) \<and>
     (sh_lifecycleState (fst p) = ActorStopping \<longrightarrow> (\<exists>d \<in> set (snd p). pc_stopping (d_pc d))) \<and>
     ((\<exists>d \<in> set (snd p). d_pc d = LStop FromStopIfIdle) \<longrightarrow> num in_call (snd p) = 0)"

definition inv_log :: "processor \<Rightarrow> bool" where
  "inv_log p \<longleftrightarrow>
     sh_handled (fst p) @ sh_flushed (fst p) @ in_flight (snd p) @ rb_list (sh_mailbox (fst p))
       = sh_accepted (fst p) \<and>
     (sh_handled (fst p) = [] \<longleftrightarrow> sh_lifecycleState (fst p) = ActorInitializing) \<and>
     (sh_flushed (fst p) \<noteq> [] \<longrightarrow> sh_lifecycleState (fst p) = ActorStopped) \<and>
     sh_accepted (fst p) \<noteq> [] \<and> is_startup (fst p) (hd (sh_accepted (fst p)))"

lemma flight_owner_pc: "d_ok d \<Longrightarrow> pc_flight (d_pc d) \<noteq> [] \<Longrightarrow> owner d"
  by (cases "d_pc d") (auto simp: d_ok_def owner_def)

lemma concat_single:
  assumes "i < length xs" and "\<And>j. j < length xs \<Longrightarrow> j \<noteq> i \<Longrightarrow> f (xs ! j) = []"
  shows "concat (map f xs) = f (xs ! i)"
proof -
  have "concat (map f (take i xs)) = []" "concat (map f (drop (Suc i) xs)) = []"
    using assms by (auto simp: in_set_conv_nth)
  then have "concat (map f (take i xs @ xs ! i # drop (Suc i) xs)) = f (xs ! i)"
    by (simp only: map_append concat_append list.map concat.simps append_Nil append_Nil2)
  then show ?thesis using assms(1) by (simp flip: id_take_nth_drop)
qed

lemma owner_unique:
  assumes "inv_count (sh, ds)" and "i < length ds" "j < length ds" "owner (ds ! i)" "owner (ds ! j)"
  shows "i = j"
  using num_le_one_nth_eq [of owner ds i j] inv_countD(5) [OF assms(1,2)] assms by blast

lemma holder_unique:
  assumes "inv_count (sh, ds)" and "i < length ds" "j < length ds" "holds (ds ! i)" "holds (ds ! j)"
  shows "i = j"
  using num_le_one_nth_eq [of holds ds i j] assms
  by (auto simp: inv_count_def inv_permit_def split: if_splits)

lemma in_flight_owner:
  assumes inv: "inv_count (sh, ds)" and i: "i < length ds" and own: "owner (ds ! i)"
  shows "in_flight ds = pc_flight (d_pc (ds ! i))"
  unfolding in_flight_def
proof (rule concat_single [OF i])
  fix j assume "j < length ds" "j \<noteq> i"
  then show "pc_flight (d_pc (ds ! j)) = []"
    using owner_unique [OF inv i _ own] flight_owner_pc inv_countD(1) [OF inv] by blast
qed

lemma in_flight_step_same:
  assumes "i < length ds" and "pc_flight (d_pc d') = pc_flight (d_pc (ds ! i))"
  shows "in_flight (ds[i := d'] @ spawned sp) = in_flight ds"
proof -
  have "map (\<lambda>d. pc_flight (d_pc d)) (ds[i := d']) = map (\<lambda>d. pc_flight (d_pc d)) ds"
    using assms by (simp add: map_update list_update_same_conv)
  then show ?thesis by (simp add: in_flight_def spawned_def new_drainer_def)
qed

text \<open>What a step of a drainer does to the history of messages.\<close>

lemma local_step_log:
  assumes "local_step c g sh d = Some (sh', d', sp)" and "rb_wf nil_context (sh_mailbox sh)"
    and "pc_flight (d_pc d) \<noteq> [] \<Longrightarrow> sh_flushed sh = []"
  shows "sh_handled sh' @ sh_flushed sh' @ pc_flight (d_pc d') @ rb_list (sh_mailbox sh')
       = sh_handled sh @ sh_flushed sh @ pc_flight (d_pc d) @ rb_list (sh_mailbox sh)"
    and "sh_accepted sh' = sh_accepted sh" and "sh_self sh' = sh_self sh"
  using assms rbm.pop_contents [of nil_context "sh_mailbox sh"] rbm.cls_spec [of nil_context "sh_mailbox sh"]
  by (cases "d_pc d";
      auto simp: step_defs after_invoke_def stop_return_def Let_def split: step_splits)+

lemma local_step_nonowner:
  assumes "local_step c g sh d = Some (sh', d', sp)" and "d_ok d" and "\<not> owner d"
  shows "sh_handled sh' = sh_handled sh" and "sh_flushed sh' = sh_flushed sh"
    and "sh_mailbox sh' = sh_mailbox sh" and "pc_flight (d_pc d') = []" and "pc_flight (d_pc d) = []"
    and "in_call d' \<Longrightarrow> in_call d"
  using assms
  by (cases "d_pc d";
      auto simp: step_defs d_ok_def owner_def after_invoke_def stop_return_def Let_def
        split: step_splits)+

lemma local_step_owner_flight:
  assumes "local_step c g sh d = Some (sh', d', sp)" and "d_ok d" and "owner d" and "\<not> owner d'"
  shows "pc_flight (d_pc d') = []" and "pc_flight (d_pc d) = []"
  using assms
  by (cases "d_pc d";
      auto simp: step_defs d_ok_def owner_def after_invoke_def stop_return_def Let_def
        split: step_splits)+

text \<open>What a step of a drainer does to the lifecycle, given what the drainer may rely on.\<close>

lemma lifecycle_settled:
  "l \<noteq> ActorStarting \<Longrightarrow> l \<noteq> ActorStopping \<Longrightarrow> l \<noteq> ActorStopped \<Longrightarrow>
     l = ActorInitializing \<or> l = ActorStarted"
  by (cases l) auto

lemma local_step_life_ok:
  assumes "local_step c g sh d = Some (sh', d', sp)" and "d_ok d"
    and "life_ok (d_pc d) (sh_lifecycleState sh)"
    and "sh_lifecycleState sh = ActorStopped \<longleftrightarrow> sh_drainStatus sh = DrainStopped"
    and "d_pc d = DLoad \<Longrightarrow> sh_lifecycleState sh \<notin> {ActorStarting, ActorStopping}"
    and "\<And>ctx. d_pc d = DDispatch ctx \<Longrightarrow> sh_lifecycleState sh = ActorInitializing \<Longrightarrow>
           is_startup sh ctx"
    and "d_pc d = DStopCheck2 \<Longrightarrow> rb_Len (sh_mailbox sh) = 0 \<Longrightarrow>
           sh_lifecycleState sh \<noteq> ActorInitializing"
  shows "life_ok (d_pc d') (sh_lifecycleState sh')"
  using assms lifecycle_settled [of "sh_lifecycleState sh"]
  by (cases "d_pc d")
    (auto simp: step_defs d_ok_def after_invoke_def stop_return_def is_startup_def Let_def
      split: step_splits)

lemma local_step_stopped:
  assumes "local_step c g sh d = Some (sh', d', sp)"
    and "life_ok (d_pc d) (sh_lifecycleState sh)"
    and "sh_lifecycleState sh = ActorStopped \<longleftrightarrow> sh_drainStatus sh = DrainStopped"
  shows "sh_lifecycleState sh' = ActorStopped \<longleftrightarrow> sh_drainStatus sh' = DrainStopped"
  using assms
  by (cases "d_pc d") (auto simp: step_defs Let_def split: step_splits)

lemma local_step_starting:
  assumes "local_step c g sh d = Some (sh', d', sp)" and "d_ok d"
    and "life_ok (d_pc d) (sh_lifecycleState sh)" and "sh_lifecycleState sh' = ActorStarting"
  shows "pc_starting (d_pc d') \<or> (sh_lifecycleState sh = ActorStarting \<and> \<not> pc_starting (d_pc d))"
  using assms
  by (cases "d_pc d") (auto simp: step_defs d_ok_def Let_def split: step_splits)

lemma local_step_stopping:
  assumes "local_step c g sh d = Some (sh', d', sp)" and "d_ok d"
    and "life_ok (d_pc d) (sh_lifecycleState sh)" and "sh_lifecycleState sh' = ActorStopping"
  shows "pc_stopping (d_pc d') \<or> (sh_lifecycleState sh = ActorStopping \<and> \<not> pc_stopping (d_pc d))"
  using assms
  by (cases "d_pc d") (auto simp: step_defs d_ok_def Let_def split: step_splits)

lemma local_step_not_transferred:
  assumes "local_step c g sh d = Some (sh', d', sp)" and "d_ok d"
    and "life_ok (d_pc d) (sh_lifecycleState sh)"
    and "sh_lifecycleState sh' = ActorInitializing \<or> sh_lifecycleState sh' = ActorStarting"
  shows "(sh_lifecycleState sh = ActorInitializing \<or> sh_lifecycleState sh = ActorStarting)
     \<and> (d_transferred d' \<longrightarrow> d_transferred d)"
  using assms
  by (cases "d_pc d") (auto simp: step_defs d_ok_def Let_def split: step_splits)

lemma local_step_lifecycle_pc:
  assumes "local_step c g sh d = Some (sh', d', sp)"
    and "sh_lifecycleState sh' \<noteq> sh_lifecycleState sh"
  shows "(\<exists>ctx. d_pc d = DDispatch ctx \<and> sh_lifecycleState sh = ActorInitializing) \<or>
     d_pc d = DUser InStarted \<or> (\<exists>sc. d_pc d = LStop sc) \<or> (\<exists>sc. d_pc d = LStopped sc)"
  using assms
  by (cases "d_pc d") (auto simp: step_defs Let_def split: step_splits)

lemma life_ok_LStop [simp]:
  "life_ok (LStop sc) l = (l = (case sc of FromStart m \<Rightarrow> ActorStarting | FromStopIfIdle \<Rightarrow> ActorStarted))"
  by (cases sc) auto

lemma local_step_lifecycle_change:
  assumes "local_step c g sh d = Some (sh', d', sp)" and "d_ok d"
    and "life_ok (d_pc d) (sh_lifecycleState sh)" and "sh_lifecycleState sh' \<noteq> sh_lifecycleState sh"
  shows "holds d" and "owner d"
    and "sh_lifecycleState sh = ActorStarted \<Longrightarrow> d_pc d = LStop FromStopIfIdle"
    and "sh_lifecycleState sh \<noteq> ActorStopped"
  using local_step_lifecycle_pc [OF assms(1,4)] assms(2,3)
  by (auto simp: d_ok_def owner_def split: stop_caller.splits)

lemma local_step_stop_call:
  assumes "local_step c g sh d = Some (sh', d', sp)" and "d_pc d' = LStop FromStopIfIdle"
  shows "d_pc d = DStopCheck3" and "sh_unfinishedCalls sh = 0" and "\<not> sp"
    and "sh_unfinishedCalls sh' = 0"
  using assms
  by (cases "d_pc d";
      auto simp: step_defs after_invoke_def stop_return_def Let_def split: step_splits)+

lemma local_step_first:
  assumes "local_step c g sh d = Some (sh', d', sp)"
    and "life_ok (d_pc d) (sh_lifecycleState sh)"
    and "\<And>ctx. d_pc d = DDispatch ctx \<Longrightarrow> sh_lifecycleState sh = ActorInitializing \<Longrightarrow>
           is_startup sh ctx"
    and "sh_handled sh = [] \<longleftrightarrow> sh_lifecycleState sh = ActorInitializing"
  shows "sh_handled sh' = [] \<longleftrightarrow> sh_lifecycleState sh' = ActorInitializing"
  using assms
  by (cases "d_pc d") (auto simp: step_defs is_startup_def Let_def split: step_splits)

lemma local_step_flushed:
  assumes "local_step c g sh d = Some (sh', d', sp)"
    and "life_ok (d_pc d) (sh_lifecycleState sh)" and "sh_flushed sh' \<noteq> sh_flushed sh"
  shows "sh_lifecycleState sh' = ActorStopped"
  using assms
  by (cases "d_pc d") (auto simp: step_defs Let_def split: step_splits)

end
