(* ===== verification/Processor_Life.thy ===== *)
theory Processor_Life
  imports Processor_Invariants
begin

section \<open>Lifecycle and bookkeeping of the processor\<close>

text \<open>
  The second layer of invariants over the step relation: which lifecycle state each drainer may
  meet, and where every accepted message is. The brute-force case analyses over the program
  counters are in \<open>Processor_Invariants\<close>; here they are combined with the uniqueness of the drain
  owner and of the permit holder, by induction over the reachable states.
\<close>

lemma step_mem:
  assumes "d \<in> set (ds[i := d'] @ spawned sp)"
  obtains "d = d'" | "d = new_drainer" "sp" | j where "j < length ds" "j \<noteq> i" "d = ds ! j"
proof -
  have "d \<in> set (ds[i := d']) \<or> (d = new_drainer \<and> sp)"
    using assms by (auto split: if_splits)
  then show ?thesis
  proof
    assume "d \<in> set (ds[i := d'])"
    then obtain j where "j < length ds" "ds[i := d'] ! j = d" by (auto simp: in_set_conv_nth)
    then show ?thesis using that by (cases "j = i") (auto simp: nth_list_update)
  qed (use that in blast)
qed

lemma step_mem_other:
  "j < length ds \<Longrightarrow> j \<noteq> i \<Longrightarrow> ds ! j \<in> set (ds[i := d'] @ spawned sp)"
  by (auto simp: in_set_conv_nth nth_list_update intro!: disjI1 exI [of _ j])

lemma step_mem_new: "i < length ds \<Longrightarrow> d' \<in> set (ds[i := d'] @ spawned sp)"
  by (simp add: set_update_memI)

lemma region_owner_holds:
  assumes "d_ok d" and "pc_starting (d_pc d) \<or> pc_stopping (d_pc d) \<or> d_pc d = LStop sc"
  shows "owner d" "holds d"
  using assms by (cases "d_pc d"; auto simp: d_ok_def owner_def elim: pc_starting.elims pc_stopping.elims)+

lemma outsider_life_ok:
  assumes "d_ok d" "\<not> owner d" "\<not> holds d"
  shows "life_ok (d_pc d) l \<or> (\<exists>u. d_pc d = DSuspended u)"
  using assms by (cases "d_pc d") (auto simp: d_ok_def owner_def)

lemma life_ok_new [simp]: "life_ok (d_pc new_drainer) l" "\<not> d_transferred new_drainer"
  by (simp_all add: new_drainer_def)

lemma rb_Len_zero_list: "rb_wf z q \<Longrightarrow> rb_Len q = 0 \<longleftrightarrow> rb_list q = []"
  using length_rb_list [of z q] by (auto simp: rb_Len_def)

subsection \<open>What a drainer may rely on\<close>

definition inv_proc :: "processor \<Rightarrow> bool" where
  "inv_proc p \<longleftrightarrow> inv_count p \<and> inv_life p \<and> inv_log p"

lemma inv_lifeD:
  assumes "inv_life (sh, ds)"
  shows "sh_lifecycleState sh = ActorStopped \<longleftrightarrow> sh_drainStatus sh = DrainStopped"
    and "\<And>j. j < length ds \<Longrightarrow> life_ok (d_pc (ds ! j)) (sh_lifecycleState sh)"
    and "\<And>j. j < length ds \<Longrightarrow>
      sh_lifecycleState sh = ActorInitializing \<or> sh_lifecycleState sh = ActorStarting \<Longrightarrow>
      \<not> d_transferred (ds ! j)"
    and "sh_lifecycleState sh = ActorStarting \<Longrightarrow> \<exists>j < length ds. pc_starting (d_pc (ds ! j))"
    and "sh_lifecycleState sh = ActorStopping \<Longrightarrow> \<exists>j < length ds. pc_stopping (d_pc (ds ! j))"
    and "\<And>j. j < length ds \<Longrightarrow> d_pc (ds ! j) = LStop FromStopIfIdle \<Longrightarrow> num in_call ds = 0"
proof -
  note I = assms [unfolded inv_life_def fst_conv snd_conv]
  show "sh_lifecycleState sh = ActorStopped \<longleftrightarrow> sh_drainStatus sh = DrainStopped"
    using I by (elim conjE)
  show "life_ok (d_pc (ds ! j)) (sh_lifecycleState sh)" if "j < length ds" for j
    using I nth_mem [OF that] by blast
  show "\<not> d_transferred (ds ! j)" if "j < length ds"
    "sh_lifecycleState sh = ActorInitializing \<or> sh_lifecycleState sh = ActorStarting" for j
    using I nth_mem [OF that(1)] that(2) by blast
  show "\<exists>j < length ds. pc_starting (d_pc (ds ! j))" if "sh_lifecycleState sh = ActorStarting"
    using I that unfolding in_set_conv_nth Bex_def by blast
  show "\<exists>j < length ds. pc_stopping (d_pc (ds ! j))" if "sh_lifecycleState sh = ActorStopping"
    using I that unfolding in_set_conv_nth Bex_def by blast
  show "num in_call ds = 0" if "j < length ds" "d_pc (ds ! j) = LStop FromStopIfIdle" for j
    using I nth_mem [OF that(1)] that(2) by blast
qed

lemma load_not_in_transition:
  assumes inv: "inv_proc (sh, ds)" and i: "i < length ds" and pc: "d_pc (ds ! i) = DLoad"
  shows "sh_lifecycleState sh \<notin> {ActorStarting, ActorStopping}"
proof
  have C: "inv_count (sh, ds)" and L: "inv_life (sh, ds)" using inv by (auto simp: inv_proc_def)
  assume "sh_lifecycleState sh \<in> {ActorStarting, ActorStopping}"
  then obtain j where j: "j < length ds" "pc_starting (d_pc (ds ! j)) \<or> pc_stopping (d_pc (ds ! j))"
    using inv_lifeD(4,5) [OF L] by auto
  have "owner (ds ! j)" using region_owner_holds(1) [OF inv_countD(1) [OF C j(1)]] j(2) by blast
  moreover have "owner (ds ! i)" using inv_countD(1) [OF C i] pc by (auto simp: d_ok_def owner_def)
  ultimately have "i = j" using owner_unique [OF C i j(1)] by blast
  then show False using j(2) pc by simp
qed

lemma dispatch_first_is_startup:
  assumes inv: "inv_proc (sh, ds)" and i: "i < length ds" and pc: "d_pc (ds ! i) = DDispatch ctx"
    and l: "sh_lifecycleState sh = ActorInitializing"
  shows "is_startup sh ctx"
proof -
  have C: "inv_count (sh, ds)" and G: "inv_log (sh, ds)" using inv by (auto simp: inv_proc_def)
  have "owner (ds ! i)" using inv_countD(1) [OF C i] pc by (auto simp: d_ok_def owner_def)
  then have "in_flight ds = [ctx]" using in_flight_owner [OF C i] pc by simp
  then have "sh_accepted sh = ctx # rb_list (sh_mailbox sh)" using G l by (auto simp: inv_log_def)
  then show ?thesis using G by (auto simp: inv_log_def)
qed

lemma stop_check_not_initializing:
  assumes inv: "inv_proc (sh, ds)" and i: "i < length ds" and pc: "d_pc (ds ! i) = DStopCheck2"
    and len: "rb_Len (sh_mailbox sh) = 0"
  shows "sh_lifecycleState sh \<noteq> ActorInitializing"
proof
  have C: "inv_count (sh, ds)" and G: "inv_log (sh, ds)" using inv by (auto simp: inv_proc_def)
  assume l: "sh_lifecycleState sh = ActorInitializing"
  have "owner (ds ! i)" using inv_countD(1) [OF C i] pc by (auto simp: d_ok_def owner_def)
  then have "in_flight ds = []" using in_flight_owner [OF C i] pc by simp
  then show False using G l len rb_Len_zero_list [OF inv_countD(4) [OF C i]] by (auto simp: inv_log_def)
qed

subsection \<open>Preservation by a step of a drainer\<close>

lemma others_life_ok:
  assumes inv: "inv_proc (sh, ds)" and i: "i < length ds" and j: "j < length ds" "j \<noteq> i"
    and st: "local_step c (Suc i) sh (ds ! i) = Some (sh', d', sp)"
  shows "life_ok (d_pc (ds ! j)) (sh_lifecycleState sh')"
proof (cases "sh_lifecycleState sh' = sh_lifecycleState sh")
  case True
  then show ?thesis using inv j by (simp add: inv_proc_def inv_lifeD)
next
  case False
  have C: "inv_count (sh, ds)" and L: "inv_life (sh, ds)" using inv by (auto simp: inv_proc_def)
  note chg = local_step_lifecycle_change
    [OF st inv_countD(1) [OF C i] inv_lifeD(2) [OF L i] False]
  have "\<not> owner (ds ! j)" "\<not> holds (ds ! j)"
    using owner_unique [OF C i j(1) chg(2)] holder_unique [OF C i j(1) chg(1)] j(2) by blast+
  then consider "life_ok (d_pc (ds ! j)) (sh_lifecycleState sh')" | u where "d_pc (ds ! j) = DSuspended u"
    using outsider_life_ok [OF inv_countD(1) [OF C j(1)]] by blast
  then show ?thesis
  proof cases
    case 2
    then have "sh_lifecycleState sh = ActorStarted" using inv_lifeD(2) [OF L j(1)] by simp
    then have "num in_call ds = 0" using inv_lifeD(6) [OF L i] chg(3) by blast
    then show ?thesis using 2 num_pos_if_nth [OF j(1), of in_call] by simp
  qed
qed

lemma stop_call_alone:
  assumes inv: "inv_proc (sh, ds)" and i: "i < length ds"
    and st: "local_step c (Suc i) sh (ds ! i) = Some (sh', d', sp)"
    and d: "d \<in> set (ds[i := d'] @ spawned sp)" "d_pc d = LStop FromStopIfIdle"
  shows "num in_call (ds[i := d'] @ spawned sp) = 0"
proof -
  have C: "inv_count (sh, ds)" and L: "inv_life (sh, ds)" using inv by (auto simp: inv_proc_def)
  from d(1) show ?thesis
  proof (cases rule: step_mem)
    case 1
    then have "sh_unfinishedCalls sh' = 0" using local_step_stop_call(4) [OF st] d(2) by simp
    then show ?thesis using inv_count_drainer [OF C i st] by (simp add: inv_count_def inv_calls_def)
  next
    case 2
    then show ?thesis using d(2) by (simp add: new_drainer_def)
  next
    case (3 j)
    have "owner (ds ! j)" using region_owner_holds(1) [OF inv_countD(1) [OF C 3(1)]] 3(3) d(2) by blast
    then have "\<not> owner (ds ! i)" using owner_unique [OF C i 3(1)] 3(2) by blast
    moreover have "num in_call ds = 0" using inv_lifeD(6) [OF L 3(1)] 3(3) d(2) by simp
    ultimately show ?thesis
      using local_step_nonowner(6) [OF st inv_countD(1) [OF C i]] num_step [OF i, of in_call d' sp]
        num_zero_iff [of in_call ds] i by (cases "in_call d'") auto
  qed
qed

lemma inv_life_drainer:
  assumes inv: "inv_proc (sh, ds)" and i: "i < length ds"
    and st: "local_step c (Suc i) sh (ds ! i) = Some (sh', d', sp)"
  shows "inv_life (sh', ds[i := d'] @ spawned sp)"
proof -
  have C: "inv_count (sh, ds)" and L: "inv_life (sh, ds)" using inv by (auto simp: inv_proc_def)
  let ?ds = "ds[i := d'] @ spawned sp" and ?d = "ds ! i"
  note ok = inv_countD(1) [OF C i] and lok = inv_lifeD(2) [OF L i]
  have lok': "life_ok (d_pc d') (sh_lifecycleState sh')"
    by (rule local_step_life_ok [OF st ok lok inv_lifeD(1) [OF L]])
      (use load_not_in_transition [OF inv i] dispatch_first_is_startup [OF inv i]
        stop_check_not_initializing [OF inv i] in blast)+
  have "life_ok (d_pc d) (sh_lifecycleState sh')" if "d \<in> set ?ds" for d
    using that by (cases rule: step_mem) (use lok' others_life_ok [OF inv i _ _ st] in auto)
  moreover have "\<not> d_transferred d"
    if "d \<in> set ?ds" "sh_lifecycleState sh' \<in> {ActorInitializing, ActorStarting}" for d
    using that(1) that(2) local_step_not_transferred [OF st ok lok] inv_lifeD(3) [OF L] i
    by (cases rule: step_mem) auto
  moreover have "\<exists>d \<in> set ?ds. pc_starting (d_pc d)" if l: "sh_lifecycleState sh' = ActorStarting"
    using local_step_starting [OF st ok lok l] inv_lifeD(4) [OF L] step_mem_new [OF i, of d' sp]
      step_mem_other [of _ ds i d' sp] by metis
  moreover have "\<exists>d \<in> set ?ds. pc_stopping (d_pc d)" if l: "sh_lifecycleState sh' = ActorStopping"
    using local_step_stopping [OF st ok lok l] inv_lifeD(5) [OF L] step_mem_new [OF i, of d' sp]
      step_mem_other [of _ ds i d' sp] by metis
  ultimately show ?thesis
    using local_step_stopped [OF st lok inv_lifeD(1) [OF L]] stop_call_alone [OF inv i st]
    by (auto simp only: inv_life_def fst_conv snd_conv)
qed

lemma in_flight_step:
  assumes C: "inv_count (sh, ds)" and i: "i < length ds"
    and st: "local_step c (Suc i) sh (ds ! i) = Some (sh', d', sp)" and own: "owner (ds ! i)"
  shows "in_flight (ds[i := d'] @ spawned sp) = pc_flight (d_pc d')"
proof (cases "owner d'")
  case True
  then show ?thesis
    using in_flight_owner [OF inv_count_drainer [OF C i st], of i] i by (simp add: nth_append)
next
  case False
  note f = local_step_owner_flight [OF st inv_countD(1) [OF C i] own False]
  then show ?thesis using in_flight_step_same [OF i, of d' sp] in_flight_owner [OF C i own] by simp
qed

lemma inv_log_drainer:
  assumes inv: "inv_proc (sh, ds)" and i: "i < length ds"
    and st: "local_step c (Suc i) sh (ds ! i) = Some (sh', d', sp)"
  shows "inv_log (sh', ds[i := d'] @ spawned sp)"
proof -
  have C: "inv_count (sh, ds)" and L: "inv_life (sh, ds)" and G: "inv_log (sh, ds)"
    using inv by (auto simp: inv_proc_def)
  let ?ds = "ds[i := d'] @ spawned sp" and ?d = "ds ! i"
  note ok = inv_countD(1) [OF C i] and lok = inv_lifeD(2) [OF L i]
  have fl: "pc_flight (d_pc ?d) \<noteq> [] \<Longrightarrow> sh_flushed sh = []"
    using lok G by (cases "d_pc ?d") (auto simp: inv_log_def)
  note lg = local_step_log [OF st inv_countD(4) [OF C i] fl]
  have "sh_handled sh' @ sh_flushed sh' @ in_flight ?ds @ rb_list (sh_mailbox sh')
     = sh_handled sh @ sh_flushed sh @ in_flight ds @ rb_list (sh_mailbox sh)"
  proof (cases "owner ?d")
    case True
    then show ?thesis using lg(1) in_flight_step [OF C i st] in_flight_owner [OF C i] by simp
  next
    case False
    note n = local_step_nonowner [OF st ok False]
    then show ?thesis using in_flight_step_same [OF i, of d' sp] by simp
  qed
  moreover have "sh_handled sh' = [] \<longleftrightarrow> sh_lifecycleState sh' = ActorInitializing"
    using local_step_first [OF st lok] dispatch_first_is_startup [OF inv i] G
    by (auto simp: inv_log_def)
  moreover have "sh_lifecycleState sh' = ActorStopped" if "sh_flushed sh' \<noteq> []"
    using that local_step_flushed [OF st lok] local_step_lifecycle_change(4) [OF st ok lok] G
    by (cases "sh_flushed sh' = sh_flushed sh"; cases "sh_lifecycleState sh' = sh_lifecycleState sh")
      (auto simp: inv_log_def)
  ultimately show ?thesis using G lg(2,3) by (auto simp: inv_log_def is_startup_def)
qed

subsection \<open>Reachable states\<close>

lemma inv_proc_init:
  assumes b: "buildProcessor self initSize maxSize reg unreg snId = Some sh"
    and "initSize < 2 ^ 62" and "maxSize < 2 ^ 62"
  shows "inv_proc (sh, [])"
proof -
  obtain mb0 where mb0: "rb_New nil_context initSize maxSize = Some mb0" "rb_wf nil_context mb0"
      "rb_list mb0 = []" "\<not> rb_closed mb0"
    using rb_New_wf [of initSize maxSize nil_context] assms(2,3) by auto
  let ?ctx = "newContext self (Some self) Initialize snId"
  obtain r mb where mb: "rb_push nil_context ?ctx mb0 = Some (r, mb)"
    using rbm.push_total [OF mb0(2)] by blast
  have "0 < rb_maxCap mb0" using rb_wf_bounds [OF mb0(2)] by linarith
  then have "r = PushOK"
    using rbm.push_overflow_iff [OF mb0(2) mb] rbm.push_closed_iff [OF mb0(2) mb] mb0(3,4)
    by (cases r) auto
  then have "rb_list mb = [?ctx]" using rbm.push_ok [OF mb0(2)] mb mb0(3) by auto
  then have "rb_list (sh_mailbox sh) = [?ctx]" using b mb0(1) mb by (auto simp: buildProcessor_def)
  then have "inv_log (sh, [])" "inv_life (sh, [])"
    using b by (auto simp: inv_log_def inv_life_def in_flight_def is_startup_def newContext_def
        buildProcessor_def bind_eq_Some_conv)
  then show ?thesis using inv_count_init [OF assms] by (simp add: inv_proc_def)
qed

lemma proc_send_spec:
  assumes "rb_wf nil_context (sh_mailbox sh)" and "proc_send ctx sh = Some sh'"
  obtains (accepted) "sh' = sh\<lparr>sh_mailbox := sh_mailbox sh', sh_waking := sh_waking sh + 1,
        sh_accepted := sh_accepted sh @ [ctx]\<rparr>"
      "rb_list (sh_mailbox sh') = rb_list (sh_mailbox sh) @ [ctx]"
      "rb_wf nil_context (sh_mailbox sh')" "\<not> rb_closed (sh_mailbox sh)"
      "rb_closed (sh_mailbox sh') = rb_closed (sh_mailbox sh)"
  | (refused) reason where "sh' = toDeadLetter reason ctx sh"
      "reason = (if rb_closed (sh_mailbox sh) then ReasonStopped else ReasonOverflow)"
proof -
  obtain r mb where p: "rb_push nil_context ctx (sh_mailbox sh) = Some (r, mb)"
    using rbm.push_total [OF assms(1)] by blast
  show ?thesis
  proof (cases "r = PushOK")
    case True
    then show ?thesis
      using p assms(2) rbm.push_ok [OF assms(1), of ctx mb] rbm.push_keeps [OF assms(1) p]
        rbm.push_closed_iff [OF assms(1) p] that(1)
      by (auto simp: proc_send_def)
  next
    case False
    then show ?thesis
      using p assms(2) rbm.push_refused [OF assms(1) p] rbm.push_closed_iff [OF assms(1) p] that(2)
      by (cases r) (auto simp: proc_send_def)
  qed
qed

lemma inv_proc_step: "pstep p p' \<Longrightarrow> inv_proc p \<Longrightarrow> inv_proc p'"
proof (induction rule: pstep.induct)
  case (drainer i ds c sh sh' d' sp)
  then have C: "inv_count (sh, ds)" by (simp add: inv_proc_def)
  show ?case unfolding inv_proc_def
    using inv_count_drainer [OF C drainer.hyps] inv_life_drainer [OF drainer.prems drainer.hyps]
      inv_log_drainer [OF drainer.prems drainer.hyps] by blast
next
  case (send ctx sh sh' ds)
  then have C: "inv_count (sh', ds)"
    using inv_count_step [OF pstep.send] by (auto simp: inv_proc_def)
  have "rb_wf nil_context (sh_mailbox sh)"
    using send.prems by (simp add: inv_proc_def inv_count_def inv_mailbox_def)
  from this send.hyps have "inv_life (sh', ds) \<and> inv_log (sh', ds)"
  proof (cases rule: proc_send_spec)
    case accepted
    obtain mb where sh': "sh' = sh\<lparr>sh_mailbox := mb, sh_waking := sh_waking sh + 1,
        sh_accepted := sh_accepted sh @ [ctx]\<rparr>" "rb_list mb = rb_list (sh_mailbox sh) @ [ctx]"
      using accepted(1,2) by metis
    show ?thesis using send.prems sh'(2)
      unfolding sh'(1) inv_proc_def inv_life_def inv_log_def is_startup_def by (auto simp flip: append_assoc)
  next
    case (refused reason)
    then show ?thesis using send.prems
      unfolding inv_proc_def inv_life_def inv_log_def is_startup_def toDeadLetter_def by simp
  qed
  then show ?case using C by (simp add: inv_proc_def)
next
  case (poison sh ds)
  then have C: "inv_count (proc_poison sh, ds)"
    using inv_count_step [OF pstep.poison] by (auto simp: inv_proc_def)
  then show ?case using poison
    unfolding inv_proc_def inv_life_def inv_log_def is_startup_def by (simp add: proc_poison_def)
next
  case (wake sh sh' sp ds)
  then have C: "inv_count (sh', ds @ spawned sp)"
    using inv_count_step [OF pstep.wake] by (auto simp: inv_proc_def)
  have "in_flight (ds @ spawned sp) = in_flight ds"
    by (simp add: in_flight_def spawned_def new_drainer_def)
  moreover have "sh_lifecycleState sh' = sh_lifecycleState sh \<and> sh_mailbox sh' = sh_mailbox sh \<and>
      sh_handled sh' = sh_handled sh \<and> sh_flushed sh' = sh_flushed sh \<and>
      sh_accepted sh' = sh_accepted sh \<and> sh_self sh' = sh_self sh \<and>
      (sh_drainStatus sh' = DrainStopped \<longleftrightarrow> sh_drainStatus sh = DrainStopped)"
    using wake.hyps by (auto simp: proc_wake_def schedule_def split: if_splits)
  moreover from this have "inv_life (sh', ds @ spawned sp)"
    using wake.prems
    by (cases sp) (simp_all add: inv_proc_def inv_life_def spawned_def new_drainer_def)
  ultimately show ?case using wake.prems C
    by (simp add: inv_proc_def inv_log_def is_startup_def)
qed

lemma preach_inv_proc: "preach p \<Longrightarrow> inv_proc p"
  by (induction rule: preach.induct) (auto intro: inv_proc_init inv_proc_step)

end
