(* ===== verification/Processor_Wake.thy ===== *)
theory Processor_Wake
  imports Processor_Life
begin

section \<open>Blocking, identity and wake-ups of the processor\<close>

text \<open>
  The third layer: a drainer only ever waits for the permit; the gate knows which goroutine runs;
  a closed mailbox stays closed through the stop; and whenever the processor is idle while there is
  something left to do, some goroutine is still on its way to \<open>schedule\<close>.
\<close>

subsection \<open>Blocking\<close>

fun pc_enters :: "drainer_pc \<Rightarrow> bool" where
  "pc_enters (DEnter ctx) = True" | "pc_enters DStopEnter = True" | "pc_enters (DSuspended u) = True"
| "pc_enters _ = False"

lemma local_step_enabled:
  assumes "rb_wf nil_context (sh_mailbox sh)" and "holds d \<Longrightarrow> \<not> sh_permit sh"
  shows "local_step c g sh d = None \<longleftrightarrow> d_pc d = DDone \<or> (pc_enters (d_pc d) \<and> \<not> sh_permit sh)"
  using assms rbm.pop_total [OF assms(1)]
  by (cases "d_pc d")
    (auto simp: step_defs Let_def split: step_splits)

subsection \<open>Who runs\<close>

definition inv_ident :: "processor \<Rightarrow> bool" where
  "inv_ident p \<longleftrightarrow>
     (sh_permit (fst p) \<longrightarrow> sh_executionOwnerID (fst p) = 0 \<and> sh_executingCall (fst p) = None) \<and>
     (\<forall>i < length (snd p). holds (snd p ! i) \<longrightarrow>
        sh_executionOwnerID (fst p) = Suc i \<and> sh_executingCall (fst p) = Some (Suc i))"

lemma local_step_ident:
  assumes "local_step c g sh d = Some (sh', d', sp)" and "d_ok d"
    and "sh_permit sh \<Longrightarrow> sh_executionOwnerID sh = 0 \<and> sh_executingCall sh = None"
    and "holds d \<Longrightarrow> sh_executionOwnerID sh = g \<and> sh_executingCall sh = Some g"
  shows "sh_permit sh' \<Longrightarrow> sh_executionOwnerID sh' = 0 \<and> sh_executingCall sh' = None"
    and "holds d' \<Longrightarrow> sh_executionOwnerID sh' = g \<and> sh_executingCall sh' = Some g"
  using assms
  by (cases "d_pc d";
      auto simp: step_defs d_ok_def after_invoke_def stop_return_def Let_def split: step_splits)+

lemma local_step_ident_same:
  assumes "local_step c g sh d = Some (sh', d', sp)" and "\<not> holds d" and "\<not> holds d'"
  shows "sh_executionOwnerID sh' = sh_executionOwnerID sh" and "sh_executingCall sh' = sh_executingCall sh"
  using assms
  by (cases "d_pc d"; auto simp: step_defs Let_def split: step_splits)+

lemma inv_ident_drainer:
  assumes C: "inv_count (sh, ds)" and I: "inv_ident (sh, ds)" and i: "i < length ds"
    and st: "local_step c (Suc i) sh (ds ! i) = Some (sh', d', sp)"
  shows "inv_ident (sh', ds[i := d'] @ spawned sp)"
proof -
  let ?ds = "ds[i := d'] @ spawned sp"
  have C': "inv_count (sh', ?ds)" by (rule inv_count_drainer [OF C i st])
  have own: "sh_permit sh \<Longrightarrow> sh_executionOwnerID sh = 0 \<and> sh_executingCall sh = None"
    "holds (ds ! i) \<Longrightarrow> sh_executionOwnerID sh = Suc i \<and> sh_executingCall sh = Some (Suc i)"
    using I i by (auto simp: inv_ident_def)
  note loc = local_step_ident [OF st inv_countD(1) [OF C i] own]
  have "sh_executionOwnerID sh' = Suc j \<and> sh_executingCall sh' = Some (Suc j)"
    if j: "j < length ?ds" "holds (?ds ! j)" for j
  proof (cases "j = i")
    case True
    then show ?thesis using loc(2) j i by (simp add: nth_append)
  next
    case False
    have jl: "j < length ds" using j by (auto simp: nth_append spawned_def split: if_splits)
    then have jh: "holds (ds ! j)" using j False by (simp add: nth_append)
    have "\<not> holds (ds ! i)" using holder_unique [OF C i jl _ jh] False by blast
    moreover have "\<not> holds d'"
      using holder_unique [OF C', of i j] i j False by (auto simp: nth_append)
    ultimately show ?thesis using local_step_ident_same [OF st] I jl jh by (simp add: inv_ident_def)
  qed
  then show ?thesis using loc(1) by (simp add: inv_ident_def)
qed

subsection \<open>The closed mailbox\<close>

fun pc_closed :: "drainer_pc \<Rightarrow> bool" where
  "pc_closed (DUser (InPreStop sc)) = True" | "pc_closed (LUnregister sc) = True"
| "pc_closed (LStopped sc) = True" | "pc_closed (LRemove sc) = True" | "pc_closed (LFlush sc) = True"
| "pc_closed _ = False"

fun pc_flushing :: "drainer_pc \<Rightarrow> bool" where
  "pc_flushing (LRemove sc) = True" | "pc_flushing (LFlush sc) = True" | "pc_flushing _ = False"

definition inv_closed :: "processor \<Rightarrow> bool" where
  "inv_closed p \<longleftrightarrow>
     (sh_lifecycleState (fst p) = ActorStopped \<longrightarrow> rb_closed (sh_mailbox (fst p))) \<and>
     (\<forall>d \<in> set (snd p). pc_closed (d_pc d) \<longrightarrow> rb_closed (sh_mailbox (fst p))) \<and>
     (sh_lifecycleState (fst p) = ActorStopped \<longrightarrow> rb_list (sh_mailbox (fst p)) \<noteq> [] \<longrightarrow>
        (\<exists>d \<in> set (snd p). pc_flushing (d_pc d)))"

lemma local_step_closed:
  assumes "local_step c g sh d = Some (sh', d', sp)" and "rb_wf nil_context (sh_mailbox sh)"
  shows "rb_closed (sh_mailbox sh') \<longleftrightarrow> rb_closed (sh_mailbox sh) \<or> (\<exists>b sc. d_pc d = LClose b sc)"
  using assms rbm.pop_keeps [OF assms(2)] rbm.cls_spec [OF assms(2)]
  by (cases "d_pc d") (auto simp: step_defs Let_def split: step_splits)

lemma local_step_closed_pc:
  assumes "local_step c g sh d = Some (sh', d', sp)" and "d_ok d" and "pc_closed (d_pc d')"
  shows "pc_closed (d_pc d) \<or> (\<exists>b sc. d_pc d = LClose b sc)"
  using assms
  by (cases "d_pc d")
    (auto simp: d_ok_def step_defs after_invoke_def stop_return_def Let_def split: step_splits)

lemma local_step_stopped_closed:
  assumes "local_step c g sh d = Some (sh', d', sp)" and "sh_lifecycleState sh' = ActorStopped"
  shows "sh_lifecycleState sh = ActorStopped \<or> pc_closed (d_pc d)"
  using assms
  by (cases "d_pc d") (auto simp: step_defs Let_def split: step_splits)

lemma local_step_flushing:
  assumes "local_step c g sh d = Some (sh', d', sp)" and "rb_wf nil_context (sh_mailbox sh)"
    and "life_ok (d_pc d) (sh_lifecycleState sh)"
    and "sh_lifecycleState sh' = ActorStopped" and "rb_list (sh_mailbox sh') \<noteq> []"
  shows "pc_flushing (d_pc d') \<or> (sh_lifecycleState sh = ActorStopped \<and> \<not> pc_flushing (d_pc d) \<and>
     sh_mailbox sh' = sh_mailbox sh)"
  using assms rbm.pop_none [OF assms(2)]
  by (cases "d_pc d")
    (auto simp: step_defs Let_def split: step_splits)

lemma inv_closed_drainer:
  assumes inv: "inv_proc (sh, ds)" and I: "inv_closed (sh, ds)" and i: "i < length ds"
    and st: "local_step c (Suc i) sh (ds ! i) = Some (sh', d', sp)"
  shows "inv_closed (sh', ds[i := d'] @ spawned sp)"
proof -
  let ?ds = "ds[i := d'] @ spawned sp"
  have C: "inv_count (sh, ds)" and L: "inv_life (sh, ds)" using inv by (auto simp: inv_proc_def)
  note wf = inv_countD(4) [OF C i]
  note cl = local_step_closed [OF st wf]
  have now: "pc_closed (d_pc (ds ! j)) \<Longrightarrow> rb_closed (sh_mailbox sh)" if "j < length ds" for j
    using I nth_mem [OF that] by (auto simp: inv_closed_def)
  have 1: "rb_closed (sh_mailbox sh')" if l: "sh_lifecycleState sh' = ActorStopped"
    using local_step_stopped_closed [OF st l] I now [OF i] cl by (auto simp: inv_closed_def)
  have 2: "rb_closed (sh_mailbox sh')" if d: "d \<in> set ?ds" "pc_closed (d_pc d)" for d
    using d(1)
  proof (cases rule: step_mem)
    case 1
    then show ?thesis using local_step_closed_pc [OF st inv_countD(1) [OF C i]] d(2) now [OF i] cl by blast
  next
    case 2
    then show ?thesis using d(2) by (simp add: new_drainer_def)
  next
    case (3 j)
    then show ?thesis using now d(2) cl by blast
  qed
  have 3: "\<exists>d \<in> set ?ds. pc_flushing (d_pc d)"
    if l: "sh_lifecycleState sh' = ActorStopped" "rb_list (sh_mailbox sh') \<noteq> []"
  proof (cases "pc_flushing (d_pc d')")
    case True
    then show ?thesis using step_mem_new [OF i] by blast
  next
    case False
    then have f: "sh_lifecycleState sh = ActorStopped" "\<not> pc_flushing (d_pc (ds ! i))"
        "rb_list (sh_mailbox sh) \<noteq> []"
      using local_step_flushing [OF st wf inv_lifeD(2) [OF L i] l] l by auto
    then obtain j where "j < length ds" "pc_flushing (d_pc (ds ! j))"
      using I by (auto simp: inv_closed_def in_set_conv_nth)
    then show ?thesis using step_mem_other [of j ds i d' sp] f(2) by metis
  qed
  show ?thesis using 1 2 3 by (simp only: inv_closed_def fst_conv snd_conv) blast
qed

subsection \<open>Wake-ups\<close>

text \<open>
  The drainers that will still look at the mailbox, or at the stop request, before they end. A
  caller that has pushed or requested a stop and is about to \<open>schedule\<close> counts in \<open>sh_waking\<close>.
\<close>

fun pc_sees_mail :: "drainer_pc \<Rightarrow> bool" where
  "pc_sees_mail DRecheckLen = True" | "pc_sees_mail DFinSched = True" | "pc_sees_mail _ = False"

fun pc_sees_stop :: "drainer_pc \<Rightarrow> bool" where
  "pc_sees_stop DRecheckLen = True" | "pc_sees_stop DRecheckStop = True"
| "pc_sees_stop DRecheckUnf = True" | "pc_sees_stop DFinSched = True"
| "pc_sees_stop (DDecCheck m) = True" | "pc_sees_stop (DDecSched m) = True"
| "pc_sees_stop _ = False"

definition stop_due :: "shared \<Rightarrow> bool" where
  "stop_due sh \<longleftrightarrow> sh_stopRequested sh \<and> sh_unfinishedCalls sh = 0"

definition inv_wake :: "processor \<Rightarrow> bool" where
  "inv_wake p \<longleftrightarrow> (sh_drainStatus (fst p) = DrainIdle \<longrightarrow>
     (rb_list (sh_mailbox (fst p)) \<noteq> [] \<longrightarrow>
        0 < sh_waking (fst p) \<or> (\<exists>d \<in> set (snd p). pc_sees_mail (d_pc d))) \<and>
     (stop_due (fst p) \<longrightarrow>
        0 < sh_waking (fst p) \<or> (\<exists>d \<in> set (snd p). pc_sees_stop (d_pc d))))"

lemma local_step_sees_mail:
  assumes "local_step c g sh d = Some (sh', d', sp)" and "d_ok d"
    and "rb_wf nil_context (sh_mailbox sh)" and "owner d \<Longrightarrow> sh_drainStatus sh \<noteq> DrainIdle"
    and "sh_drainStatus sh' = DrainIdle" and "rb_list (sh_mailbox sh') \<noteq> []"
  shows "pc_sees_mail (d_pc d') \<or> (sh_drainStatus sh = DrainIdle \<and> rb_list (sh_mailbox sh) \<noteq> [] \<and>
     \<not> pc_sees_mail (d_pc d))"
  using assms rb_Len_zero_list [OF assms(3)] length_rb_list [OF assms(3)]
  by (cases "d_pc d")
    (auto simp: d_ok_def owner_def step_defs rb_Len_def Let_def split: step_splits)

lemma local_step_sees_stop:
  assumes "local_step c g sh d = Some (sh', d', sp)" and "d_ok d"
    and "rb_wf nil_context (sh_mailbox sh)" and "owner d \<Longrightarrow> sh_drainStatus sh \<noteq> DrainIdle"
    and "sh_drainStatus sh' = DrainIdle" and "stop_due sh'"
  shows "pc_sees_stop (d_pc d') \<or> (sh_drainStatus sh = DrainIdle \<and> stop_due sh \<and>
     \<not> pc_sees_stop (d_pc d))"
  using assms
  by (cases "d_pc d")
    (auto simp: d_ok_def owner_def step_defs stop_due_def Let_def split: step_splits)

lemma local_step_waking:
  "local_step c g sh d = Some (sh', d', sp) \<Longrightarrow> sh_waking sh' = sh_waking sh"
  by (cases "d_pc d") (auto simp: step_defs Let_def split: step_splits)

lemma watcher_kept:
  assumes "i < length ds" and "P d' \<or> ((\<exists>d \<in> set ds. P d) \<and> \<not> P (ds ! i))"
  shows "\<exists>d \<in> set (ds[i := d'] @ spawned sp). P d"
proof (cases "P d'")
  case True
  then show ?thesis using step_mem_new [OF assms(1)] by blast
next
  case False
  then obtain j where "j < length ds" "P (ds ! j)" "j \<noteq> i"
    using assms(2) unfolding in_set_conv_nth Bex_def by metis
  then show ?thesis using step_mem_other by blast
qed

lemma inv_wake_drainer:
  assumes C: "inv_count (sh, ds)" and I: "inv_wake (sh, ds)" and i: "i < length ds"
    and st: "local_step c (Suc i) sh (ds ! i) = Some (sh', d', sp)"
  shows "inv_wake (sh', ds[i := d'] @ spawned sp)"
proof -
  note D = inv_countD [OF C i]
  have 1: "0 < sh_waking sh' \<or> (\<exists>d \<in> set (ds[i := d'] @ spawned sp). pc_sees_mail (d_pc d))"
    if s: "sh_drainStatus sh' = DrainIdle" "rb_list (sh_mailbox sh') \<noteq> []"
    using local_step_sees_mail [OF st D(1,4,2) s] I local_step_waking [OF st]
      watcher_kept [OF i, of "\<lambda>d. pc_sees_mail (d_pc d)" d' sp] unfolding inv_wake_def fst_conv snd_conv by metis
  have 2: "0 < sh_waking sh' \<or> (\<exists>d \<in> set (ds[i := d'] @ spawned sp). pc_sees_stop (d_pc d))"
    if s: "sh_drainStatus sh' = DrainIdle" "stop_due sh'"
    using local_step_sees_stop [OF st D(1,4,2) s] I local_step_waking [OF st]
      watcher_kept [OF i, of "\<lambda>d. pc_sees_stop (d_pc d)" d' sp] unfolding inv_wake_def fst_conv snd_conv by metis
  show ?thesis using 1 2 by (simp only: inv_wake_def fst_conv snd_conv) blast
qed

subsection \<open>Reachable states\<close>

definition inv_all :: "processor \<Rightarrow> bool" where
  "inv_all p \<longleftrightarrow> inv_proc p \<and> inv_ident p \<and> inv_closed p \<and> inv_wake p"

lemma inv_all_init:
  assumes "buildProcessor self initSize maxSize reg unreg snId = Some sh"
    and "initSize < 2 ^ 62" and "maxSize < 2 ^ 62"
  shows "inv_all (sh, [])"
proof -
  have "sh_waking sh = 1" "sh_permit sh" "sh_executionOwnerID sh = 0" "sh_executingCall sh = None"
    "sh_lifecycleState sh = ActorInitializing"
    using assms(1) by (auto simp: buildProcessor_def bind_eq_Some_conv)
  then show ?thesis
    using inv_proc_init [OF assms] by (simp add: inv_all_def inv_ident_def inv_closed_def inv_wake_def)
qed

lemma inv_rest_drainer:
  assumes "inv_all (sh, ds)" and "i < length ds" and "local_step c (Suc i) sh (ds ! i) = Some (sh', d', sp)"
  shows "inv_all (sh', ds[i := d'] @ spawned sp)"
proof -
  have C: "inv_count (sh, ds)" and P: "inv_proc (sh, ds)" using assms(1) by (auto simp: inv_all_def inv_proc_def)
  show ?thesis
    using inv_proc_step [OF pstep.drainer [OF assms(2,3)] P] inv_ident_drainer [OF C _ assms(2,3)]
      inv_closed_drainer [OF P _ assms(2,3)] inv_wake_drainer [OF C _ assms(2,3)] assms(1)
    unfolding inv_all_def by blast
qed

lemma inv_rest_send:
  assumes I: "inv_all (sh, ds)" and s: "proc_send ctx sh = Some sh'"
  shows "inv_all (sh', ds)"
proof -
  have "rb_wf nil_context (sh_mailbox sh)"
    using I by (simp add: inv_all_def inv_proc_def inv_count_def inv_mailbox_def)
  from this s have "inv_ident (sh', ds) \<and> inv_closed (sh', ds) \<and> inv_wake (sh', ds)"
  proof (cases rule: proc_send_spec)
    case accepted
    obtain mb where mb: "sh_mailbox sh' = mb" by blast
    have "sh_lifecycleState sh \<noteq> ActorStopped" "\<forall>d \<in> set ds. \<not> pc_closed (d_pc d)"
      using I accepted(4) by (auto simp: inv_all_def inv_closed_def)
    then show ?thesis using I
      unfolding accepted(1) [unfolded mb] inv_all_def inv_ident_def inv_closed_def inv_wake_def
      by simp
  next
    case (refused reason)
    then show ?thesis using I
      by (simp add: inv_all_def inv_ident_def inv_closed_def inv_wake_def toDeadLetter_def stop_due_def)
  qed
  then show ?thesis using inv_proc_step [OF pstep.send [OF s]] I by (simp add: inv_all_def)
qed

lemma inv_rest_poison: "inv_all (sh, ds) \<Longrightarrow> inv_all (proc_poison sh, ds)"
  using inv_proc_step [OF pstep.poison, of sh ds]
  by (simp add: inv_all_def inv_ident_def inv_closed_def inv_wake_def proc_poison_def)

lemma inv_rest_wake:
  assumes I: "inv_all (sh, ds)" and w: "proc_wake sh = Some (sh', sp)"
  shows "inv_all (sh', ds @ spawned sp)"
proof -
  have "sh_drainStatus sh' \<noteq> DrainIdle" "sh_permit sh' = sh_permit sh"
      "sh_executionOwnerID sh' = sh_executionOwnerID sh" "sh_executingCall sh' = sh_executingCall sh"
      "sh_mailbox sh' = sh_mailbox sh" "sh_lifecycleState sh' = sh_lifecycleState sh"
    using w by (auto simp: proc_wake_def schedule_def split: if_splits)
  moreover from this have "inv_ident (sh', ds @ spawned sp)"
    using I by (auto simp: inv_all_def inv_ident_def spawned_def nth_append less_Suc_eq)
  moreover have "inv_closed (sh', ds @ spawned sp)"
    using I calculation
    by (cases sp) (auto simp: inv_all_def inv_closed_def spawned_def new_drainer_def)
  ultimately show ?thesis
    using inv_proc_step [OF pstep.wake [OF w]] I by (simp add: inv_all_def inv_wake_def)
qed

lemma inv_all_step: "pstep p p' \<Longrightarrow> inv_all p \<Longrightarrow> inv_all p'"
  by (induction rule: pstep.induct)
    (auto intro: inv_rest_drainer inv_rest_send inv_rest_poison inv_rest_wake)

lemma preach_inv_all: "preach p \<Longrightarrow> inv_all p"
  by (induction rule: preach.induct) (auto intro: inv_all_init inv_all_step)

end
