(* ===== verification/Processor_Trace.thy ===== *)
theory Processor_Trace
  imports Processor_Wake "HOL-Library.Sublist"
begin

section \<open>What the user's actor sees\<close>

text \<open>
  The order in which the hooks of an actor run, and which messages its \<open>Receive\<close> gets: an
  invariant on the recorded trace, by the same split into a local case analysis and the uniqueness
  of the permit holder. The last part lets scripts of actions run, for concrete executions.
\<close>

definition is_framework :: "shared \<Rightarrow> actor_context \<Rightarrow> bool" where
  "is_framework sh ctx \<longleftrightarrow> ctx_target ctx = sh_self sh \<and>
     (ctx_message ctx = Initialize \<or> ctx_message ctx = Poison)"

definition received :: "shared \<Rightarrow> actor_context list" where
  "received sh = filter (\<lambda>ctx. \<not> is_framework sh ctx) (sh_handled sh)"

text \<open>
  The trace of an actor that is up, the traces of one whose start failed (the registration was refused, or
  \<open>Started\<close> did not return), and those of one that is down. The registration is owned exactly when it was
  wanted and granted.
\<close>

definition registration_done :: "shared \<Rightarrow> bool" where
  "registration_done sh \<longleftrightarrow> sh_clusterRegistrationOwned sh = sh_registerToCluster sh"

definition refused :: "shared \<Rightarrow> bool" where
  "refused sh \<longleftrightarrow> sh_registerToCluster sh \<and> \<not> sh_clusterRegistrationOwned sh"

definition up_trace :: "shared \<Rightarrow> proc_event list" where
  "up_trace sh = EvStarted # EvStartReturned True # map EvReceive (received sh)"

definition failed_trace :: "shared \<Rightarrow> proc_event list \<Rightarrow> bool" where
  "failed_trace sh t \<longleftrightarrow> (t = [] \<and> refused sh) \<or> (t = [EvStarted, EvStartReturned False] \<and> registration_done sh)"

definition down_trace :: "shared \<Rightarrow> proc_event list \<Rightarrow> bool" where
  "down_trace sh t \<longleftrightarrow> failed_trace sh t \<or> (t = up_trace sh @ [EvPreStop] \<and> registration_done sh)"

definition release_trace :: "shared \<Rightarrow> proc_event list" where
  "release_trace sh = (if sh_clusterRegistrationOwned sh \<and> sh_unRegisterFromCluster sh then [EvUnregister] else [])"

definition gone_trace :: "shared \<Rightarrow> proc_event list \<Rightarrow> bool" where
  "gone_trace sh t \<longleftrightarrow> (\<exists>u. down_trace sh u \<and> t = u @ release_trace sh)"

fun trace_pc :: "shared \<Rightarrow> drainer_pc \<Rightarrow> bool" where
  "trace_pc sh LRegister = (sh_trace sh = [] \<and> received sh = [] \<and> refused sh)"
| "trace_pc sh (DUser InStarted) = (sh_trace sh = [EvStarted] \<and> received sh = [] \<and> registration_done sh)"
| "trace_pc sh (DUser (InPreStop sc)) = (sh_trace sh = up_trace sh @ [EvPreStop] \<and> registration_done sh)"
| "trace_pc sh (LStop (FromStart m)) = failed_trace sh (sh_trace sh)"
| "trace_pc sh (LClose b sc) =
     (if b then sh_trace sh = up_trace sh \<and> registration_done sh else failed_trace sh (sh_trace sh))"
| "trace_pc sh (LUnregister sc) = down_trace sh (sh_trace sh)"
| "trace_pc sh (LStopped sc) = gone_trace sh (sh_trace sh)"
| "trace_pc sh _ = True"

fun trace_life :: "shared \<Rightarrow> actor_lifecycle \<Rightarrow> bool" where
  "trace_life sh ActorInitializing = (sh_trace sh = [] \<and> \<not> sh_clusterRegistrationOwned sh)"
| "trace_life sh ActorStarted = (sh_trace sh = up_trace sh \<and> registration_done sh)"
| "trace_life sh ActorStopped = gone_trace sh (sh_trace sh)"
| "trace_life sh _ = True"

definition inv_trace :: "processor \<Rightarrow> bool" where
  "inv_trace p \<longleftrightarrow> trace_life (fst p) (sh_lifecycleState (fst p)) \<and>
     (\<forall>d \<in> set (snd p). trace_pc (fst p) (d_pc d))"

lemmas trace_defs = received_def up_trace_def failed_trace_def down_trace_def release_trace_def gone_trace_def
  registration_done_def refused_def is_framework_def

lemma trace_pc_only_holder: "d_ok d \<Longrightarrow> \<not> holds d \<Longrightarrow> trace_pc sh (d_pc d)"
  by (cases "d_pc d") auto

lemma trace_pc_LStop: "trace_pc sh (LStop sc) \<longleftrightarrow>
    (\<forall>m. sc = FromStart m \<longrightarrow> failed_trace sh (sh_trace sh))"
  by (cases sc) auto

definition same_start :: "shared \<Rightarrow> shared \<Rightarrow> bool" where
  "same_start sh sh' \<longleftrightarrow> sh_self sh' = sh_self sh \<and> sh_registerToCluster sh' = sh_registerToCluster sh \<and>
     sh_unRegisterFromCluster sh' = sh_unRegisterFromCluster sh \<and>
     sh_clusterRegistrationOwned sh' = sh_clusterRegistrationOwned sh"

lemma trace_cong:
  assumes "sh_trace sh' = sh_trace sh" "sh_handled sh' = sh_handled sh" "same_start sh sh'"
  shows "trace_pc sh' pc = trace_pc sh pc" "trace_life sh' l = trace_life sh l"
proof -
  have "received sh' = received sh" using assms by (simp add: received_def is_framework_def same_start_def)
  then have r: "received sh' = received sh" "up_trace sh' = up_trace sh" "failed_trace sh' = failed_trace sh"
      "down_trace sh' = down_trace sh" "gone_trace sh' = gone_trace sh"
      "registration_done sh' = registration_done sh" "refused sh' = refused sh"
      "sh_clusterRegistrationOwned sh' = sh_clusterRegistrationOwned sh"
    using assms(3) by (simp_all add: trace_defs fun_eq_iff same_start_def)
  show "trace_pc sh' pc = trace_pc sh pc" using assms r by (induction sh pc rule: trace_pc.induct) auto
  show "trace_life sh' l = trace_life sh l" using assms r by (cases l) auto
qed

lemma trace_life_frame [simp]:
  "trace_life (sh\<lparr>sh_executionOwnerID := g\<rparr>) l = trace_life sh l"
  "trace_life (sh\<lparr>sh_executingCall := e\<rparr>) l = trace_life sh l"
  "trace_life (sh\<lparr>sh_permit := b\<rparr>) l = trace_life sh l"
  "trace_life (sh\<lparr>sh_unfinishedCalls := n\<rparr>) l = trace_life sh l"
  "trace_life (sh\<lparr>sh_drainStatus := s\<rparr>) l = trace_life sh l"
  by (rule trace_cong(2); simp add: same_start_def)+

lemma local_step_trace_same:
  assumes "local_step c g sh d = Some (sh', d', sp)" and "\<not> holds d"
  shows "sh_trace sh' = sh_trace sh" and "sh_handled sh' = sh_handled sh" and "same_start sh sh'"
  unfolding same_start_def
  using assms by (cases "d_pc d"; auto simp: step_defs Let_def split: step_splits)+

lemma local_step_trace_life:
  assumes "local_step c g sh d = Some (sh', d', sp)"
    and "life_ok (d_pc d) (sh_lifecycleState sh)"
    and "trace_pc sh (d_pc d)" and "trace_life sh (sh_lifecycleState sh)"
    and "\<And>ctx. d_pc d = DDispatch ctx \<Longrightarrow> sh_lifecycleState sh = ActorInitializing \<Longrightarrow>
           is_startup sh ctx"
  shows "trace_life sh' (sh_lifecycleState sh')"
  using assms
  by (cases "d_pc d")
    (auto simp: step_defs trace_defs is_startup_def Let_def split: step_splits)

lemma local_step_trace_pc:
  assumes "local_step c g sh d = Some (sh', d', sp)" and "d_ok d"
    and "life_ok (d_pc d) (sh_lifecycleState sh)"
    and "trace_pc sh (d_pc d)" and "trace_life sh (sh_lifecycleState sh)"
    and "sh_handled sh = [] \<longleftrightarrow> sh_lifecycleState sh = ActorInitializing"
  shows "trace_pc sh' (d_pc d')"
  using assms
  by (cases "d_pc d")
    (auto simp: step_defs d_ok_def trace_defs after_invoke_def stop_return_def Let_def split: step_splits)

lemma inv_trace_drainer:
  assumes inv: "inv_proc (sh, ds)" and I: "inv_trace (sh, ds)" and i: "i < length ds"
    and st: "local_step c (Suc i) sh (ds ! i) = Some (sh', d', sp)"
  shows "inv_trace (sh', ds[i := d'] @ spawned sp)"
proof -
  have C: "inv_count (sh, ds)" and L: "inv_life (sh, ds)" and G: "inv_log (sh, ds)"
    using inv by (auto simp: inv_proc_def)
  note ok = inv_countD(1) [OF C i] and lok = inv_lifeD(2) [OF L i]
  have T: "trace_life sh (sh_lifecycleState sh)" "\<And>j. j < length ds \<Longrightarrow> trace_pc sh (d_pc (ds ! j))"
    using I by (auto simp: inv_trace_def)
  have new: "trace_life sh' (sh_lifecycleState sh')" "trace_pc sh' (d_pc d')"
    using local_step_trace_life [OF st lok T(2) [OF i] T(1) dispatch_first_is_startup [OF inv i]]
      local_step_trace_pc [OF st ok lok T(2) [OF i] T(1)] G by (auto simp: inv_log_def)
  have others: "trace_pc sh' (d_pc (ds ! j))" if j: "j < length ds" "j \<noteq> i" for j
  proof (cases "holds (ds ! j)")
    case True
    then have "\<not> holds (ds ! i)" using holder_unique [OF C j(1) i] j(2) by blast
    then show ?thesis using local_step_trace_same [OF st] trace_cong(1) T(2) [OF j(1)] by blast
  next
    case False
    then show ?thesis by (rule trace_pc_only_holder [OF inv_countD(1) [OF C j(1)]])
  qed
  have "trace_pc sh' (d_pc d)" if "d \<in> set (ds[i := d'] @ spawned sp)" for d
    using that by (cases rule: step_mem) (use new others in \<open>auto simp: new_drainer_def\<close>)
  then show ?thesis using new(1) by (simp only: inv_trace_def fst_conv snd_conv) blast
qed

subsection \<open>Flushed messages are dead letters\<close>

definition flush_letter :: "shared \<Rightarrow> actor_context \<Rightarrow> dead_letter" where
  "flush_letter sh ctx = ctx_dead_letter (Some (sh_self sh)) ReasonStopped ctx"

definition letter_reply :: "dead_letter \<Rightarrow> (actor_ref \<times> proto_message) list" where
  "letter_reply l = unavailable_reply (dl_Reason l) (dl_Sender l)"

definition inv_dead :: "processor \<Rightarrow> bool" where
  "inv_dead p \<longleftrightarrow>
     subseq (map (flush_letter (fst p)) (sh_flushed (fst p))) (sh_deadLetters (fst p)) \<and>
     sh_askReplies (fst p) = concat (map letter_reply (sh_deadLetters (fst p)))"

lemma flush_letter_cong: "sh_self sh' = sh_self sh \<Longrightarrow> flush_letter sh' = flush_letter sh"
  by (simp add: fun_eq_iff flush_letter_def)

lemma local_step_dead:
  assumes "local_step c g sh d = Some (sh', d', sp)"
  shows "(sh_flushed sh' = sh_flushed sh \<and> sh_deadLetters sh' = sh_deadLetters sh \<and>
       sh_askReplies sh' = sh_askReplies sh) \<or>
     (\<exists>ctx. sh_flushed sh' = sh_flushed sh @ [ctx] \<and>
        sh_deadLetters sh' = sh_deadLetters sh @ [flush_letter sh ctx] \<and>
        sh_askReplies sh' = sh_askReplies sh @ letter_reply (flush_letter sh ctx))"
  using assms
  by (cases "d_pc d")
    (auto simp: step_defs flush_letter_def letter_reply_def ctx_dead_letter_def Let_def split: step_splits)

lemma local_step_self:
  "local_step c g sh d = Some (sh', d', sp) \<Longrightarrow> sh_self sh' = sh_self sh"
  by (cases "d_pc d") (auto simp: step_defs Let_def split: step_splits)

lemma subseq_snoc: "subseq xs ys \<Longrightarrow> subseq xs (ys @ [y])" "subseq xs ys \<Longrightarrow> subseq (xs @ [y]) (ys @ [y])"
  by (auto intro: subseq_rev_drop_many)

subsection \<open>Reachable states\<close>

definition inv_user :: "processor \<Rightarrow> bool" where
  "inv_user p \<longleftrightarrow> inv_all p \<and> inv_trace p \<and> inv_dead p"

lemma inv_user_init:
  assumes "buildProcessor self initSize maxSize reg unreg snId = Some sh"
    and "initSize < 2 ^ 62" and "maxSize < 2 ^ 62"
  shows "inv_user (sh, [])"
proof -
  have "sh_lifecycleState sh = ActorInitializing" "sh_trace sh = []" "sh_flushed sh = []"
      "sh_deadLetters sh = []" "sh_askReplies sh = []" "\<not> sh_clusterRegistrationOwned sh"
    using assms(1) by (auto simp: buildProcessor_def bind_eq_Some_conv)
  then show ?thesis using inv_all_init [OF assms] by (simp add: inv_user_def inv_trace_def inv_dead_def)
qed

lemma inv_user_drainer:
  assumes I: "inv_user (sh, ds)" and i: "i < length ds"
    and st: "local_step c (Suc i) sh (ds ! i) = Some (sh', d', sp)"
  shows "inv_user (sh', ds[i := d'] @ spawned sp)"
proof -
  have A: "inv_all (sh, ds)" and P: "inv_proc (sh, ds)" using I by (auto simp: inv_user_def inv_all_def)
  have "inv_dead (sh', ds[i := d'] @ spawned sp)"
    using I local_step_dead [OF st] flush_letter_cong [OF local_step_self [OF st]]
    by (auto simp: inv_user_def inv_dead_def subseq_snoc)
  then show ?thesis
    using inv_rest_drainer [OF A i st] inv_trace_drainer [OF P _ i st] I by (simp add: inv_user_def)
qed

lemma inv_user_frame:
  assumes "inv_user (sh, ds)" and "inv_all (sh', ds @ spawned sp)"
    and "same_start sh sh'" "sh_trace sh' = sh_trace sh" "sh_handled sh' = sh_handled sh"
    and "sh_lifecycleState sh' = sh_lifecycleState sh" "sh_flushed sh' = sh_flushed sh"
    and "(sh_deadLetters sh' = sh_deadLetters sh \<and> sh_askReplies sh' = sh_askReplies sh) \<or>
      (\<exists>l. sh_deadLetters sh' = sh_deadLetters sh @ [l] \<and>
          sh_askReplies sh' = sh_askReplies sh @ letter_reply l)"
  shows "inv_user (sh', ds @ spawned sp)"
proof -
  have self: "sh_self sh' = sh_self sh" using assms(3) by (simp add: same_start_def)
  have "inv_dead (sh', ds @ spawned sp)"
    using assms(1,7,8) flush_letter_cong [OF self]
    by (auto simp: inv_user_def inv_dead_def subseq_snoc)
  moreover have "inv_trace (sh', ds @ spawned sp)"
    using assms(1,6) trace_cong [OF assms(4,5,3)]
    by (auto simp: inv_user_def inv_trace_def spawned_def new_drainer_def)
  ultimately show ?thesis using assms(2) by (simp add: inv_user_def)
qed

lemma inv_user_step: "pstep p p' \<Longrightarrow> inv_user p \<Longrightarrow> inv_user p'"
proof (induction rule: pstep.induct)
  case (drainer i ds c sh sh' d' sp)
  then show ?case by (intro inv_user_drainer)
next
  case (send ctx sh sh' ds)
  have A: "inv_all (sh, ds)" using send.prems by (simp add: inv_user_def)
  have "inv_user (sh', ds @ spawned False)"
    by (rule inv_user_frame [OF send.prems])
      (use inv_rest_send [OF A send.hyps] send.hyps in
        \<open>auto simp: proc_send_def toDeadLetter_def spawned_def same_start_def letter_reply_def ctx_dead_letter_def split: option.splits prod.splits push_result.splits\<close>)
  then show ?case by (simp add: spawned_def)
next
  case (poison sh ds)
  have "inv_user (proc_poison sh, ds @ spawned False)"
    by (rule inv_user_frame [OF poison.prems])
      (use inv_rest_poison poison.prems in \<open>auto simp: inv_user_def proc_poison_def spawned_def same_start_def\<close>)
  then show ?case by (simp add: spawned_def)
next
  case (wake sh sh' sp ds)
  have A: "inv_all (sh, ds)" using wake.prems by (simp add: inv_user_def)
  show ?case
    by (rule inv_user_frame [OF wake.prems inv_rest_wake [OF A wake.hyps]])
      (use wake.hyps in \<open>auto simp: proc_wake_def schedule_def same_start_def split: if_splits\<close>)
qed

lemma preach_inv_user: "preach p \<Longrightarrow> inv_user p"
  by (induction rule: preach.induct) (auto intro: inv_user_init inv_user_step)

end
