(* ===== verification/Processor_Liveness.thy ===== *)
theory Processor_Liveness
  imports Processor_Trace
begin

section \<open>Termination of the processor's own work\<close>

text \<open>
  Left alone, a processor comes to rest: when nobody sends, requests a stop or asks any more, every
  sequence of its steps is finite, whatever the interleaving. The measure is lexicographic: how far
  the actor is in its life, how many messages wait, how many callers are on their way to \<open>schedule\<close>,
  how far the running calls are, and last how far each drainer is in its loop, where the order of
  the program points depends on whether there is something left to drain or to stop.
\<close>

inductive istep :: "processor \<Rightarrow> processor \<Rightarrow> bool" where
  drainer: "i < length ds \<Longrightarrow> c \<noteq> UAsk \<Longrightarrow> local_step c (Suc i) sh (ds ! i) = Some (sh', d', sp) \<Longrightarrow>
     istep (sh, ds) (sh', ds[i := d'] @ spawned sp)"
| wake: "proc_wake sh = Some (sh', sp) \<Longrightarrow> istep (sh, ds) (sh', ds @ spawned sp)"

lemma istep_pstep: "istep p q \<Longrightarrow> pstep p q"
  by (induction rule: istep.induct) (auto intro: pstep.intros)

fun life_rank :: "actor_lifecycle \<Rightarrow> nat" where
  "life_rank ActorInitializing = 4" | "life_rank ActorStarting = 3" | "life_rank ActorStarted = 2"
| "life_rank ActorStopping = 1" | "life_rank ActorStopped = 0"

fun call_rank :: "drainer_pc \<Rightarrow> nat" where
  "call_rank (DInc ctx) = 20" | "call_rank (DEnter ctx) = 19" | "call_rank (DDispatch ctx) = 18"
| "call_rank (DSuspendLeave u) = 17" | "call_rank (DSuspended u) = 16"
| "call_rank LRegister = 16"
| "call_rank (DUser (InPreStop sc)) = 14" | "call_rank (DUser _) = 15"
| "call_rank DPoisonStore = 15" | "call_rank DPoisonSched = 14"
| "call_rank (LStop (FromStart m)) = 14" | "call_rank (LClose b sc) = 15"
| "call_rank (LUnregister sc) = 13" | "call_rank (LStopped sc) = 12"
| "call_rank (LRemove sc) = 11" | "call_rank (LFlush sc) = 10"
| "call_rank (DLeave m) = 5" | "call_rank (DDec m) = 4" | "call_rank (DDecCheck m) = 3"
| "call_rank (DDecSched m) = 2" | "call_rank _ = 0"

text \<open>
  The rank in the drain loop depends on what there is to do. With mail, a fresh drainer pops before
  it comes to \<open>finishDraining\<close>; with a due stop and no mail it stops the actor; with neither, a
  drainer that rechecks starts no other; and a stopped actor starts none at all.
\<close>

datatype loop_mode = MStopped | MMail | MDue | MQuiet

definition mode_of :: "shared \<Rightarrow> loop_mode" where
  "mode_of sh = (if sh_drainStatus sh = DrainStopped then MStopped
     else if rb_list (sh_mailbox sh) \<noteq> [] then MMail
     else if stop_due sh then MDue else MQuiet)"

fun loop_rank :: "loop_mode \<Rightarrow> drainer_pc \<Rightarrow> nat" where
  "loop_rank m DFin = (case m of MStopped \<Rightarrow> 28 | MMail \<Rightarrow> 33 | MDue \<Rightarrow> 40 | MQuiet \<Rightarrow> 21)"
| "loop_rank m DRecheckLen = (case m of MStopped \<Rightarrow> 27 | MMail \<Rightarrow> 32 | MDue \<Rightarrow> 39 | MQuiet \<Rightarrow> 20)"
| "loop_rank m DRecheckStop = (case m of MStopped \<Rightarrow> 26 | MMail \<Rightarrow> 31 | MDue \<Rightarrow> 38 | MQuiet \<Rightarrow> 19)"
| "loop_rank m DRecheckUnf = (case m of MStopped \<Rightarrow> 25 | MMail \<Rightarrow> 30 | MDue \<Rightarrow> 37 | MQuiet \<Rightarrow> 18)"
| "loop_rank m DFinSched = (case m of MStopped \<Rightarrow> 24 | MMail \<Rightarrow> 29 | MDue \<Rightarrow> 36 | MQuiet \<Rightarrow> 40)"
| "loop_rank m DLoad = (case m of MMail \<Rightarrow> 20 | _ \<Rightarrow> 30)"
| "loop_rank m DPop = (case m of MMail \<Rightarrow> 19 | _ \<Rightarrow> 29)"
| "loop_rank m DStopReady1 = (case m of MMail \<Rightarrow> 40 | _ \<Rightarrow> 28)"
| "loop_rank m DStopReady2 = (case m of MMail \<Rightarrow> 39 | _ \<Rightarrow> 27)"
| "loop_rank m DStopEnter = (case m of MMail \<Rightarrow> 38 | _ \<Rightarrow> 26)"
| "loop_rank m DStopCheck1 = (case m of MMail \<Rightarrow> 37 | _ \<Rightarrow> 25)"
| "loop_rank m DStopCheck2 = (case m of MMail \<Rightarrow> 36 | _ \<Rightarrow> 24)"
| "loop_rank m DStopCheck3 = (case m of MMail \<Rightarrow> 35 | _ \<Rightarrow> 23)"
| "loop_rank m DStopLeave = (case m of MStopped \<Rightarrow> 29 | MMail \<Rightarrow> 34 | MDue \<Rightarrow> 41 | MQuiet \<Rightarrow> 22)"
| "loop_rank m _ = 0"

abbreviation mail_count :: "shared \<Rightarrow> nat" where
  "mail_count sh \<equiv> length (rb_list (sh_mailbox sh))"

text \<open>One step of a drainer makes progress in life, mail, its call or its loop.\<close>

definition call_progress :: "shared \<Rightarrow> drainer \<Rightarrow> shared \<Rightarrow> drainer \<Rightarrow> bool" where
  "call_progress sh d sh' d' \<longleftrightarrow>
     life_rank (sh_lifecycleState sh') < life_rank (sh_lifecycleState sh) \<or>
     (sh_lifecycleState sh' = sh_lifecycleState sh \<and>
       (mail_count sh' < mail_count sh \<or>
        (mail_count sh' = mail_count sh \<and> call_rank (d_pc d') < call_rank (d_pc d))))"

definition loop_progress :: "shared \<Rightarrow> drainer \<Rightarrow> shared \<Rightarrow> drainer \<Rightarrow> bool \<Rightarrow> bool" where
  "loop_progress sh d sh' d' sp \<longleftrightarrow>
     sh_lifecycleState sh' = sh_lifecycleState sh \<and> mail_count sh' = mail_count sh \<and>
     call_rank (d_pc d') = call_rank (d_pc d) \<and> mode_of sh' = mode_of sh \<and>
     loop_rank (mode_of sh) (d_pc d') + bit_of sp * loop_rank (mode_of sh) DLoad
       < loop_rank (mode_of sh) (d_pc d)"

fun pc_loop :: "drainer_pc \<Rightarrow> bool" where
  "pc_loop DFin = True" | "pc_loop DRecheckLen = True" | "pc_loop DRecheckStop = True"
| "pc_loop DRecheckUnf = True" | "pc_loop DFinSched = True" | "pc_loop DLoad = True"
| "pc_loop DPop = True" | "pc_loop DStopReady1 = True" | "pc_loop DStopReady2 = True"
| "pc_loop DStopEnter = True" | "pc_loop DStopCheck1 = True" | "pc_loop DStopCheck2 = True"
| "pc_loop DStopCheck3 = True" | "pc_loop DStopLeave = True" | "pc_loop _ = False"

lemma local_step_call_progress:
  assumes "local_step c g sh d = Some (sh', d', sp)" and "c \<noteq> UAsk" and "d_ok d"
    and "life_ok (d_pc d) (sh_lifecycleState sh)" and "rb_wf nil_context (sh_mailbox sh)"
    and "\<not> pc_loop (d_pc d)"
  shows "call_progress sh d sh' d'"
  using assms rbm.pop_contents [OF assms(5)] rbm.cls_spec [OF assms(5)]
  by (cases "d_pc d")
    (auto simp: step_defs d_ok_def call_progress_def after_invoke_def stop_return_def Let_def
      split: step_splits)

lemma rb_Len_list: "rb_wf z q \<Longrightarrow> rb_Len q = int (length (rb_list q))"
  by (simp add: rb_Len_def length_rb_list)

lemmas progress_defs = call_progress_def loop_progress_def mode_of_def stop_due_def

lemma drain_progress:
  assumes "local_step c g sh d = Some (sh', d', sp)"
    and "d_pc d \<in> {DLoad, DPop, DStopReady1, DStopReady2}"
    and "d_pc d \<noteq> DLoad \<Longrightarrow> sh_drainStatus sh \<noteq> DrainStopped"
    and wf: "rb_wf nil_context (sh_mailbox sh)"
  shows "call_progress sh d sh' d' \<or> loop_progress sh d sh' d' sp"
proof -
  obtain r mb where pop: "rb_pop nil_context (sh_mailbox sh) = Some (r, mb)"
    using rbm.pop_total [OF wf] by blast
  have "rb_list (sh_mailbox sh) = (case r of None \<Rightarrow> [] | Some x \<Rightarrow> [x]) @ rb_list mb"
    by (rule rbm.pop_contents [OF wf pop])
  note mail = this
  consider "d_pc d = DLoad" | "d_pc d = DPop" "sh_drainStatus sh \<noteq> DrainStopped"
    | "d_pc d = DStopReady1" "sh_drainStatus sh \<noteq> DrainStopped"
    | "d_pc d = DStopReady2" "sh_drainStatus sh \<noteq> DrainStopped"
    using assms(2,3) by auto
  then show ?thesis
  proof cases
    case 1
    with assms(1) show ?thesis by (auto simp: step_defs progress_defs)
  next
    case 2
    with assms(1) pop mail rbm.pop_none [OF wf, of mb] show ?thesis
      by (cases r) (auto simp: step_defs progress_defs)
  next
    case 3
    with assms(1) show ?thesis
      by (cases "sh_stopRequested sh") (simp_all add: step_defs progress_defs, auto)
  next
    case 4
    with assms(1) show ?thesis
      by (cases "sh_unfinishedCalls sh = 0") (simp_all add: step_defs progress_defs, auto)
  qed
qed

lemma stopIfIdle_progress:
  assumes "local_step c g sh d = Some (sh', d', sp)"
    and "d_pc d \<in> {DStopEnter, DStopCheck1, DStopCheck2, DStopCheck3, DStopLeave}"
    and "d_pc d \<noteq> DStopLeave \<Longrightarrow> sh_drainStatus sh \<noteq> DrainStopped"
    and wf: "rb_wf nil_context (sh_mailbox sh)"
  shows "call_progress sh d sh' d' \<or> loop_progress sh d sh' d' sp"
  using assms(1,2,3) rb_Len_list [OF wf]
  by (elim insertE) (auto simp: step_defs progress_defs split: if_splits option.splits)

lemma finishDraining_progress:
  assumes "local_step c g sh d = Some (sh', d', sp)"
    and "d_pc d \<in> {DFin, DRecheckLen, DRecheckStop, DRecheckUnf, DFinSched}"
    and "d_pc d = DRecheckUnf \<Longrightarrow> sh_stopRequested sh"
    and wf: "rb_wf nil_context (sh_mailbox sh)"
  shows "call_progress sh d sh' d' \<or> loop_progress sh d sh' d' sp"
  using assms(1,2,3) rb_Len_list [OF wf]
  by (elim insertE) (auto simp: step_defs progress_defs split: if_splits option.splits)

lemma local_step_progress:
  assumes st: "local_step c g sh d = Some (sh', d', sp)" "c \<noteq> UAsk" and ok: "d_ok d"
    and life: "life_ok (d_pc d) (sh_lifecycleState sh)"
    and stopped: "sh_lifecycleState sh = ActorStopped \<longleftrightarrow> sh_drainStatus sh = DrainStopped"
    and wf: "rb_wf nil_context (sh_mailbox sh)"
    and unf: "d_pc d = DRecheckUnf \<Longrightarrow> sh_stopRequested sh"
  shows "call_progress sh d sh' d' \<or> loop_progress sh d sh' d' sp"
proof (cases "pc_loop (d_pc d)")
  case True
  then consider "d_pc d \<in> {DLoad, DPop, DStopReady1, DStopReady2}"
    | "d_pc d \<in> {DStopEnter, DStopCheck1, DStopCheck2, DStopCheck3, DStopLeave}"
    | "d_pc d \<in> {DFin, DRecheckLen, DRecheckStop, DRecheckUnf, DFinSched}"
    by (cases "d_pc d") auto
  then show ?thesis
  proof cases
    case 1
    then have "d_pc d \<noteq> DLoad \<Longrightarrow> sh_drainStatus sh \<noteq> DrainStopped"
      using life stopped by auto
    then show ?thesis using drain_progress [OF st(1) 1 _ wf] by blast
  next
    case 2
    then have "d_pc d \<noteq> DStopLeave \<Longrightarrow> sh_drainStatus sh \<noteq> DrainStopped"
      using life stopped by auto
    then show ?thesis using stopIfIdle_progress [OF st(1) 2 _ wf] by blast
  next
    case 3
    then show ?thesis using finishDraining_progress [OF st(1) 3 unf wf] by blast
  qed
next
  case False
  then show ?thesis using local_step_call_progress [OF st ok life wf] by blast
qed

subsection \<open>The measure\<close>

definition call_sum :: "drainer list \<Rightarrow> nat" where
  "call_sum ds = sum_list (map (\<lambda>d. call_rank (d_pc d)) ds)"

definition loop_sum :: "loop_mode \<Rightarrow> drainer list \<Rightarrow> nat" where
  "loop_sum m ds = sum_list (map (\<lambda>d. loop_rank m (d_pc d)) ds)"

definition work :: "processor \<Rightarrow> nat \<times> nat \<times> nat \<times> nat \<times> nat" where
  "work p = (life_rank (sh_lifecycleState (fst p)), mail_count (fst p), sh_waking (fst p),
     call_sum (snd p), loop_sum (mode_of (fst p)) (snd p))"

definition work_order :: "((nat \<times> nat \<times> nat \<times> nat \<times> nat) \<times> nat \<times> nat \<times> nat \<times> nat \<times> nat) set" where
  "work_order = less_than <*lex*> less_than <*lex*> less_than <*lex*> less_than <*lex*> less_than"

lemma wf_work_order: "wf work_order"
  unfolding work_order_def by (intro wf_lex_prod wf_less_than)

lemma sum_list_step:
  fixes f :: "drainer \<Rightarrow> nat"
  assumes "i < length ds"
  shows "sum_list (map f (ds[i := d'] @ spawned sp)) + f (ds ! i)
    = sum_list (map f ds) + f d' + bit_of sp * f new_drainer"
proof -
  have "sum_list (map f (ds[i := d'])) + f (ds ! i) = sum_list (map f ds) + f d'"
    using assms by (induction ds arbitrary: i) (auto simp: nth_Cons split: nat.splits)
  then show ?thesis by (simp add: spawned_def)
qed

lemma progress_decreases:
  assumes i: "i < length ds" and w: "sh_waking sh' = sh_waking sh"
    and p: "call_progress sh (ds ! i) sh' d' \<or> loop_progress sh (ds ! i) sh' d' sp"
  shows "(work (sh', ds[i := d'] @ spawned sp), work (sh, ds)) \<in> work_order"
proof -
  have c: "call_sum (ds[i := d'] @ spawned sp) + call_rank (d_pc (ds ! i))
      = call_sum ds + call_rank (d_pc d')"
    using sum_list_step [OF i, of "\<lambda>d. call_rank (d_pc d)" d' sp]
    by (simp add: call_sum_def new_drainer_def)
  from p show ?thesis
  proof
    assume "call_progress sh (ds ! i) sh' d'"
    then show ?thesis using c w by (auto simp: work_order_def work_def call_progress_def)
  next
    assume l: "loop_progress sh (ds ! i) sh' d' sp"
    have "loop_sum (mode_of sh) (ds[i := d'] @ spawned sp) < loop_sum (mode_of sh) ds"
      using sum_list_step [OF i, of "\<lambda>d. loop_rank (mode_of sh) (d_pc d)" d' sp] l
      by (simp add: loop_sum_def loop_progress_def new_drainer_def)
    then show ?thesis using c w l by (auto simp: work_order_def work_def loop_progress_def)
  qed
qed

text \<open>A drainer that is about to test the unfinished calls has seen the stop request.\<close>

definition inv_unf :: "processor \<Rightarrow> bool" where
  "inv_unf p \<longleftrightarrow> (\<forall>d \<in> set (snd p). d_pc d = DRecheckUnf \<longrightarrow> sh_stopRequested (fst p))"

lemma local_step_unf:
  assumes "local_step c g sh d = Some (sh', d', sp)"
  shows "d_pc d' = DRecheckUnf \<Longrightarrow> sh_stopRequested sh'"
    and "sh_stopRequested sh \<Longrightarrow> sh_stopRequested sh'"
  using assms
  by (cases "d_pc d"; auto simp: step_defs after_invoke_def stop_return_def Let_def split: step_splits)+

lemma preach_inv_unf: "preach p \<Longrightarrow> inv_unf p"
proof (induction rule: preach.induct)
  case (start initSize maxSize self reg unreg snId sh)
  then show ?case by (simp add: inv_unf_def)
next
  case (step p p')
  from step.hyps(2) step.IH show ?case
  proof cases
    case (drainer i ds c sh sh' d' sp)
    have "sh_stopRequested sh'" if "d \<in> set (ds[i := d'] @ spawned sp)" "d_pc d = DRecheckUnf" for d
      using that(1)
      by (cases rule: step_mem)
        (use that(2) local_step_unf [OF drainer(4)] step.IH drainer(1) in
          \<open>auto simp: inv_unf_def new_drainer_def\<close>)
    then show ?thesis unfolding drainer(2) inv_unf_def by auto
  qed (auto simp: inv_unf_def proc_send_def proc_poison_def proc_wake_def schedule_def
        toDeadLetter_def spawned_def new_drainer_def
        split: option.splits prod.splits push_result.splits if_splits)
qed

lemma istep_decreases:
  assumes "istep p q" and r: "preach p"
  shows "(work q, work p) \<in> work_order"
  using assms
proof (induction rule: istep.induct)
  case (drainer i ds c sh sh' d' sp)
  have P: "inv_proc (sh, ds)" using preach_inv_proc [OF drainer.prems] .
  have C: "inv_count (sh, ds)" and L: "inv_life (sh, ds)" using P by (auto simp: inv_proc_def)
  note D = inv_countD [OF C drainer.hyps(1)]
  have "d_pc (ds ! i) = DRecheckUnf \<Longrightarrow> sh_stopRequested sh"
    using preach_inv_unf [OF drainer.prems] nth_mem [OF drainer.hyps(1)]
    by (auto simp: inv_unf_def)
  then have "call_progress sh (ds ! i) sh' d' \<or> loop_progress sh (ds ! i) sh' d' sp"
    by (rule local_step_progress [OF drainer.hyps(3,2) D(1) inv_lifeD(2) [OF L drainer.hyps(1)]
          inv_lifeD(1) [OF L] D(4)])
  then show ?case
    by (rule progress_decreases [OF drainer.hyps(1) local_step_waking [OF drainer.hyps(3)]])
next
  case (wake sh sh' sp ds)
  then have "sh_lifecycleState sh' = sh_lifecycleState sh" "sh_mailbox sh' = sh_mailbox sh"
      "sh_waking sh' < sh_waking sh"
    by (auto simp: proc_wake_def schedule_def split: if_splits)
  then show ?case by (simp add: work_order_def work_def)
qed

end
