(* ===== verification/Processor_Script.thy ===== *)
theory Processor_Script
  imports Processor_Liveness
begin

section \<open>Concrete executions of the processor\<close>

text \<open>
  A scheduler that plays a given list of actions, so that particular interleavings can be computed,
  and a small actor on which they are played.
\<close>

datatype action = Act nat choice | Send actor_context | RequestStop | Wake

fun exec_action :: "action \<Rightarrow> processor \<Rightarrow> processor option" where
  "exec_action (Act i c) (sh, ds) = (if i < length ds then
      (case local_step c (Suc i) sh (ds ! i) of None \<Rightarrow> None
       | Some (sh', d', sp) \<Rightarrow> Some (sh', ds[i := d'] @ spawned sp)) else None)"
| "exec_action (Send ctx) (sh, ds) = map_option (\<lambda>sh'. (sh', ds)) (proc_send ctx sh)"
| "exec_action RequestStop (sh, ds) = Some (proc_poison sh, ds)"
| "exec_action Wake (sh, ds) = map_option (\<lambda>(sh', sp). (sh', ds @ spawned sp)) (proc_wake sh)"

fun exec_script :: "action list \<Rightarrow> processor \<Rightarrow> processor option" where
  "exec_script [] p = Some p"
| "exec_script (a # as) p = (case exec_action a p of None \<Rightarrow> None | Some q \<Rightarrow> exec_script as q)"

lemma exec_action_pstep: "exec_action a p = Some q \<Longrightarrow> pstep p q"
  by (cases "(a, p)" rule: exec_action.cases)
    (auto intro: pstep.intros split: if_splits option.splits)

lemma exec_script_preach: "exec_script as p = Some q \<Longrightarrow> preach p \<Longrightarrow> preach q"
proof (induction as arbitrary: p)
  case (Cons a as)
  then obtain r where "exec_action a p = Some r" "exec_script as r = Some q"
    by (auto split: option.splits)
  then show ?case using Cons preach.step exec_action_pstep by blast
qed simp

definition demo_self :: actor_ref where
  "demo_self = newClusterActorRef ''player'' ''p1'' 1 1"

definition demo_msg :: "nat \<Rightarrow> actor_context" where
  "demo_msg n = newContext demo_self None (UserMsg ''hello'' n) (of_nat n)"

definition demo_asker :: actor_ref where
  "demo_asker = newReplyRef 9 ''10.0.0.1:80'' 1"

definition demo_ask :: actor_context where
  "demo_ask = newContext demo_self (Some demo_asker) (UserMsg ''hello'' 1) 9"

definition demo_run :: "action list \<Rightarrow> processor option" where
  "demo_run as = (case buildProcessor demo_self 2 4 False False 7 of None \<Rightarrow> None
     | Some sh \<Rightarrow> exec_script as (sh, []))"

lemma demo_run_preach: "demo_run as = Some p \<Longrightarrow> preach p"
proof -
  assume "demo_run as = Some p"
  then obtain sh where "buildProcessor demo_self 2 4 False False 7 = Some sh"
    "exec_script as (sh, []) = Some p" by (auto simp: demo_run_def split: option.splits)
  then show "preach p"
    using exec_script_preach preach.start [of 2 4 demo_self False False 7 sh] by simp
qed

text \<open>
  Four executions: an actor that has started and is running its first handler; one whose first
  handler waits in \<open>Ask\<close> while a successor has drained and gone to sleep; one that was stopped
  with a message of an ask still queued; and one whose \<open>Started\<close> panics.
\<close>

abbreviation acts :: "nat \<Rightarrow> nat \<Rightarrow> action list" where
  "acts n i \<equiv> replicate n (Act i UReturn)"

definition script_handler :: "action list" where
  "script_handler = Wake # acts 8 0 @ [Send (demo_msg 1), Send (demo_msg 2)] @ acts 5 0"

definition script_ask :: "action list" where
  "script_ask = script_handler @ [Wake, Wake, Act 0 UAsk] @ acts 1 0 @ acts 14 1"

definition script_stop :: "action list" where
  "script_stop = Wake # acts 8 0 @ [RequestStop, Wake] @ acts 8 0 @ [Send demo_ask, Wake] @ acts 10 0"

definition script_fail :: "action list" where
  "script_fail = Wake # acts 5 0 @ [Act 0 UPanic] @ acts 10 0"

definition run_holds :: "action list \<Rightarrow> (shared \<Rightarrow> drainer list \<Rightarrow> bool) \<Rightarrow> bool" where
  "run_holds as P = (case demo_run as of None \<Rightarrow> False | Some (sh, ds) \<Rightarrow> P sh ds)"

lemma run_holdsE:
  assumes "run_holds as P"
  obtains sh ds where "demo_run as = Some (sh, ds)" "preach (sh, ds)" "P sh ds"
  using assms demo_run_preach by (auto simp: run_holds_def split: option.splits)

lemma script_handler_run: "run_holds script_handler (\<lambda>sh ds.
    map d_pc ds = [DUser (InReceive (demo_msg 1))] \<and> rb_list (sh_mailbox sh) = [demo_msg 2])"
  by code_simp

lemma script_ask_run: "run_holds script_ask (\<lambda>sh ds.
    map d_pc ds = [DSuspended (InReceive (demo_msg 1)), DDone] \<and> sh_waking sh = 0 \<and>
    length (sh_handled sh) = 3)"
  by code_simp

lemma script_stop_run: "run_holds script_stop (\<lambda>sh ds.
    map d_pc ds = [DDone] \<and> sh_waking sh = 0 \<and> sh_lifecycleState sh = ActorStopped \<and>
    sh_flushed sh = [demo_ask])"
  by code_simp

end
