(* ===== verification/Processor_Properties.thy ===== *)
theory Processor_Properties
  imports Processor_Script
begin

section \<open>What the processor guarantees\<close>

text \<open>
  The theorems about every reachable state of a processor, under every interleaving of senders,
  stop requests, drainers and user code. They follow from the invariants of the theories before;
  each witness plays one of the concrete executions.
\<close>

lemmas reach_simps = inv_user_def inv_all_def inv_proc_def

lemma preachD:
  assumes "preach (sh, ds)"
  shows "inv_count (sh, ds)" "inv_life (sh, ds)" "inv_log (sh, ds)" "inv_ident (sh, ds)"
    "inv_closed (sh, ds)" "inv_wake (sh, ds)" "inv_trace (sh, ds)" "inv_dead (sh, ds)"
  using preach_inv_user [OF assms] by (simp_all add: reach_simps)

lemma user_holds: "pc_user pc \<Longrightarrow> pc_holds pc"
  by (cases pc) auto

subsection \<open>Exclusion\<close>

text \<open>
  C2. User code of one actor (\<open>Started\<close>, \<open>Receive\<close>, \<open>PreStop\<close>) never runs on two goroutines at
  once, although a handler waiting in \<open>Ask\<close> lets other handlers run: two drainers in user code are
  the same drainer, it holds the execution permit, and the gate has recorded exactly this goroutine
  and its execution as the running one.
\<close>

theorem actor_code_exclusive:
  assumes "preach (sh, ds)" and "i < length ds" and "pc_user (d_pc (ds ! i))"
  shows "\<not> sh_permit sh \<and> sh_executionOwnerID sh = Suc i \<and> sh_executingCall sh = Some (Suc i) \<and>
     (\<forall>j < length ds. pc_user (d_pc (ds ! j)) \<longrightarrow> j = i)"
proof -
  note D = preachD [OF assms(1)]
  have h: "holds (ds ! i)" using assms(3) by (rule user_holds)
  have "j = i" if "j < length ds" "pc_user (d_pc (ds ! j))" for j
    using holder_unique [OF D(1) that(1) assms(2) user_holds [OF that(2)] h] .
  moreover have "sh_executionOwnerID sh = Suc i \<and> sh_executingCall sh = Some (Suc i)"
    using D(4) assms(2) h by (simp add: inv_ident_def)
  ultimately show ?thesis using inv_countD(3) [OF D(1) assms(2) h] by blast
qed

theorem actor_code_exclusive_witness:
  "\<exists>sh ds. demo_run script_handler = Some (sh, ds) \<and> pc_user (d_pc (ds ! 0)) \<and>
     \<not> sh_permit sh \<and> sh_executionOwnerID sh = 1"
proof -
  obtain sh ds where r: "demo_run script_handler = Some (sh, ds)" "preach (sh, ds)"
      "map d_pc ds = [DUser (InReceive (demo_msg 1))]"
    by (rule run_holdsE [OF script_handler_run]) metis
  then have l: "0 < length ds" "pc_user (d_pc (ds ! 0))" by auto
  show ?thesis using actor_code_exclusive [OF r(2) l] r(1) l by auto
qed

text \<open>
  A mailbox has a single consumer: at most one drainer owns the draining, exactly one does while
  the status is running and none while it is idle, and a drainer that is about to pop (in the drain
  loop or in the flush of a stop) is that owner.
\<close>

lemma single_drain_owner:
  assumes "preach (sh, ds)"
  shows "num owner ds \<le> 1 \<and> (sh_drainStatus sh = DrainRunning \<longrightarrow> num owner ds = 1) \<and>
     (sh_drainStatus sh = DrainIdle \<longrightarrow> num owner ds = 0) \<and>
     (\<forall>d \<in> set ds. d_pc d = DPop \<or> (\<exists>sc. d_pc d = LFlush sc) \<longrightarrow> owner d)"
  using preachD(1) [OF assms]
  by (auto simp: inv_count_def inv_owner_def inv_local_def d_ok_def owner_def)

subsection \<open>Messages\<close>

text \<open>
  C4. No accepted message is lost, duplicated or reordered: at every moment the messages the mailbox
  ever accepted are, in this order, those handed to the execution, those flushed to the dead letters
  by a stop, the one a drainer has popped and not yet dispatched (at most one), and those still
  queued. The first of them is the startup message.
\<close>

theorem accepted_messages_accounted:
  assumes "preach (sh, ds)"
  shows "sh_handled sh @ sh_flushed sh @ in_flight ds @ rb_list (sh_mailbox sh) = sh_accepted sh \<and>
     length (in_flight ds) \<le> 1 \<and> sh_accepted sh \<noteq> [] \<and> is_startup sh (hd (sh_accepted sh))"
proof -
  note D = preachD [OF assms]
  have "length (in_flight ds) \<le> 1"
  proof (cases "\<exists>i < length ds. pc_flight (d_pc (ds ! i)) \<noteq> []")
    case True
    then obtain i where i: "i < length ds" "pc_flight (d_pc (ds ! i)) \<noteq> []" by blast
    have "in_flight ds = pc_flight (d_pc (ds ! i))"
      using in_flight_owner [OF D(1) i(1)] flight_owner_pc [OF inv_countD(1) [OF D(1) i(1)] i(2)] .
    then show ?thesis by (cases "d_pc (ds ! i)") auto
  next
    case False
    then have "in_flight ds = []" by (auto simp: in_flight_def in_set_conv_nth)
    then show ?thesis by simp
  qed
  then show ?thesis using D(3) by (simp add: inv_log_def)
qed

theorem accepted_messages_accounted_witness:
  "\<exists>sh ds. demo_run script_handler = Some (sh, ds) \<and> length (sh_accepted sh) = 3 \<and>
     sh_handled sh @ sh_flushed sh @ in_flight ds @ [demo_msg 2] = sh_accepted sh"
proof -
  have "run_holds script_handler (\<lambda>sh ds. length (sh_accepted sh) = 3 \<and>
      rb_list (sh_mailbox sh) = [demo_msg 2])" by code_simp
  then obtain sh ds where r: "demo_run script_handler = Some (sh, ds)" "preach (sh, ds)"
      "length (sh_accepted sh) = 3 \<and> rb_list (sh_mailbox sh) = [demo_msg 2]"
    by (rule run_holdsE)
  then show ?thesis using accepted_messages_accounted [OF r(2)] by auto
qed

text \<open>
  C16. The hooks run in the documented order. Before the startup message has been handled nothing
  ran; while the actor is started the trace is \<open>Started\<close>, which returned, followed by one \<open>Receive\<close> for every
  handled message that is not one of the framework's own two, in the order of their acceptance. Once it is
  stopped there are three cases. If \<open>Started\<close> returned, the same trace is followed by one \<open>PreStop\<close>. If \<open>Started\<close>
  ran and did not return, nothing else ran: no \<open>Receive\<close> and no \<open>PreStop\<close>. If it never ran, the
  registration was wanted and refused, and no hook ran at all. So \<open>PreStop\<close> runs exactly once after a
  successful start and never after a failed one. Last comes the release of the registration, exactly when
  one is owned and there is a way to release it.
\<close>

theorem hooks_in_order:
  assumes "preach (sh, ds)"
  shows "(sh_lifecycleState sh = ActorInitializing \<longrightarrow> sh_trace sh = []) \<and>
     (sh_lifecycleState sh = ActorStarted \<longrightarrow>
        sh_trace sh = EvStarted # EvStartReturned True #
          map EvReceive (filter (\<lambda>ctx. \<not> is_framework sh ctx) (sh_handled sh))) \<and>
     (sh_lifecycleState sh = ActorStopped \<longrightarrow>
        sh_trace sh =
          (if EvStartReturned True \<in> set (sh_trace sh)
           then EvStarted # EvStartReturned True #
             map EvReceive (filter (\<lambda>ctx. \<not> is_framework sh ctx) (sh_handled sh)) @ [EvPreStop]
           else if EvStarted \<in> set (sh_trace sh) then [EvStarted, EvStartReturned False] else []) @
          (if sh_clusterRegistrationOwned sh \<and> sh_unRegisterFromCluster sh then [EvUnregister] else []) \<and>
        (EvStarted \<in> set (sh_trace sh) \<longleftrightarrow> \<not> sh_registerToCluster sh \<or> sh_clusterRegistrationOwned sh) \<and>
        count_list (sh_trace sh) EvPreStop = (if EvStartReturned True \<in> set (sh_trace sh) then 1 else 0))"
proof -
  have T: "trace_life sh (sh_lifecycleState sh)" using preachD(7) [OF assms] by (simp add: inv_trace_def)
  have once: "count_list (map EvReceive cs) EvPreStop = 0" for cs by (induction cs) simp_all
  show ?thesis
  proof (cases "sh_lifecycleState sh = ActorStopped")
    case True
    then obtain u where u: "down_trace sh u" "sh_trace sh = u @ release_trace sh" using T by (auto simp: gone_trace_def)
    then consider "u = []" "refused sh" | "u = [EvStarted, EvStartReturned False]" "registration_done sh"
      | "u = up_trace sh @ [EvPreStop]" "registration_done sh"
      by (auto simp: down_trace_def failed_trace_def)
    then show ?thesis
      by cases (use True u(2) once in \<open>auto simp: up_trace_def received_def release_trace_def refused_def registration_done_def\<close>)
  qed (use T in \<open>auto simp: up_trace_def received_def\<close>)
qed

theorem hooks_in_order_witness:
  "(\<exists>sh ds. demo_run script_ask = Some (sh, ds) \<and> sh_lifecycleState sh = ActorStarted \<and>
      sh_trace sh = [EvStarted, EvStartReturned True, EvReceive (demo_msg 1), EvReceive (demo_msg 2)]) \<and>
   (\<exists>sh ds. demo_run script_stop = Some (sh, ds) \<and> sh_lifecycleState sh = ActorStopped \<and>
      sh_trace sh = [EvStarted, EvStartReturned True, EvPreStop]) \<and>
   (\<exists>sh ds. demo_run script_fail = Some (sh, ds) \<and> sh_lifecycleState sh = ActorStopped \<and>
      sh_trace sh = [EvStarted, EvStartReturned False])"
proof (intro conjI)
  let ?user = "\<lambda>sh. filter (\<lambda>ctx. \<not> is_framework sh ctx) (sh_handled sh)"
  have "run_holds script_ask (\<lambda>sh ds. sh_lifecycleState sh = ActorStarted \<and> ?user sh = [demo_msg 1, demo_msg 2])"
    by code_simp
  then obtain sh ds where r: "demo_run script_ask = Some (sh, ds)" "preach (sh, ds)"
      "sh_lifecycleState sh = ActorStarted \<and> ?user sh = [demo_msg 1, demo_msg 2]"
    by (rule run_holdsE)
  then show "\<exists>sh ds. demo_run script_ask = Some (sh, ds) \<and> sh_lifecycleState sh = ActorStarted \<and>
      sh_trace sh = [EvStarted, EvStartReturned True, EvReceive (demo_msg 1), EvReceive (demo_msg 2)]"
    using hooks_in_order [OF r(2)] by auto
next
  let ?down = "\<lambda>b sh (ds :: drainer list). sh_lifecycleState sh = ActorStopped \<and> \<not> sh_clusterRegistrationOwned sh \<and>
    EvStarted \<in> set (sh_trace sh) \<and> (EvStartReturned True \<in> set (sh_trace sh)) = b \<and>
    filter (\<lambda>ctx. \<not> is_framework sh ctx) (sh_handled sh) = []"
  have "run_holds script_stop (?down True)" by code_simp
  then obtain sh ds where r: "demo_run script_stop = Some (sh, ds)" "preach (sh, ds)" "?down True sh ds"
    by (rule run_holdsE)
  then show "\<exists>sh ds. demo_run script_stop = Some (sh, ds) \<and> sh_lifecycleState sh = ActorStopped \<and>
      sh_trace sh = [EvStarted, EvStartReturned True, EvPreStop]"
    using hooks_in_order [OF r(2)] by (intro exI [of _ sh] exI [of _ ds]) simp
  have "run_holds script_fail (?down False)" by code_simp
  then obtain sh ds where r: "demo_run script_fail = Some (sh, ds)" "preach (sh, ds)" "?down False sh ds"
    by (rule run_holdsE)
  then show "\<exists>sh ds. demo_run script_fail = Some (sh, ds) \<and> sh_lifecycleState sh = ActorStopped \<and>
      sh_trace sh = [EvStarted, EvStartReturned False]"
    using hooks_in_order [OF r(2)] by (intro exI [of _ sh] exI [of _ ds]) simp
qed

subsection \<open>Ask\<close>

text \<open>
  C23. \<open>BaseActor.Ask\<close> suspends exactly the handler that calls it. The gate identifies a goroutine as
  the running execution if and only if it is the drainer that holds the permit; from \<open>Started\<close> and
  \<open>PreStop\<close> (and from any goroutine that does not hold the permit) \<open>Ask\<close> changes nothing; from
  \<open>Receive\<close> it hands the draining over to one successor the first time and to none afterwards.
\<close>

theorem ask_only_from_handler:
  assumes "preach (sh, ds)"
  shows "(\<forall>g. currentExecution g sh \<noteq> None \<longleftrightarrow> (\<exists>i < length ds. g = Suc i \<and> holds (ds ! i))) \<and>
     (\<forall>i < length ds. \<forall>u. d_pc (ds ! i) = DUser u \<longrightarrow> local_step UAsk (Suc i) sh (ds ! i) =
        (case u of
           InReceive ctx \<Rightarrow> Some (sh, (ds ! i)\<lparr>d_pc := DSuspendLeave u, d_transferred := True\<rparr>,
                                \<not> d_transferred (ds ! i))
         | _ \<Rightarrow> Some (sh, ds ! i, False)))"
proof (intro conjI allI impI)
  note D = preachD [OF assms]
  show cur: "currentExecution g sh \<noteq> None \<longleftrightarrow> (\<exists>i < length ds. g = Suc i \<and> holds (ds ! i))" for g
  proof (cases "sh_permit sh")
    case True
    then have "num holds ds = 0" using D(1) by (simp add: inv_count_def inv_permit_def)
    then show ?thesis using D(4) True by (auto simp: num_zero_iff inv_ident_def currentExecution_def)
  next
    case False
    then have "num holds ds \<noteq> 0" using D(1) by (simp add: inv_count_def inv_permit_def)
    then obtain k where k: "k < length ds" "holds (ds ! k)" by (auto simp: num_zero_iff in_set_conv_nth)
    then have id: "sh_executionOwnerID sh = Suc k \<and> sh_executingCall sh = Some (Suc k)"
      using D(4) unfolding inv_ident_def fst_conv snd_conv by (elim conjE allE [of _ k]) simp
    then have "currentExecution g sh \<noteq> None \<longleftrightarrow> g = Suc k" by (auto simp: currentExecution_def)
    moreover have "i = k" if "i < length ds" "holds (ds ! i)" for i
      by (rule holder_unique [OF D(1) that(1) k(1) that(2) k(2)])
    ultimately show ?thesis using k by blast
  qed
  fix i u assume i: "i < length ds" "d_pc (ds ! i) = DUser u"
  then obtain e where e: "currentExecution (Suc i) sh = Some e" using cur [of "Suc i"] by auto
  show "local_step UAsk (Suc i) sh (ds ! i) =
      (case u of InReceive ctx \<Rightarrow> Some (sh, (ds ! i)\<lparr>d_pc := DSuspendLeave u, d_transferred := True\<rparr>,
          \<not> d_transferred (ds ! i)) | _ \<Rightarrow> Some (sh, ds ! i, False))"
    using i(2) e inv_countD(1) [OF D(1) i(1)]
    by (cases u)
      (simp_all add: local_step_def step_receive_def step_start_def step_stop_def step_ask_def d_ok_def)
qed

theorem ask_only_from_handler_witness:
  "\<exists>sh ds. demo_run script_handler = Some (sh, ds) \<and>
     map_option (\<lambda>(sh', d', sp). (d_pc d', sp)) (local_step UAsk 1 sh (ds ! 0))
       = Some (DSuspendLeave (InReceive (demo_msg 1)), \<not> d_transferred (ds ! 0))"
proof -
  obtain sh ds where r: "demo_run script_handler = Some (sh, ds)" "preach (sh, ds)"
      "map d_pc ds = [DUser (InReceive (demo_msg 1))]"
    by (rule run_holdsE [OF script_handler_run]) metis
  then have l: "0 < length ds" "d_pc (ds ! 0) = DUser (InReceive (demo_msg 1))" by auto
  show ?thesis using ask_only_from_handler [OF r(2)] r(1) l by fastforce
qed

subsection \<open>Progress\<close>

lemma drainers_progress:
  assumes "preach (sh, ds)" and ex: "\<exists>d \<in> set ds. d_pc d \<noteq> DDone"
  shows "\<exists>i < length ds. \<forall>c. local_step c (Suc i) sh (ds ! i) \<noteq> None"
proof -
  note D = preachD [OF assms(1)]
  have en: "local_step c (Suc i) sh (ds ! i) = None \<longleftrightarrow>
      d_pc (ds ! i) = DDone \<or> (pc_enters (d_pc (ds ! i)) \<and> \<not> sh_permit sh)"
    if "i < length ds" for i c
    using local_step_enabled inv_countD(3,4) [OF D(1) that] by blast
  show ?thesis
  proof (cases "sh_permit sh")
    case True
    obtain k where "k < length ds" "d_pc (ds ! k) \<noteq> DDone" using ex by (auto simp: in_set_conv_nth)
    then show ?thesis using en [of k] True by blast
  next
    case False
    then have "num holds ds \<noteq> 0" using D(1) by (simp add: inv_count_def inv_permit_def)
    then obtain k where k: "k < length ds" "holds (ds ! k)" by (auto simp: num_zero_iff in_set_conv_nth)
    then have "d_pc (ds ! k) \<noteq> DDone" "\<not> pc_enters (d_pc (ds ! k))" by (cases "d_pc (ds ! k)"; auto)+
    then show ?thesis using en k(1) by blast
  qed
qed

text \<open>
  Nothing in the processor panics or deadlocks: a drainer that has not ended can take its next
  step whatever the user code does, unless it waits for the execution permit while another drainer
  holds it; and as long as some drainer has not ended, one of them can step.
\<close>

lemma drainers_never_stuck:
  assumes "preach (sh, ds)"
  shows "(\<forall>i < length ds. \<forall>c. local_step c (Suc i) sh (ds ! i) = None \<longleftrightarrow>
        d_pc (ds ! i) = DDone \<or> (pc_enters (d_pc (ds ! i)) \<and> \<not> sh_permit sh)) \<and>
     ((\<exists>d \<in> set ds. d_pc d \<noteq> DDone) \<longrightarrow>
        (\<exists>i < length ds. \<forall>c. local_step c (Suc i) sh (ds ! i) \<noteq> None))"
  using drainers_progress [OF assms] local_step_enabled inv_countD(3,4) [OF preachD(1) [OF assms]]
  by blast

definition at_rest :: "shared \<Rightarrow> drainer list \<Rightarrow> bool" where
  "at_rest sh ds \<longleftrightarrow> sh_waking sh = 0 \<and>
     (\<forall>d \<in> set ds. d_pc d = DDone \<or> (\<exists>u. d_pc d = DSuspended u))"

lemma at_rest_no_owner:
  assumes "preach (sh, ds)" and "at_rest sh ds"
  shows "num owner ds = 0" and "in_flight ds = []"
proof -
  have "\<not> owner d \<and> pc_flight (d_pc d) = []" if d: "d \<in> set ds" for d
  proof -
    have "d_ok d" using d preachD(1) [OF assms(1)] by (simp add: inv_count_def inv_local_def)
    moreover have "d_pc d = DDone \<or> (\<exists>u. d_pc d = DSuspended u)"
      using d assms(2) by (simp add: at_rest_def)
    ultimately show ?thesis by (auto simp: owner_def d_ok_def)
  qed
  then show "num owner ds = 0" "in_flight ds = []" by (auto simp: num_zero_iff in_flight_def)
qed

lemma rest_facts:
  assumes "preach (sh, ds)" and "at_rest sh ds"
  shows "rb_list (sh_mailbox sh) = [] \<and> sh_handled sh @ sh_flushed sh = sh_accepted sh \<and>
     sh_lifecycleState sh \<noteq> ActorInitializing \<and>
     (sh_stopRequested sh \<and> sh_unfinishedCalls sh = 0 \<longrightarrow> sh_lifecycleState sh = ActorStopped)"
proof -
  note D = preachD [OF assms(1)] and R = at_rest_no_owner [OF assms]
  have st: "sh_drainStatus sh = DrainIdle \<or> sh_lifecycleState sh = ActorStopped"
    using D(1) R(1) inv_lifeD(1) [OF D(2)]
    by (cases "sh_drainStatus sh") (auto simp: inv_count_def inv_owner_def)
  have none: "\<not> pc_sees_mail (d_pc d)" "\<not> pc_sees_stop (d_pc d)" "\<not> pc_flushing (d_pc d)"
    if "d \<in> set ds" for d
    using that assms(2) by (auto simp: at_rest_def)
  have mail: "rb_list (sh_mailbox sh) = []"
    using st D(5,6) none assms(2) unfolding inv_closed_def inv_wake_def at_rest_def by auto
  have stop: "sh_lifecycleState sh = ActorStopped" if "stop_due sh"
    using st that D(6) none assms(2) unfolding inv_wake_def at_rest_def by auto
  have all: "sh_handled sh @ sh_flushed sh = sh_accepted sh" "sh_handled sh \<noteq> [] \<longleftrightarrow> sh_lifecycleState sh \<noteq> ActorInitializing"
      "sh_flushed sh \<noteq> [] \<longrightarrow> sh_lifecycleState sh = ActorStopped" "sh_accepted sh \<noteq> []"
    using D(3) mail R(2) by (auto simp: inv_log_def)
  then have "sh_lifecycleState sh \<noteq> ActorInitializing" by auto
  then show ?thesis using mail all stop by (auto simp: stop_due_def)
qed

text \<open>
  C5. No lost wake-up and no lost stop: when every caller has made its \<open>schedule\<close> and every drainer
  has ended or waits in \<open>Ask\<close>, the mailbox is empty, no message is in flight, the startup message
  was handled, and if a stop was requested and no call is unfinished the actor has stopped.
\<close>

theorem no_lost_wakeup:
  assumes "preach (sh, ds)" and "at_rest sh ds"
  shows "rb_list (sh_mailbox sh) = [] \<and> sh_handled sh @ sh_flushed sh = sh_accepted sh \<and>
     sh_lifecycleState sh \<noteq> ActorInitializing \<and>
     (sh_stopRequested sh \<and> sh_unfinishedCalls sh = 0 \<longrightarrow> sh_lifecycleState sh = ActorStopped)"
  by (rule rest_facts [OF assms])

theorem no_lost_wakeup_witness:
  "\<exists>sh ds. demo_run script_ask = Some (sh, ds) \<and> at_rest sh ds \<and> rb_list (sh_mailbox sh) = []"
proof -
  obtain sh ds where r: "demo_run script_ask = Some (sh, ds)" "preach (sh, ds)"
      "map d_pc ds = [DSuspended (InReceive (demo_msg 1)), DDone]" "sh_waking sh = 0"
    by (rule run_holdsE [OF script_ask_run]) metis
  then have "at_rest sh ds" by (auto simp: at_rest_def)
  then show ?thesis using no_lost_wakeup [OF r(2)] r(1) by blast
qed

subsection \<open>Stopping\<close>

text \<open>Who is answered when a message becomes a dead letter, spelled out.\<close>

lemma letter_reply_answers:
  "letter_reply = (\<lambda>l. [(s, ErrCodeMsg (WithErr (''ask target mailbox unavailable: '' @ reason_text (dl_Reason l)))).
     Some s \<leftarrow> [dl_Sender l], isAsk s])"
  by (simp add: fun_eq_iff letter_reply_def unavailable_reply_def split: option.split)

lemma stopped_answer:
  "unavailable_reply ReasonStopped sender =
     [(s, ErrCodeMsg (WithErr (''ask target mailbox unavailable: actor stopped''))). Some s \<leftarrow> [sender], isAsk s]"
  by (simp add: unavailable_reply_def split: option.split)

text \<open>
  C21. A stop loses nothing silently. Once the actor is stopped and its flush is over, every message
  that was ever accepted was handed to the execution or flushed; the flushed ones are among the dead
  letters in their order, each with its target, sender, content and serial number and the reason
  \<open>actor stopped\<close>. The senders that were answered are exactly the asks among the senders of the dead letters, in
  their order, each with an error that names the reason. The mailbox is empty and closed, no handler is running
  or waiting, and every later send is accepted by nobody, becomes a dead letter at once and, when it comes from
  an ask, is answered with the error.
\<close>

theorem stop_flushes_everything:
  assumes "preach (sh, ds)" and "sh_lifecycleState sh = ActorStopped"
    and "\<forall>d \<in> set ds. \<not> pc_flushing (d_pc d)"
  shows "sh_handled sh @ sh_flushed sh = sh_accepted sh \<and>
     subseq (map (\<lambda>ctx. \<lparr>dl_Target = ctx_target ctx, dl_Owner = Some (sh_self sh), dl_Sender = ctx_sender ctx,
                dl_Message = ctx_message ctx, dl_MsgSnId = ctx_msgSnId ctx, dl_Reason = ReasonStopped\<rparr>) (sh_flushed sh))
            (sh_deadLetters sh) \<and>
     sh_askReplies sh = [(s, ErrCodeMsg (WithErr (''ask target mailbox unavailable: '' @ reason_text (dl_Reason l)))).
       l \<leftarrow> sh_deadLetters sh, Some s \<leftarrow> [dl_Sender l], isAsk s] \<and>
     rb_list (sh_mailbox sh) = [] \<and> rb_closed (sh_mailbox sh) \<and>
     (\<forall>d \<in> set ds. \<not> pc_user (d_pc d) \<and> (\<forall>u. d_pc d \<noteq> DSuspended u)) \<and>
     (\<forall>ctx. proc_send ctx sh = Some (sh\<lparr>
        sh_askReplies := sh_askReplies sh @ [(s, ErrCodeMsg (WithErr (''ask target mailbox unavailable: actor stopped''))).
          Some s \<leftarrow> [ctx_sender ctx], isAsk s],
        sh_deadLetters := sh_deadLetters sh @ [\<lparr>dl_Target = ctx_target ctx, dl_Owner = Some (sh_self sh),
          dl_Sender = ctx_sender ctx, dl_Message = ctx_message ctx, dl_MsgSnId = ctx_msgSnId ctx,
          dl_Reason = ReasonStopped\<rparr>]\<rparr>))"
proof -
  note D = preachD [OF assms(1)]
  have mail: "rb_list (sh_mailbox sh) = []" "rb_closed (sh_mailbox sh)"
    using D(5) assms(2,3) by (auto simp: inv_closed_def)
  have life: "life_ok (d_pc d) ActorStopped" if "d \<in> set ds" for d
    using D(2) assms(2) that by (simp add: inv_life_def)
  have "pc_flight (d_pc d) = [] \<and> \<not> pc_user (d_pc d) \<and> (\<forall>u. d_pc d \<noteq> DSuspended u)"
    if "d \<in> set ds" for d
    using life [OF that] by (cases "d_pc d") (auto elim: life_ok.elims)
  then have fl: "in_flight ds = []" "\<forall>d \<in> set ds. \<not> pc_user (d_pc d) \<and> (\<forall>u. d_pc d \<noteq> DSuspended u)"
    by (auto simp: in_flight_def)
  have wf: "rb_wf nil_context (sh_mailbox sh)" using D(1) by (simp add: inv_count_def inv_mailbox_def)
  have "proc_send ctx sh = Some (toDeadLetter ReasonStopped ctx sh)" for ctx
  proof -
    obtain r mb where p: "rb_push nil_context ctx (sh_mailbox sh) = Some (r, mb)"
      using rbm.push_total [OF wf] by blast
    then have "r = PushClosed" "mb = sh_mailbox sh"
      using rbm.push_closed_iff [OF wf p] rbm.push_refused [OF wf p] mail(2) by auto
    then show ?thesis using p by (simp add: proc_send_def)
  qed
  then have send: "proc_send ctx sh = Some (sh\<lparr>sh_askReplies := sh_askReplies sh @ unavailable_reply ReasonStopped (ctx_sender ctx),
      sh_deadLetters := sh_deadLetters sh @ [flush_letter sh ctx]\<rparr>)" for ctx
    by (simp add: toDeadLetter_def flush_letter_def)
  have dead: "subseq (map (flush_letter sh) (sh_flushed sh)) (sh_deadLetters sh)"
      "sh_askReplies sh = concat (map letter_reply (sh_deadLetters sh))" using D(8) by (simp_all add: inv_dead_def)
  show ?thesis
    using D(3) mail fl send dead(1) dead(2) [unfolded letter_reply_answers]
    by (simp add: inv_log_def flush_letter_def [abs_def] ctx_dead_letter_def stopped_answer)
qed

theorem stop_flushes_everything_witness:
  "\<exists>sh ds. demo_run script_stop = Some (sh, ds) \<and> sh_flushed sh = [demo_ask] \<and>
     sh_handled sh @ [demo_ask] = sh_accepted sh \<and>
     sh_askReplies sh = [(demo_asker, ErrCodeMsg (WithErr (''ask target mailbox unavailable: actor stopped'')))]"
proof -
  let ?P = "\<lambda>sh ds. map d_pc ds = [DDone] \<and> sh_lifecycleState sh = ActorStopped \<and> sh_flushed sh = [demo_ask] \<and>
      map (\<lambda>l. (dl_Sender l, dl_Reason l)) (sh_deadLetters sh) = [(Some demo_asker, ReasonStopped)] \<and> isAsk demo_asker"
  have "run_holds script_stop ?P" by code_simp
  then obtain sh ds where r: "demo_run script_stop = Some (sh, ds)" "preach (sh, ds)" "?P sh ds"
    by (rule run_holdsE)
  then have over: "sh_lifecycleState sh = ActorStopped" "\<forall>d \<in> set ds. \<not> pc_flushing (d_pc d)" by auto
  obtain l where "sh_deadLetters sh = [l]" "dl_Sender l = Some demo_asker" "dl_Reason l = ReasonStopped" using r(3) by auto
  then show ?thesis using stop_flushes_everything [OF r(2) over] r(1,3) by simp
qed

subsection \<open>Liveness\<close>

text \<open>
  C22. Left alone, a processor comes to rest: from any reachable state there is no infinite sequence
  of steps of its drainers and of callers finishing their \<open>schedule\<close>, when the user code does not ask
  again, under any interleaving.
\<close>

theorem processor_comes_to_rest: "wf {(q, p). preach p \<and> istep p q}"
  by (rule wf_subset [OF wf_inv_image [OF wf_work_order, of work]])
    (auto simp: inv_image_def intro: istep_decreases)

lemma isteps_preach: "istep\<^sup>*\<^sup>* p q \<Longrightarrow> preach p \<Longrightarrow> preach q"
  by (induction rule: rtranclp_induct) (auto intro: preach.step istep_pstep)

lemma istep_accepted: "istep p q \<Longrightarrow> preach p \<Longrightarrow> sh_accepted (fst q) = sh_accepted (fst p)"
proof (induction rule: istep.induct)
  case (drainer i ds c sh sh' d' sp)
  then show ?case
    by (cases "d_pc (ds ! i)") (auto simp: step_defs Let_def split: step_splits)
next
  case (wake sh sh' sp ds)
  then show ?case by (auto simp: proc_wake_def schedule_def split: if_splits)
qed

lemma isteps_accepted: "istep\<^sup>*\<^sup>* p q \<Longrightarrow> preach p \<Longrightarrow> sh_accepted (fst q) = sh_accepted (fst p)"
proof (induction rule: rtranclp_induct)
  case (step q r)
  then show ?case using istep_accepted [OF step.hyps(2)] isteps_preach [OF step.hyps(1)] by simp
qed simp

lemma isteps_end: "preach p \<Longrightarrow> \<exists>q. istep\<^sup>*\<^sup>* p q \<and> (\<forall>r. \<not> istep q r)"
proof (induction p rule: wf_induct_rule [OF wf_inv_image [OF wf_work_order, of work]])
  case (1 p)
  show ?case
  proof (cases "\<exists>r. istep p r")
    case True
    then obtain r where r: "istep p r" by blast
    then have "(r, p) \<in> inv_image work_order work" using istep_decreases 1 by (simp add: inv_image_def)
    then obtain q where "istep\<^sup>*\<^sup>* r q" "\<forall>r. \<not> istep q r"
      using "1.IH" preach.step [OF "1.prems" istep_pstep [OF r]] by blast
    then show ?thesis using converse_rtranclp_into_rtranclp [of istep, OF r] by blast
  next
    case False
    then show ?thesis by (intro exI [of _ p]) blast
  qed
qed

lemma final_all_done:
  assumes "preach (sh, ds)" and "\<forall>r. \<not> istep (sh, ds) r"
  shows "sh_waking sh = 0" and "\<forall>d \<in> set ds. d_pc d = DDone"
proof -
  show "sh_waking sh = 0"
  proof (rule ccontr)
    assume "sh_waking sh \<noteq> 0"
    then obtain sh' sp where "proc_wake sh = Some (sh', sp)" by (cases "proc_wake sh") (auto simp: proc_wake_def)
    then show False using assms(2) istep.wake by blast
  qed
  have "\<not> (\<exists>i < length ds. \<forall>c. local_step c (Suc i) sh (ds ! i) \<noteq> None)"
    using assms(2) istep.drainer [of _ ds UReturn sh] by fastforce
  then show "\<forall>d \<in> set ds. d_pc d = DDone" using drainers_progress [OF assms(1)] by blast
qed

text \<open>
  C3. Every accepted message is eventually dealt with: from any reachable state the processor's own
  steps lead to a state in which none is enabled, and in every such state all accepted messages were
  handed to the execution or, if the actor stopped, flushed to the dead letters; no call is
  unfinished, the actor is started or stopped, and it is stopped if a stop was requested.
\<close>

theorem accepted_messages_eventually_handled:
  assumes "preach p"
  shows "(\<exists>q. istep\<^sup>*\<^sup>* p q \<and> (\<forall>r. \<not> istep q r)) \<and>
     (\<forall>sh ds. istep\<^sup>*\<^sup>* p (sh, ds) \<and> (\<forall>r. \<not> istep (sh, ds) r) \<longrightarrow>
        sh_handled sh @ sh_flushed sh = sh_accepted (fst p) \<and> sh_unfinishedCalls sh = 0 \<and>
        (sh_lifecycleState sh = ActorStarted \<and> sh_flushed sh = [] \<or> sh_lifecycleState sh = ActorStopped) \<and>
        (sh_stopRequested sh \<longrightarrow> sh_lifecycleState sh = ActorStopped))"
proof (intro conjI allI impI)
  show "\<exists>q. istep\<^sup>*\<^sup>* p q \<and> (\<forall>r. \<not> istep q r)" by (rule isteps_end [OF assms])
  fix sh ds assume run: "istep\<^sup>*\<^sup>* p (sh, ds) \<and> (\<forall>r. \<not> istep (sh, ds) r)"
  have r: "preach (sh, ds)" using isteps_preach run assms by blast
  note D = preachD [OF r] and F = final_all_done [OF r conjunct2 [OF run]]
  have rest: "at_rest sh ds" using F by (simp add: at_rest_def)
  note W = rest_facts [OF r rest]
  show "sh_handled sh @ sh_flushed sh = sh_accepted (fst p)"
    using W isteps_accepted [OF conjunct1 [OF run] assms] by simp
  have "num in_call ds = 0" using F(2) by (simp add: num_zero_iff)
  then show u: "sh_unfinishedCalls sh = 0" using D(1) by (simp add: inv_count_def inv_calls_def)
  show "sh_stopRequested sh \<Longrightarrow> sh_lifecycleState sh = ActorStopped" using W u by blast
  have "\<not> pc_starting (d_pc (ds ! j)) \<and> \<not> pc_stopping (d_pc (ds ! j))" if "j < length ds" for j
    using bspec [OF F(2) nth_mem [OF that]] by simp
  then have "sh_lifecycleState sh \<noteq> ActorStarting" "sh_lifecycleState sh \<noteq> ActorStopping"
    using inv_lifeD(4,5) [OF D(2)] by blast+
  then show "sh_lifecycleState sh = ActorStarted \<and> sh_flushed sh = [] \<or> sh_lifecycleState sh = ActorStopped"
    using W D(3) by (cases "sh_lifecycleState sh") (auto simp: inv_log_def)
qed

theorem accepted_messages_eventually_handled_witness:
  "\<exists>p q. demo_run script_handler = Some p \<and> istep\<^sup>*\<^sup>* p q \<and>
     sh_handled (fst q) @ sh_flushed (fst q) = sh_accepted (fst p)"
proof -
  obtain sh ds where r: "demo_run script_handler = Some (sh, ds)" "preach (sh, ds)"
    by (rule run_holdsE [OF script_handler_run])
  obtain sh' ds' where "istep\<^sup>*\<^sup>* (sh, ds) (sh', ds')" "\<forall>r. \<not> istep (sh', ds') r"
    using accepted_messages_eventually_handled [OF r(2)] by (metis surj_pair)
  then show ?thesis
    using accepted_messages_eventually_handled [OF r(2)] r(1) by (metis fst_conv)
qed

end
