(* ===== verification/Addr_Hash.thy ===== *)
theory Addr_Hash
  imports Grain_Prelude "HOL-Library.List_Lexorder" "HOL-Library.Char_ord"
begin

unbundle bit_operations_syntax

section \<open>Which node owns a grain: addr_hash.go\<close>

text \<open>
  Rendezvous hashing: every node scores every candidate address with a hash of the grain's name and
  the address, and the highest score owns the grain. The theory models the hash on 32-bit words, the
  single-pass selection, and shows that the selection is the maximum of a total order on the
  candidate addresses, whatever the order of the nodes, and what a change of the membership moves.
  Strings are byte strings; \<open><\<close> on them is Go's, lexicographic by byte.
\<close>

subsection \<open>The hash\<close>

definition fnvOffsetBasis32 :: u32 where "fnvOffsetBasis32 = 2166136261"
definition fnvPrime32 :: u32 where "fnvPrime32 = 16777619"

fun fnv32aAdd :: "u32 \<Rightarrow> string \<Rightarrow> u32" where
  "fnv32aAdd h [] = h"
| "fnv32aAdd h (c # cs) = fnv32aAdd ((h XOR of_char c) * fnvPrime32) cs"

definition fnv32aStart :: "string \<Rightarrow> u32" where
  "fnv32aStart s = fnv32aAdd fnvOffsetBasis32 s"

definition fnv32aTwo :: "string \<Rightarrow> string \<Rightarrow> u32" where
  "fnv32aTwo a b = fnv32aAdd (fnv32aStart a) b"

definition fmix32 :: "u32 \<Rightarrow> u32" where
  "fmix32 h =
     (let h = h XOR drop_bit 16 h;
          h = h * 0x85ebca6b;
          h = h XOR drop_bit 13 h;
          h = h * 0xc2b2ae35
      in h XOR drop_bit 16 h)"

subsection \<open>The selection\<close>

record tNodeState =
  ns_NodeId :: u64
  ns_Address :: string
  ns_Version :: string
  ns_Time :: string
  ns_Kinds :: "string list"

text \<open>The loop of \<open>CalcAddrByKind8Name\<close>, with its two variables.\<close>

fun calc_loop :: "u32 \<Rightarrow> string \<Rightarrow> u32 \<times> string \<Rightarrow> tNodeState list \<Rightarrow> u32 \<times> string" where
  "calc_loop nameHash kind (maxScore, maxAddr) [] = (maxScore, maxAddr)"
| "calc_loop nameHash kind (maxScore, maxAddr) (node # nodes) =
     (if kind \<notin> set (ns_Kinds node) then calc_loop nameHash kind (maxScore, maxAddr) nodes
      else if ns_Address node = [] then calc_loop nameHash kind (maxScore, maxAddr) nodes
      else let score = fmix32 (fnv32aAdd nameHash (ns_Address node)) in
        if score > maxScore \<or> (score = maxScore \<and> (maxAddr = [] \<or> ns_Address node < maxAddr))
        then calc_loop nameHash kind (score, ns_Address node) nodes
        else calc_loop nameHash kind (maxScore, maxAddr) nodes)"

definition CalcAddrByKind8Name :: "tNodeState list \<Rightarrow> string \<Rightarrow> string \<Rightarrow> string" where
  "CalcAddrByKind8Name clusterNodes kind name =
     snd (calc_loop (fnv32aStart name) kind (0, []) clusterNodes)"

subsection \<open>The hash: lemmas\<close>

lemma fnv32aAdd_append: "fnv32aAdd h (a @ b) = fnv32aAdd (fnv32aAdd h a) b"
  by (induction h a rule: fnv32aAdd.induct) auto

lemma drop_bit_beyond: "drop_bit 32 (h :: u32) = 0"
  by (rule bit_eqI) (simp add: bit_drop_bit_eq impossible_bit)

lemma unshift16: "(h XOR drop_bit 16 h) XOR drop_bit 16 (h XOR drop_bit 16 h) = (h :: u32)"
  by (simp add: drop_bit_xor drop_bit_drop_bit drop_bit_beyond ac_simps flip: xor.assoc)

lemma drop_bit_39: "drop_bit 39 (h :: u32) = 0"
  by (rule bit_eqI) (simp add: bit_drop_bit_eq impossible_bit)

definition unshift13 :: "u32 \<Rightarrow> u32" where
  "unshift13 x = x XOR drop_bit 13 x XOR drop_bit 26 x"

lemma unshift13: "unshift13 (h XOR drop_bit 13 h) = h"
proof -
  have "bit (unshift13 (h XOR drop_bit 13 h)) i = bit h i" if "i < 32" for i
    using that drop_bit_39 [of h]
    by (auto simp: unshift13_def bit_simps add.commute [of 13] add.assoc impossible_bit)
  then show ?thesis by (intro bit_word_eqI) simp
qed

definition fmix32_inverse :: "u32 \<Rightarrow> u32" where
  "fmix32_inverse h =
     (let h = h XOR drop_bit 16 h;
          h = h * 0x7ed1b41d;
          h = unshift13 h;
          h = h * 0xa5cb9243
      in h XOR drop_bit 16 h)"

lemma fmix32_inverse: "fmix32_inverse (fmix32 h) = h"
proof -
  have "(0x85ebca6b * 0xa5cb9243 :: u32) = 1" "(0xc2b2ae35 * 0x7ed1b41d :: u32) = 1" by code_simp+
  then have m: "x * 0x85ebca6b * 0xa5cb9243 = x" "x * 0xc2b2ae35 * 0x7ed1b41d = x" for x :: u32
    by (simp_all only: mult.assoc mult_1_right)
  show ?thesis
    by (simp only: fmix32_def fmix32_inverse_def Let_def unshift16 unshift13 m)
qed

subsection \<open>The selection is the best candidate\<close>

text \<open>
  The addresses that may own a grain of the kind, and the order among them: the higher score, and at
  equal scores the smaller address.
\<close>

definition candidates :: "tNodeState list \<Rightarrow> string \<Rightarrow> string set" where
  "candidates nodes kind = {ns_Address n |n. n \<in> set nodes \<and> kind \<in> set (ns_Kinds n) \<and> ns_Address n \<noteq> []}"

definition score :: "string \<Rightarrow> string \<Rightarrow> u32" where
  "score name addr = fmix32 (fnv32aTwo name addr)"

definition beats :: "string \<Rightarrow> string \<Rightarrow> string \<Rightarrow> bool" where
  "beats name a b \<longleftrightarrow> score name a > score name b \<or> (score name a = score name b \<and> a < b)"

definition owns :: "string set \<Rightarrow> string \<Rightarrow> string \<Rightarrow> bool" where
  "owns A name a \<longleftrightarrow> a \<in> A \<and> (\<forall>b \<in> A. b \<noteq> a \<longrightarrow> beats name a b)"

lemma beats_trans: "beats n a b \<Longrightarrow> beats n b c \<Longrightarrow> beats n a c"
  unfolding beats_def by (elim disjE conjE) (auto intro: less_trans)

lemma beats_total: "a \<noteq> b \<Longrightarrow> beats n a b \<or> beats n b a"
  unfolding beats_def using less_linear [of a b] less_linear [of "score n a" "score n b"] by metis

lemma beats_asym: "beats n a b \<Longrightarrow> \<not> beats n b a"
  unfolding beats_def by (elim disjE conjE) (auto dest: less_not_sym)

lemma owns_unique: "owns A n a \<Longrightarrow> owns A n b \<Longrightarrow> a = b"
  unfolding owns_def using beats_asym by metis

lemma candidates_Cons:
  "candidates (node # nodes) kind =
     (if kind \<in> set (ns_Kinds node) \<and> ns_Address node \<noteq> [] then {ns_Address node} else {}) \<union>
     candidates nodes kind"
  by (auto simp: candidates_def)

lemma candidates_nonempty: "a \<in> candidates nodes kind \<Longrightarrow> a \<noteq> []"
  by (auto simp: candidates_def)

text \<open>
  The state of the loop after it has seen the addresses \<open>A\<close>: nothing chosen, or the best of \<open>A\<close>
  with its score.
\<close>

definition chosen :: "string set \<Rightarrow> string \<Rightarrow> u32 \<times> string \<Rightarrow> bool" where
  "chosen A name st \<longleftrightarrow> (if A = {} then st = (0, []) else owns A name (snd st) \<and> fst st = score name (snd st))"

lemma chosen_step:
  assumes "chosen A name (ms, ma)" and "[] \<notin> A" and "addr \<noteq> []"
  shows "chosen (insert addr A) name
    (if score name addr > ms \<or> (score name addr = ms \<and> (ma = [] \<or> addr < ma))
     then (score name addr, addr) else (ms, ma))"
proof (cases "A = {}")
  case True
  then show ?thesis using assms by (auto simp: chosen_def owns_def word_gt_0)
next
  case False
  then have own: "owns A name ma" "ms = score name ma" using assms(1) by (auto simp: chosen_def)
  then have ma: "ma \<in> A" "ma \<noteq> []" using assms(2) by (auto simp: owns_def)
  have c: "(score name addr > ms \<or> (score name addr = ms \<and> (ma = [] \<or> addr < ma))) \<longleftrightarrow> beats name addr ma"
    using own(2) ma(2) by (auto simp: beats_def)
  show ?thesis
  proof (cases "beats name addr ma")
    case True
    then have "owns (insert addr A) name addr"
      using own(1) True beats_trans [OF True] unfolding owns_def by (metis insert_iff)
    then show ?thesis using True c by (simp add: chosen_def)
  next
    case False
    then have "owns (insert addr A) name ma"
      using own(1) beats_total [of addr ma name] unfolding owns_def by (metis insert_iff)
    then show ?thesis unfolding c using False own(2) by (simp add: chosen_def)
  qed
qed

lemma calc_loop_chosen:
  assumes "chosen A name st" and "[] \<notin> A"
  shows "chosen (A \<union> candidates nodes kind) name (calc_loop (fnv32aStart name) kind st nodes)"
  using assms
proof (induction nodes arbitrary: A st)
  case Nil
  then show ?case by (cases st) (simp add: candidates_def)
next
  case (Cons node nodes)
  obtain ms ma where st: "st = (ms, ma)" by (cases st)
  show ?case
  proof (cases "kind \<in> set (ns_Kinds node) \<and> ns_Address node \<noteq> []")
    case True
    let ?a = "ns_Address node"
    let ?st = "if score name ?a > ms \<or> (score name ?a = ms \<and> (ma = [] \<or> ?a < ma))
      then (score name ?a, ?a) else (ms, ma)"
    have "chosen (insert ?a A) name ?st" using chosen_step Cons.prems st True by blast
    then have "chosen (insert ?a A \<union> candidates nodes kind) name
        (calc_loop (fnv32aStart name) kind ?st nodes)"
      using Cons.IH [of "insert ?a A" ?st] Cons.prems(2) True by auto
    moreover have "calc_loop (fnv32aStart name) kind st (node # nodes)
        = calc_loop (fnv32aStart name) kind ?st nodes"
      using True by (auto simp: st Let_def score_def fnv32aTwo_def)
    ultimately show ?thesis using True by (simp add: candidates_Cons)
  next
    case False
    then show ?thesis using Cons by (auto simp: st candidates_Cons)
  qed
qed

lemma CalcAddr_chosen: "chosen (candidates nodes kind) name (calc_loop (fnv32aStart name) kind (0, []) nodes)"
  using calc_loop_chosen [of "{}" name "(0, [])" nodes kind] by (simp add: chosen_def)

lemma CalcAddr_owns:
  "candidates nodes kind \<noteq> {} \<Longrightarrow> owns (candidates nodes kind) name (CalcAddrByKind8Name nodes kind name)"
  using CalcAddr_chosen [of nodes kind name] by (simp add: chosen_def CalcAddrByKind8Name_def)

lemma CalcAddr_none:
  "candidates nodes kind = {} \<Longrightarrow> CalcAddrByKind8Name nodes kind name = []"
  using CalcAddr_chosen [of nodes kind name] by (simp add: chosen_def CalcAddrByKind8Name_def)

lemma CalcAddr_eq_iff:
  assumes "a \<noteq> []"
  shows "CalcAddrByKind8Name nodes kind name = a \<longleftrightarrow> owns (candidates nodes kind) name a"
proof (cases "candidates nodes kind = {}")
  case True
  then show ?thesis using assms by (auto simp: CalcAddr_none owns_def)
next
  case False
  then show ?thesis using CalcAddr_owns [OF False] owns_unique by blast
qed

subsection \<open>Properties\<close>

text \<open>
  C28. The node chosen for a grain is the best candidate: no address at all exactly when no node with
  an address hosts the kind, and otherwise the one candidate address whose score is higher than
  every other candidate's, or equal with a smaller address.
\<close>

theorem CalcAddr_is_best_candidate:
  "(CalcAddrByKind8Name nodes kind name = [] \<longleftrightarrow> candidates nodes kind = {}) \<and>
   (\<forall>a. a \<noteq> [] \<longrightarrow> (CalcAddrByKind8Name nodes kind name = a \<longleftrightarrow>
      a \<in> candidates nodes kind \<and>
      (\<forall>b \<in> candidates nodes kind. b \<noteq> a \<longrightarrow>
         fmix32 (fnv32aTwo name b) < fmix32 (fnv32aTwo name a) \<or>
         (fmix32 (fnv32aTwo name b) = fmix32 (fnv32aTwo name a) \<and> a < b))))"
proof -
  have "CalcAddrByKind8Name nodes kind name = [] \<longleftrightarrow> candidates nodes kind = {}"
    using CalcAddr_owns [of nodes kind name] CalcAddr_none [of nodes kind name]
      candidates_nonempty unfolding owns_def by blast
  then show ?thesis by (auto simp: CalcAddr_eq_iff owns_def beats_def score_def)
qed

theorem CalcAddr_is_best_candidate_witness:
  "CalcAddrByKind8Name [\<lparr>ns_NodeId = 1, ns_Address = ''n1:1'', ns_Version = [], ns_Time = [], ns_Kinds = [''k'']\<rparr>,
      \<lparr>ns_NodeId = 2, ns_Address = [], ns_Version = [], ns_Time = [], ns_Kinds = [''k'']\<rparr>] ''k'' ''g''
   = ''n1:1''"
proof -
  let ?ns = "[\<lparr>ns_NodeId = 1, ns_Address = ''n1:1'', ns_Version = [], ns_Time = [], ns_Kinds = [''k'']\<rparr>,
      \<lparr>ns_NodeId = 2, ns_Address = [], ns_Version = [], ns_Time = [], ns_Kinds = [''k'']\<rparr>]"
  have "candidates ?ns ''k'' = {''n1:1''}" by (simp add: candidates_Cons) (simp add: candidates_def)
  then show ?thesis using CalcAddr_is_best_candidate [of ?ns "''k''" "''g''"] by auto
qed

text \<open>
  C29. Every node agrees on the owner and a membership change moves as little as possible: the choice
  depends only on which nodes are members, not on their order or repetition; when nodes leave, a
  grain whose owner stays keeps it; when nodes join, a grain keeps its owner or moves to one of the
  newcomers.
\<close>

theorem CalcAddr_minimal_disruption:
  assumes "set old \<subseteq> set new"
  shows "(set new \<subseteq> set old \<longrightarrow> CalcAddrByKind8Name new kind name = CalcAddrByKind8Name old kind name) \<and>
    (CalcAddrByKind8Name new kind name \<in> candidates old kind \<longrightarrow>
       CalcAddrByKind8Name old kind name = CalcAddrByKind8Name new kind name) \<and>
    (CalcAddrByKind8Name new kind name = CalcAddrByKind8Name old kind name \<or>
     CalcAddrByKind8Name new kind name \<in> {ns_Address n |n. n \<in> set new - set old})"
proof -
  let ?C = "candidates old kind" and ?D = "candidates new kind"
  have sub: "?C \<subseteq> ?D" "?D \<subseteq> ?C \<union> {ns_Address n |n. n \<in> set new - set old}"
    using assms by (auto simp: candidates_def)
  have eq: "CalcAddrByKind8Name new kind name = CalcAddrByKind8Name old kind name" if "?C = ?D"
    using that CalcAddr_owns [of _ kind name] CalcAddr_none [of _ kind name] owns_unique
    by (cases "?C = {}") (simp, metis)
  have keep: "CalcAddrByKind8Name old kind name = CalcAddrByKind8Name new kind name"
    if "CalcAddrByKind8Name new kind name \<in> ?C"
  proof -
    have "owns ?D name (CalcAddrByKind8Name new kind name)"
      using that sub(1) by (intro CalcAddr_owns) auto
    then have "owns ?C name (CalcAddrByKind8Name new kind name)" using that sub(1) unfolding owns_def by blast
    then show ?thesis using CalcAddr_eq_iff candidates_nonempty [OF that] by blast
  qed
  have "CalcAddrByKind8Name new kind name = CalcAddrByKind8Name old kind name \<or>
     CalcAddrByKind8Name new kind name \<in> {ns_Address n |n. n \<in> set new - set old}"
  proof (cases "?D = {}")
    case True
    then show ?thesis using sub(1) by (simp add: CalcAddr_none)
  next
    case False
    then have "CalcAddrByKind8Name new kind name \<in> ?D" using CalcAddr_owns [OF False, of name] by (simp add: owns_def)
    then show ?thesis using keep sub(2) by auto
  qed
  moreover have "?C = ?D" if "set new \<subseteq> set old" using that assms by (auto simp: candidates_def)
  ultimately show ?thesis using eq keep by blast
qed

theorem CalcAddr_minimal_disruption_witness:
  "CalcAddrByKind8Name [\<lparr>ns_NodeId = 1, ns_Address = ''n1:1'', ns_Version = [], ns_Time = [], ns_Kinds = [''k'']\<rparr>,
       \<lparr>ns_NodeId = 2, ns_Address = ''n2:1'', ns_Version = [], ns_Time = [], ns_Kinds = []\<rparr>] ''k'' ''g''
   = CalcAddrByKind8Name [\<lparr>ns_NodeId = 1, ns_Address = ''n1:1'', ns_Version = [], ns_Time = [], ns_Kinds = [''k'']\<rparr>] ''k'' ''g''"
proof -
  let ?a = "\<lparr>ns_NodeId = 1 :: u64, ns_Address = ''n1:1'', ns_Version = [], ns_Time = [], ns_Kinds = [''k'']\<rparr>"
  let ?b = "\<lparr>ns_NodeId = 2 :: u64, ns_Address = ''n2:1'', ns_Version = [], ns_Time = [], ns_Kinds = []\<rparr>"
  have "set [?a] \<subseteq> set [?a, ?b]" by simp
  moreover have "CalcAddrByKind8Name [?a, ?b] ''k'' ''g'' \<in> candidates [?a] ''k''"
    by (auto simp: CalcAddrByKind8Name_def candidates_def word_gt_0)
  ultimately show ?thesis using CalcAddr_minimal_disruption [of "[?a]" "[?a, ?b]" "''k''" "''g''"] by metis
qed

text \<open>
  The split hash is the hash: resuming FNV-1a after the name and continuing with the address
  gives the hash of the concatenation, and the finalizer is injective, so it adds no ties between
  addresses (it has a left inverse).
\<close>

lemma fnv_split_and_fmix_injective:
  "fnv32aTwo a b = fnv32aStart (a @ b) \<and> inj fmix32 \<and> fmix32_inverse (fmix32 h) = h"
proof -
  have "inj fmix32" using fmix32_inverse by (rule inj_on_inverseI)
  then show ?thesis by (simp add: fnv32aTwo_def fnv32aStart_def fnv32aAdd_append fmix32_inverse)
qed

end
