(* ===== verification/Uuid.thy ===== *)
theory Uuid
  imports Grain_Prelude "HOL-Library.While_Combinator"
begin

unbundle bit_operations_syntax

section \<open>Identifiers: uuid/uuid.go, uuid/uuid_global.go\<close>

text \<open>
  A 64-bit id is 42 bits of milliseconds since the epoch, 10 bits of node and 12 bits of sequence.
  The monotonic clock is a parameter: \<open>since k\<close> is what the \<open>k\<close>-th reading of
  \<open>time.Since(baseMono).Milliseconds()\<close> gives, and an operation that reads the clock takes and
  returns the index of the next reading. The wait for the next millisecond is a loop that need not
  end, so its result is an option; that it ends is proved from the clock moving on.
\<close>

subsection \<open>Layout\<close>

definition totalBits :: nat where "totalBits = 64"
definition nodeBits :: nat where "nodeBits = 10"
definition stepBits :: nat where "stepBits = 12"
definition nodeMax :: u64 where "nodeMax = -1 XOR push_bit nodeBits (-1)"
definition stepMax :: u64 where "stepMax = -1 XOR push_bit stepBits (-1)"
definition timeShift :: nat where "timeShift = nodeBits + stepBits"
definition nodeShift :: nat where "nodeShift = stepBits"
definition epoch :: int where "epoch = 1735689600000"

lemmas layout_defs = totalBits_def nodeBits_def stepBits_def timeShift_def nodeShift_def

definition ParseSortVal :: "u64 \<Rightarrow> u64" where
  "ParseSortVal i = push_bit timeShift (drop_bit timeShift i) OR
     drop_bit (totalBits - stepBits) (push_bit (totalBits - stepBits) i)"

definition ParseTime :: "u64 \<Rightarrow> u64" where
  "ParseTime i = drop_bit timeShift i"

definition ParseNode :: "u64 \<Rightarrow> u64" where
  "ParseNode i = drop_bit (totalBits - timeShift + stepBits) (push_bit (totalBits - timeShift) i)"

definition ParseStep :: "u64 \<Rightarrow> u64" where
  "ParseStep i = drop_bit (totalBits - stepBits) (push_bit (totalBits - stepBits) i)"

subsection \<open>The generator\<close>

record UUID =
  uu_timestamp :: int
  uu_node :: u64
  uu_step :: u64
  uu_baseWall :: int

text \<open>\<open>wall\<close> is \<open>time.Now().UnixMilli()\<close> at construction.\<close>

definition NewUUID :: "u64 \<Rightarrow> int \<Rightarrow> UUID option" where
  "NewUUID node wall = (if node > nodeMax then None
     else Some \<lparr>uu_timestamp = 0, uu_node = node, uu_step = 0, uu_baseWall = max wall epoch\<rparr>)"

definition nowMs :: "(nat \<Rightarrow> int) \<Rightarrow> UUID \<Rightarrow> nat \<Rightarrow> int" where
  "nowMs since n k = wrap_int64 (uu_baseWall n + since k)"

definition wait_loop :: "(nat \<Rightarrow> int) \<Rightarrow> UUID \<Rightarrow> int \<Rightarrow> nat \<Rightarrow> (int \<times> nat) option" where
  "wait_loop since n now k =
     while_option (\<lambda>(now, k). now \<le> uu_timestamp n) (\<lambda>(now, k). (nowMs since n k, Suc k)) (now, k)"

definition make_id :: "int \<Rightarrow> u64 \<Rightarrow> u64 \<Rightarrow> u64" where
  "make_id now node step =
     push_bit timeShift (of_int now - of_int epoch) OR push_bit nodeShift node OR step"

definition Generate :: "(nat \<Rightarrow> int) \<Rightarrow> UUID \<Rightarrow> nat \<Rightarrow> (u64 \<times> UUID \<times> nat) option" where
  "Generate since n k =
     (let now = nowMs since n k;
          now = (if now < uu_timestamp n then uu_timestamp n else now)
      in if uu_timestamp n = now
         then let step = (uu_step n + 1) AND stepMax in
           (case (if step = 0 then wait_loop since n now (Suc k) else Some (now, Suc k)) of
              None \<Rightarrow> None
            | Some (now, k') \<Rightarrow>
                Some (make_id now (uu_node n) step, n\<lparr>uu_timestamp := now, uu_step := step\<rparr>, k'))
         else Some (make_id now (uu_node n) 0, n\<lparr>uu_timestamp := now, uu_step := 0\<rparr>, Suc k))"

text \<open>The package-level generator: \<open>None\<close> is the nil pointer, and using it panics.\<close>

definition uuid_Init :: "u64 \<Rightarrow> int \<Rightarrow> UUID option \<Rightarrow> UUID option \<times> bool" where
  "uuid_Init nodeId wall u = (case NewUUID nodeId wall of None \<Rightarrow> (u, False) | Some n \<Rightarrow> (Some n, True))"

definition global_Generate :: "(nat \<Rightarrow> int) \<Rightarrow> UUID option \<Rightarrow> nat \<Rightarrow> (u64 \<times> UUID \<times> nat) option option" where
  "global_Generate since u k = (case u of None \<Rightarrow> None | Some n \<Rightarrow> Some (Generate since n k))"

definition MaxNodeMax :: u64 where "MaxNodeMax = nodeMax"

definition GetAskStartId :: "UUID option \<Rightarrow> u64 option" where
  "GetAskStartId u = map_option (\<lambda>n. push_bit (totalBits - nodeBits) (uu_node n)) u"

fun generate_ids :: "(nat \<Rightarrow> int) \<Rightarrow> UUID \<Rightarrow> nat \<Rightarrow> nat \<Rightarrow> (u64 list \<times> UUID \<times> nat) option" where
  "generate_ids since n k 0 = Some ([], n, k)"
| "generate_ids since n k (Suc c) = (case Generate since n k of None \<Rightarrow> None
     | Some (i, n', k') \<Rightarrow> (case generate_ids since n' k' c of None \<Rightarrow> None
         | Some (is, n'', k'') \<Rightarrow> Some (i # is, n'', k'')))"

subsection \<open>The fields of an id\<close>

lemma nodeMax_val: "nodeMax = 1023" and stepMax_val: "stepMax = 4095"
  by (simp_all add: nodeMax_def stepMax_def layout_defs mask_eq_exp_minus_1)

lemma or_shifted:
  assumes "b < 2 ^ k"
  shows "push_bit k a OR b = push_bit k a + (b :: nat)"
proof -
  have "take_bit k b = b" using assms by (simp add: take_bit_nat_eq_self_iff)
  then have "k \<le> i \<Longrightarrow> \<not> bit b i" for i by (metis bit_take_bit_iff not_le)
  then have "push_bit k a AND b = 0"
    by (intro bit_eqI) (auto simp: bit_and_iff bit_push_bit_iff_nat)
  then show ?thesis by (simp add: disjunctive_add_eq_or)
qed

lemma unat_push: "unat w * 2 ^ k < 2 ^ 64 \<Longrightarrow> unat (push_bit k (w :: u64)) = push_bit k (unat w)"
  unfolding unsigned_push_bit_eq by (simp add: push_bit_eq_mult take_bit_nat_eq_self_iff)

lemma unat_make_id:
  assumes "epoch \<le> now" "now < epoch + 2 ^ 42" "unat node < 2 ^ 10" "unat step < 2 ^ 12"
  shows "unat (make_id now node step) = nat (now - epoch) * 2 ^ 22 + unat node * 2 ^ 12 + unat step"
proof -
  define T where "T = nat (now - epoch)"
  have T: "T < 2 ^ 42" using assms(1,2) by (simp add: T_def)
  have "(of_int now - of_int epoch :: u64) = of_int (now - epoch)" by simp
  also have "\<dots> = of_nat T" using assms(1) by (simp add: T_def)
  finally have w: "(of_int now - of_int epoch :: u64) = of_nat T" .
  have u: "unat (of_nat T :: u64) = T" using T by (simp add: unat_of_nat take_bit_nat_eq_self_iff)
  have n: "push_bit 12 (unat node) + unat step < 2 ^ 22"
    using assms(3,4) by (simp add: push_bit_eq_mult)
  have "unat (make_id now node step) = push_bit 22 T OR (push_bit 12 (unat node) OR unat step)"
    using assms(3) T unfolding make_id_def w
    by (simp add: layout_defs unsigned_or_eq unat_push u or.assoc)
  also have "\<dots> = push_bit 22 T + (push_bit 12 (unat node) + unat step)"
    using assms(4) n by (simp add: or_shifted)
  finally show ?thesis by (simp add: push_bit_eq_mult T_def)
qed

lemma unat_fields:
  "unat (ParseTime i) = unat i div 2 ^ 22"
  "unat (ParseNode i) = unat i mod 2 ^ 22 div 2 ^ 12"
  "unat (ParseStep i) = unat i mod 2 ^ 12"
proof -
  show "unat (ParseTime i) = unat i div 2 ^ 22"
    unfolding ParseTime_def unat_drop_bit_eq by (simp add: layout_defs drop_bit_eq_div)
  show "unat (ParseNode i) = unat i mod 2 ^ 22 div 2 ^ 12"
    unfolding ParseNode_def unat_drop_bit_eq unsigned_push_bit_eq
    using mod_mult_mult2 [of "unat i" "2 ^ 42" "2 ^ 22"]
      div_mult_mult2 [of "2 ^ 42" "unat i mod 2 ^ 22" "2 ^ 12"]
    by (simp add: layout_defs take_bit_eq_mod drop_bit_eq_div push_bit_eq_mult)
  show "unat (ParseStep i) = unat i mod 2 ^ 12"
    unfolding ParseStep_def unat_drop_bit_eq unsigned_push_bit_eq
    using mod_mult_mult2 [of "unat i" "2 ^ 52" "2 ^ 12"]
    by (simp add: layout_defs take_bit_eq_mod drop_bit_eq_div push_bit_eq_mult)
qed

lemma id_fields:
  assumes "epoch \<le> t" "t < epoch + 2 ^ 42" "unat n < 2 ^ 10" "unat s < 2 ^ 12"
  shows "unat (ParseTime (make_id t n s)) = nat (t - epoch) \<and> ParseNode (make_id t n s) = n \<and>
    ParseStep (make_id t n s) = s \<and>
    unat (ParseSortVal (make_id t n s)) = nat (t - epoch) * 2 ^ 22 + unat s"
proof -
  let ?i = "make_id t n s"
  note u = unat_make_id [OF assms]
  have low: "unat n * 2 ^ 12 + unat s < 2 ^ 22" using assms(3,4) by simp
  have time: "unat (ParseTime ?i) = nat (t - epoch)" using low by (simp add: unat_fields u)
  have "unat ?i mod 2 ^ 22 = unat n * 2 ^ 12 + unat s" using low by (simp add: u add.assoc)
  then have node: "unat (ParseNode ?i) = unat n" using assms(4) by (simp add: unat_fields)
  have "unat ?i mod 2 ^ 12 = unat s"
  proof -
    have "unat ?i = unat s + 2 ^ 12 * (nat (t - epoch) * 2 ^ 10 + unat n)" by (simp add: u algebra_simps)
    then show ?thesis using assms(4) by (simp only: mod_mult_self2) simp
  qed
  then have step: "unat (ParseStep ?i) = unat s" by (simp add: unat_fields)
  have T: "nat (t - epoch) * 2 ^ 22 < 2 ^ 64" using assms(1,2) by simp
  have "unat (ParseSortVal ?i) = push_bit 22 (unat (ParseTime ?i)) OR unat (ParseStep ?i)"
    using time T unat_push [of "ParseTime ?i" 22]
    by (simp add: ParseSortVal_def unsigned_or_eq layout_defs flip: ParseTime_def [unfolded layout_defs, simplified] ParseStep_def [unfolded layout_defs, simplified])
  also have "\<dots> = nat (t - epoch) * 2 ^ 22 + unat s"
    using assms(4) or_shifted [of "unat s" 22 "nat (t - epoch)"]
    by (simp add: time step push_bit_eq_mult)
  finally show ?thesis using time node step by (simp add: word_unat_eq_iff)
qed

text \<open>
  The fields of an id can be read back: for a time within the 42 bits after the epoch, a node
  of at most 10 bits and a step of at most 12 bits, \<open>ParseTime\<close>, \<open>ParseNode\<close> and \<open>ParseStep\<close> return
  exactly what the id was made of, and \<open>ParseSortVal\<close> orders ids by time and then step, whatever
  their nodes.
\<close>

lemma id_fields_round_trip:
  assumes "epoch \<le> t" "t < epoch + 2 ^ 42" "unat n < 2 ^ 10" "unat s < 2 ^ 12"
  shows "unat (ParseTime (make_id t n s)) = nat (t - epoch) \<and> ParseNode (make_id t n s) = n \<and>
    ParseStep (make_id t n s) = s \<and>
    unat (ParseSortVal (make_id t n s)) = nat (t - epoch) * 2 ^ 22 + unat s"
  using id_fields [OF assms] .

subsection \<open>The generator\<close>

text \<open>
  What the code relies on of the monotonic clock: it never goes back, and the sum with the
  construction time stays an \<open>int64\<close>.
\<close>

definition clock_ok :: "(nat \<Rightarrow> int) \<Rightarrow> UUID \<Rightarrow> bool" where
  "clock_ok since n \<longleftrightarrow> 0 \<le> since 0 \<and> (\<forall>i j. i \<le> j \<longrightarrow> since i \<le> since j) \<and>
     (\<forall>k. uu_baseWall n + since k < 2 ^ 63)"

definition uuid_wf :: "(nat \<Rightarrow> int) \<Rightarrow> UUID \<Rightarrow> nat \<Rightarrow> bool" where
  "uuid_wf since n k \<longleftrightarrow> unat (uu_node n) < 2 ^ 10 \<and> unat (uu_step n) < 2 ^ 12 \<and> epoch \<le> uu_baseWall n \<and>
     (\<forall>j \<ge> k. uu_timestamp n \<le> uu_baseWall n + since j)"

text \<open>The order in which ids are issued: time, then step.\<close>

definition later :: "int \<times> u64 \<Rightarrow> int \<times> u64 \<Rightarrow> bool" where
  "later p q \<longleftrightarrow> fst p < fst q \<or> (fst p = fst q \<and> snd p < snd q)"

lemma later_trans: "later p q \<Longrightarrow> later q r \<Longrightarrow> later p r"
  by (auto simp: later_def)

lemma nowMs_eq:
  assumes "clock_ok since n" "epoch \<le> uu_baseWall n"
  shows "nowMs since n k = uu_baseWall n + since k"
proof -
  have "since 0 \<le> since k" using assms(1) by (simp add: clock_ok_def)
  moreover have "0 \<le> since 0" "uu_baseWall n + since k < 2 ^ 63" "0 \<le> uu_baseWall n"
    using assms by (auto simp: clock_ok_def epoch_def)
  ultimately show ?thesis unfolding nowMs_def by (intro wrap_int64_id) auto
qed

lemma clock_mono: "clock_ok since n \<Longrightarrow> i \<le> j \<Longrightarrow> since i \<le> since j"
  by (simp add: clock_ok_def)

lemma clock_mono_Suc: "clock_ok since n \<Longrightarrow> Suc i \<le> j \<Longrightarrow> since i \<le> since j"
  by (rule clock_mono) auto

lemma clock_nonneg: "clock_ok since n \<Longrightarrow> 0 \<le> since k"
  unfolding clock_ok_def by (metis le0 order_trans)

lemma wait_loop_spec:
  assumes w: "wait_loop since n now k = Some (now', k')" and c: "clock_ok since n" "epoch \<le> uu_baseWall n"
    and "\<forall>j \<ge> k. now \<le> uu_baseWall n + since j"
  shows "uu_timestamp n < now' \<and> (\<forall>j \<ge> k'. now' \<le> uu_baseWall n + since j)"
proof -
  have "(\<lambda>(now, k). \<forall>j \<ge> k. now \<le> uu_baseWall n + since j) (now', k')"
    by (rule while_option_rule [OF _ w [unfolded wait_loop_def]])
      (use assms(4) c in \<open>auto simp: nowMs_eq intro: clock_mono_Suc [OF c(1)]\<close>)
  then show ?thesis using while_option_stop [OF w [unfolded wait_loop_def]] by auto
qed

lemma wait_loop_ends:
  assumes "k \<le> j" "uu_timestamp n < nowMs since n j"
  shows "\<exists>r. wait_loop since n now k = Some r"
  unfolding wait_loop_def
  by (rule measure_while_option_Some [where P = "\<lambda>(now, k). k \<le> Suc j \<and> (k = Suc j \<longrightarrow> uu_timestamp n < now)"
        and f = "\<lambda>(now, k). Suc j - k"])
    (use assms in \<open>auto simp: le_Suc_eq\<close>)

lemma step_increment:
  assumes "unat s < 2 ^ 12" and "(s + 1) AND stepMax \<noteq> 0"
  shows "s < (s + 1) AND stepMax" "unat ((s + 1) AND stepMax) < 2 ^ 12"
proof -
  have "(s + 1) AND stepMax = take_bit 12 (s + 1)"
    by (simp add: stepMax_def layout_defs take_bit_eq_mask)
  then have a: "unat ((s + 1) AND stepMax) = unat (s + 1) mod 2 ^ 12"
    by (simp only: unsigned_take_bit_eq) (simp add: take_bit_eq_mod)
  have "unat (s + 1) = unat s + 1" using assms(1) by (simp add: unat_word_ariths)
  then have "unat ((s + 1) AND stepMax) = (unat s + 1) mod 2 ^ 12" using a by simp
  moreover have "unat s + 1 \<noteq> 2 ^ 12" using calculation assms(2) by (auto simp: unat_eq_0)
  ultimately have "unat ((s + 1) AND stepMax) = unat s + 1" using assms(1) by simp
  then show "s < (s + 1) AND stepMax" by (simp add: word_less_nat_alt)
  show "unat ((s + 1) AND stepMax) < 2 ^ 12" using a by simp
qed

text \<open>One call: the new pair of time and step is later than the last, and the id is made of it.\<close>

lemma Generate_spec:
  assumes g: "Generate since n k = Some (i, n', k')" and c: "clock_ok since n" and w: "uuid_wf since n k"
  shows "i = make_id (uu_timestamp n') (uu_node n) (uu_step n') \<and>
    later (uu_timestamp n, uu_step n) (uu_timestamp n', uu_step n') \<and> epoch \<le> uu_timestamp n' \<and>
    uu_node n' = uu_node n \<and> uu_baseWall n' = uu_baseWall n \<and> uuid_wf since n' k'"
proof -
  have b: "epoch \<le> uu_baseWall n" "unat (uu_node n) < 2 ^ 10" "unat (uu_step n) < 2 ^ 12"
    using w by (auto simp: uuid_wf_def)
  define now where "now = uu_baseWall n + since k"
  have "0 \<le> since k" by (rule clock_nonneg [OF c])
  then have now: "nowMs since n k = now" "uu_timestamp n \<le> now" "epoch \<le> now"
    using w b(1) by (auto simp: now_def nowMs_eq [OF c] uuid_wf_def)
  have after: "\<forall>j \<ge> Suc k. now \<le> uu_baseWall n + since j" using clock_mono [OF c] by (auto simp: now_def)
  let ?step = "(uu_step n + 1) AND stepMax"
  consider (new) "uu_timestamp n < now" | (bump) "uu_timestamp n = now" "?step \<noteq> 0"
    | (wait) "uu_timestamp n = now" "?step = 0"
    using now(2) by linarith
  then show ?thesis
  proof cases
    case new
    then have "i = make_id now (uu_node n) 0" "n' = n\<lparr>uu_timestamp := now, uu_step := 0\<rparr>" "k' = Suc k"
      using g now by (auto simp: Generate_def Let_def)
    then show ?thesis using new now(3) b after by (simp add: later_def uuid_wf_def)
  next
    case bump
    then have "i = make_id now (uu_node n) ?step" "n' = n\<lparr>uu_timestamp := now, uu_step := ?step\<rparr>" "k' = Suc k"
      using g now by (auto simp: Generate_def Let_def)
    then show ?thesis
      using bump now(3) b after step_increment [OF b(3) bump(2)] by (simp add: later_def uuid_wf_def)
  next
    case wait
    then obtain t where t: "wait_loop since n now (Suc k) = Some (t, k')" "i = make_id t (uu_node n) 0"
        "n' = n\<lparr>uu_timestamp := t, uu_step := 0\<rparr>"
      using g now by (auto simp: Generate_def Let_def split: option.splits)
    then show ?thesis
      using wait_loop_spec [OF t(1) c b(1) after] wait now(3) b by (auto simp: later_def uuid_wf_def)
  qed
qed

lemma clock_ok_cong: "uu_baseWall n' = uu_baseWall n \<Longrightarrow> clock_ok since n \<Longrightarrow> clock_ok since n'"
  by (simp add: clock_ok_def)

text \<open>The ids of a run are made of ever later pairs of time and step.\<close>

lemma generate_ids_pairs:
  assumes "generate_ids since n k c = Some (ids, n', k')" "clock_ok since n" "uuid_wf since n k"
  shows "\<exists>ps. ids = map (\<lambda>(t, s). make_id t (uu_node n) s) ps \<and> length ps = c \<and> sorted_wrt later ps \<and>
    (\<forall>(t, s) \<in> set ps. later (uu_timestamp n, uu_step n) (t, s) \<and> epoch \<le> t \<and> t \<le> uu_timestamp n' \<and>
       unat s < 2 ^ 12) \<and> uu_timestamp n \<le> uu_timestamp n'"
  using assms
proof (induction c arbitrary: n k ids)
  case 0
  then show ?case by auto
next
  case (Suc c)
  then obtain i n1 k1 rest where g: "Generate since n k = Some (i, n1, k1)"
      "generate_ids since n1 k1 c = Some (rest, n', k')" "ids = i # rest"
    by (auto split: option.splits)
  note G = Generate_spec [OF g(1) Suc.prems(2,3)]
  have "clock_ok since n1" using clock_ok_cong G Suc.prems(2) by blast
  then obtain ps where ps: "rest = map (\<lambda>(t, s). make_id t (uu_node n1) s) ps" "length ps = c"
      "sorted_wrt later ps" "uu_timestamp n1 \<le> uu_timestamp n'"
      "\<forall>(t, s) \<in> set ps. later (uu_timestamp n1, uu_step n1) (t, s) \<and> epoch \<le> t \<and>
         t \<le> uu_timestamp n' \<and> unat s < 2 ^ 12"
    using Suc.IH [OF g(2)] G by blast
  have "unat (uu_step n1) < 2 ^ 12" "uu_timestamp n \<le> uu_timestamp n1"
    using G by (auto simp: uuid_wf_def later_def)
  then show ?case
    using ps G g(3) later_trans by (intro exI [of _ "(uu_timestamp n1, uu_step n1) # ps"]) fastforce
qed

lemma make_id_later:
  assumes "later (t, s) (t', s')" "epoch \<le> t" "epoch \<le> t'" "t' < epoch + 2 ^ 42" "unat n < 2 ^ 10"
    and "unat s < 2 ^ 12" "unat s' < 2 ^ 12"
  shows "make_id t n s < make_id t' n s'"
proof -
  have t: "t < epoch + 2 ^ 42" "t \<le> t'" using assms by (auto simp: later_def)
  have "nat (t - epoch) * 2 ^ 22 + unat n * 2 ^ 12 + unat s < nat (t' - epoch) * 2 ^ 22 + unat n * 2 ^ 12 + unat s'"
  proof (cases "t = t'")
    case True
    then show ?thesis using assms(1) by (simp add: later_def word_less_nat_alt)
  next
    case False
    then have "nat (t - epoch) + 1 \<le> nat (t' - epoch)" using t(2) assms(2) by linarith
    then have "(nat (t - epoch) + 1) * 2 ^ 22 \<le> nat (t' - epoch) * 2 ^ 22" by (rule mult_le_mono1)
    then show ?thesis using assms(6) by simp
  qed
  then show ?thesis
    using unat_make_id [OF assms(2) t(1) assms(5,6)] unat_make_id [OF assms(3,4,5,7)]
    by (simp add: word_less_nat_alt)
qed

subsection \<open>Properties of the generator\<close>

lemma NewUUID_wf:
  assumes "NewUUID node wall = Some n" and "clock_ok since n"
  shows "uuid_wf since n 0" "uu_node n = node"
proof -
  have "node \<le> nodeMax" and n: "n = \<lparr>uu_timestamp = 0, uu_node = node, uu_step = 0, uu_baseWall = max wall epoch\<rparr>"
    using assms(1) by (auto simp: NewUUID_def split: if_splits)
  then have "unat node \<le> 1023" by (simp add: nodeMax_val word_le_nat_alt)
  moreover have "0 \<le> since j" for j by (rule clock_nonneg [OF assms(2)])
  ultimately show "uuid_wf since n 0" "uu_node n = node" by (auto simp: n uuid_wf_def epoch_def)
qed

text \<open>
  C30. Ids are unique and increasing: on a clock that does not go back, the ids a generator issues
  are strictly increasing, as numbers and in their \<open>ParseSortVal\<close>, and all carry its node, as long
  as the 42 bits of milliseconds last. So ids of one node never repeat, and ids of two nodes differ
  in their node field.
\<close>

theorem generated_ids_increase:
  assumes "NewUUID node wall = Some n" and "clock_ok since n"
    and "generate_ids since n 0 c = Some (ids, n', k')" and "uu_timestamp n' < epoch + 2 ^ 42"
  shows "sorted_wrt (<) ids \<and> distinct ids \<and> length ids = c \<and>
    sorted_wrt (\<lambda>i j. ParseSortVal i < ParseSortVal j) ids \<and> (\<forall>i \<in> set ids. ParseNode i = node)"
proof -
  note N = NewUUID_wf [OF assms(1,2)]
  then have nb: "unat node < 2 ^ 10" by (simp add: uuid_wf_def)
  obtain ps where ps: "ids = map (\<lambda>(t, s). make_id t node s) ps" "length ps = c" "sorted_wrt later ps"
      "\<And>t s. (t, s) \<in> set ps \<Longrightarrow> epoch \<le> t \<and> t < epoch + 2 ^ 42 \<and> unat s < 2 ^ 12"
    using generate_ids_pairs [OF assms(3,2) N(1)] N(2) assms(4) by fastforce
  have inc: "sorted_wrt (<) ids"
    unfolding ps(1) sorted_wrt_map
    by (rule sorted_wrt_mono_rel [OF _ ps(3)]) (use ps(4) make_id_later nb in \<open>fastforce simp: case_prod_beta\<close>)
  have sv: "unat (ParseSortVal (make_id t node s)) = nat (t - epoch) * 2 ^ 22 + unat s"
    if "(t, s) \<in> set ps" for t s
    using id_fields [of t node s] ps(4) [OF that] nb by blast
  have "sorted_wrt (\<lambda>i j. ParseSortVal i < ParseSortVal j) ids"
    unfolding ps(1) sorted_wrt_map
  proof (rule sorted_wrt_mono_rel [OF _ ps(3)])
    fix p q assume pq: "p \<in> set ps" "q \<in> set ps" "later p q"
    obtain t s t' s' where e: "p = (t, s)" "q = (t', s')" by (cases p; cases q)
    have "make_id t 0 s < make_id t' 0 s'"
      using make_id_later [of t s t' s' 0] pq e ps(4) by simp
    then show "ParseSortVal (case p of (t, s) \<Rightarrow> make_id t node s) < ParseSortVal (case q of (t, s) \<Rightarrow> make_id t node s)"
      using sv pq e ps(4) unat_make_id [of t 0 s] unat_make_id [of t' 0 s'] by (simp add: word_less_nat_alt)
  qed
  moreover have "ParseNode i = node" if "i \<in> set ids" for i
    using that ps(1,4) id_fields nb by fastforce
  ultimately show ?thesis
    using inc ps(1,2) strict_sorted_iff by auto
qed

theorem generated_ids_increase_witness:
  "\<exists>ids n' k'. generate_ids (\<lambda>k. int (min k 9)) \<lparr>uu_timestamp = 0, uu_node = 3, uu_step = 0, uu_baseWall = epoch + 10\<rparr> 0 3
     = Some (ids, n', k') \<and> distinct ids \<and> (\<forall>i \<in> set ids. ParseNode i = 3)"
proof -
  let ?n = "\<lparr>uu_timestamp = 0, uu_node = 3 :: u64, uu_step = 0 :: u64, uu_baseWall = epoch + 10\<rparr>"
  let ?since = "\<lambda>k. int (min k 9)"
  have n: "NewUUID 3 (epoch + 10) = Some ?n" by (simp add: NewUUID_def nodeMax_val)
  have c: "clock_ok ?since ?n" by (auto simp: clock_ok_def epoch_def min_def)
  have "case generate_ids ?since ?n 0 3 of None \<Rightarrow> False | Some (ids, n', k') \<Rightarrow> uu_timestamp n' < epoch + 2 ^ 42"
    by code_simp
  then obtain ids n' k' where g: "generate_ids ?since ?n 0 3 = Some (ids, n', k')" "uu_timestamp n' < epoch + 2 ^ 42"
    by (auto split: option.splits)
  show ?thesis using generated_ids_increase [OF n c g] g(1) by blast
qed

text \<open>
  A call always returns: if the clock at some later reading has passed the last timestamp,
  \<open>Generate\<close> returns an id, also when the 4096 ids of the millisecond are used up and it waits.
\<close>

lemma Generate_returns:
  assumes "k < j" and "uu_timestamp n < nowMs since n j"
  shows "\<exists>i n' k'. Generate since n k = Some (i, n', k')"
proof -
  obtain r where "wait_loop since n (uu_timestamp n) (Suc k) = Some r"
    using wait_loop_ends [of "Suc k" j n since] assms by force
  then show ?thesis by (cases r) (auto simp: Generate_def Let_def split: option.splits)
qed

text \<open>
  C40. The correlation ids of asks do not collide between nodes: the range of \<open>2 ^ 54\<close> numbers from
  \<open>GetAskStartId\<close> lies within the 64 bits and the ranges of different nodes are disjoint; a node
  number is refused exactly when it needs more than 10 bits.
\<close>

theorem ask_start_ranges_disjoint:
  "(NewUUID node wall = None \<longleftrightarrow> 2 ^ 10 \<le> unat node) \<and>
   (\<forall>n m i. NewUUID node wall = Some n \<longrightarrow> NewUUID node' wall' = Some m \<longrightarrow> node < node' \<longrightarrow>
      i < (2 :: nat) ^ 54 \<longrightarrow>
      unat (the (GetAskStartId (Some n))) + i < unat (the (GetAskStartId (Some m))) \<and>
      unat (the (GetAskStartId (Some m))) + i < 2 ^ 64)"
proof -
  have refuse: "NewUUID x w = None \<longleftrightarrow> 2 ^ 10 \<le> unat x" for x w
    by (auto simp: NewUUID_def nodeMax_val word_less_nat_alt)
  have start: "unat (the (GetAskStartId (Some n))) = unat x * 2 ^ 54" if "NewUUID x w = Some n" for x w n
  proof -
    have "unat x < 2 ^ 10" using that refuse [of x w] by (metis not_le option.distinct(1))
    moreover have "uu_node n = x" using that by (auto simp: NewUUID_def split: if_splits)
    ultimately show ?thesis
      using unat_push [of x 54] by (simp add: GetAskStartId_def layout_defs push_bit_eq_mult)
  qed
  show ?thesis
  proof (intro conjI allI impI refuse)
    fix n m i assume a: "NewUUID node wall = Some n" "NewUUID node' wall' = Some m" "node < node'"
      "i < (2 :: nat) ^ 54"
    have "unat node + 1 \<le> unat node'" using a(3) by (simp add: word_less_nat_alt)
    then have "(unat node + 1) * 2 ^ 54 \<le> unat node' * 2 ^ 54" by (rule mult_le_mono1)
    then show "unat (the (GetAskStartId (Some n))) + i < unat (the (GetAskStartId (Some m)))"
      using a(4) by (simp add: start [OF a(1)] start [OF a(2)])
    have "unat node' < 2 ^ 10" using a(2) refuse [of node' wall'] by (metis not_le option.distinct(1))
    then show "unat (the (GetAskStartId (Some m))) + i < 2 ^ 64" using a(4) by (simp add: start [OF a(2)])
  qed
qed

theorem ask_start_ranges_disjoint_witness:
  "\<exists>n m. NewUUID 1 0 = Some n \<and> NewUUID 2 0 = Some m \<and>
     unat (the (GetAskStartId (Some n))) + 5 < unat (the (GetAskStartId (Some m)))"
proof -
  obtain n m where n: "NewUUID 1 0 = Some n" "NewUUID 2 0 = Some m" by (simp add: NewUUID_def nodeMax_val)
  then have "unat (the (GetAskStartId (Some n))) + 5 < unat (the (GetAskStartId (Some m)))"
    using ask_start_ranges_disjoint [of 1 0 2 0, THEN conjunct2, rule_format, of n m 5] by simp
  with n show ?thesis by blast
qed

end
