(* ===== verification/Safe_Map.thy ===== *)
theory Safe_Map
  imports Grain_Prelude "HOL-Library.AList"
begin

unbundle bit_operations_syntax

section \<open>Concurrent maps: al/safemap\<close>

text \<open>
  \<open>RWMap\<close> is a Go map under one lock; \<open>ConcurrentMap\<close> splits the keys over 32 shards, each a Go map
  with a lock of its own. A Go map is an association list with distinct keys; the order in which Go
  ranges over a map is arbitrary, and nothing below depends on the order of the list. Every operation
  on one key runs under the lock of its shard and is one atomic step; \<open>Count\<close>, \<open>Keys\<close>, \<open>Items\<close>,
  \<open>IterBuffered\<close> and \<open>IterCb\<close> lock the shards one after the other and are modelled here for a map that no
  other goroutine changes meanwhile; \<open>Map_Snapshot\<close> and \<open>Map_Keys\<close> have their goroutines beside writers. The hash that picks a shard is a parameter of the map, as in
  \<open>NewCustomC\<close>; \<open>NewStringC\<close> passes the runtime's \<open>maphash\<close>.
\<close>

subsection \<open>RWMap\<close>

type_synonym ('k, 'v) go_map = "('k \<times> 'v) list"

definition rw_New :: "('k, 'v) go_map" where "rw_New = []"

definition rw_Get :: "('k, 'v) go_map \<Rightarrow> 'k \<Rightarrow> 'v option" where
  "rw_Get m key = map_of m key"

definition rw_GetOrCreate :: "('k, 'v) go_map \<Rightarrow> 'k \<Rightarrow> 'v \<Rightarrow> 'v \<times> ('k, 'v) go_map" where
  "rw_GetOrCreate m key created = (case map_of m key of
      Some v \<Rightarrow> (v, m)
    | None \<Rightarrow> (created, AList.update key created m))"

definition rw_Set :: "('k, 'v) go_map \<Rightarrow> 'k \<Rightarrow> 'v \<Rightarrow> ('k, 'v) go_map" where
  "rw_Set m key value = AList.update key value m"

definition rw_Delete :: "('k, 'v) go_map \<Rightarrow> 'k \<Rightarrow> ('k, 'v) go_map" where
  "rw_Delete m key = AList.delete key m"

definition rw_Len :: "('k, 'v) go_map \<Rightarrow> nat" where
  "rw_Len m = length m"

text \<open>\<open>Range\<close> threads the state \<open>f\<close> works on; \<open>f\<close> returns whether to go on.\<close>

fun rw_Range :: "('k \<Rightarrow> 'v \<Rightarrow> 's \<Rightarrow> bool \<times> 's) \<Rightarrow> ('k, 'v) go_map \<Rightarrow> 's \<Rightarrow> 's" where
  "rw_Range f [] s = s"
| "rw_Range f ((k, v) # m) s = (let (more, s') = f k v s in if more then rw_Range f m s' else s')"

subsection \<open>ConcurrentMap\<close>

definition ShardCount :: nat where "ShardCount = 32"

record ('k, 'v) concurrent_map =
  cm_shards :: "('k, 'v) go_map list"
  cm_sharding :: "'k \<Rightarrow> u32"

definition cm_create :: "('k \<Rightarrow> u32) \<Rightarrow> ('k, 'v) concurrent_map" where
  "cm_create sharding = \<lparr>cm_shards = replicate ShardCount [], cm_sharding = sharding\<rparr>"

definition shard_index :: "('k, 'v) concurrent_map \<Rightarrow> 'k \<Rightarrow> nat" where
  "shard_index m key = unat (cm_sharding m key) mod ShardCount"

definition GetShard :: "('k, 'v) concurrent_map \<Rightarrow> 'k \<Rightarrow> ('k, 'v) go_map" where
  "GetShard m key = cm_shards m ! shard_index m key"

definition put_shard :: "('k, 'v) concurrent_map \<Rightarrow> 'k \<Rightarrow> ('k, 'v) go_map \<Rightarrow> ('k, 'v) concurrent_map" where
  "put_shard m key items = m\<lparr>cm_shards := (cm_shards m)[shard_index m key := items]\<rparr>"

definition cm_Set :: "('k, 'v) concurrent_map \<Rightarrow> 'k \<Rightarrow> 'v \<Rightarrow> 'v option \<times> ('k, 'v) concurrent_map" where
  "cm_Set m key value = (let items = GetShard m key
     in (map_of items key, put_shard m key (AList.update key value items)))"

definition cm_SetIfNotExist :: "('k, 'v) concurrent_map \<Rightarrow> 'k \<Rightarrow> 'v \<Rightarrow> 'v option \<times> ('k, 'v) concurrent_map" where
  "cm_SetIfNotExist m key value = (let items = GetShard m key in
     case map_of items key of
       Some v \<Rightarrow> (Some v, m)
     | None \<Rightarrow> (None, put_shard m key (AList.update key value items)))"

definition cm_Upsert ::
  "('k, 'v) concurrent_map \<Rightarrow> 'k \<Rightarrow> 'v \<Rightarrow> ('v option \<Rightarrow> 'v \<Rightarrow> 'v) \<Rightarrow> 'v \<times> ('k, 'v) concurrent_map" where
  "cm_Upsert m key value cb = (let items = GetShard m key; res = cb (map_of items key) value
     in (res, put_shard m key (AList.update key res items)))"

definition cm_SetIfAbsent :: "('k, 'v) concurrent_map \<Rightarrow> 'k \<Rightarrow> 'v \<Rightarrow> bool \<times> ('k, 'v) concurrent_map" where
  "cm_SetIfAbsent m key value = (let items = GetShard m key in
     if map_of items key = None then (True, put_shard m key (AList.update key value items))
     else (False, m))"

definition cm_Get :: "('k, 'v) concurrent_map \<Rightarrow> 'k \<Rightarrow> 'v option" where
  "cm_Get m key = map_of (GetShard m key) key"

definition cm_Count :: "('k, 'v) concurrent_map \<Rightarrow> nat" where
  "cm_Count m = sum_list (map length (cm_shards m))"

definition cm_Has :: "('k, 'v) concurrent_map \<Rightarrow> 'k \<Rightarrow> bool" where
  "cm_Has m key = (map_of (GetShard m key) key \<noteq> None)"

definition cm_Remove :: "('k, 'v) concurrent_map \<Rightarrow> 'k \<Rightarrow> ('k, 'v) concurrent_map" where
  "cm_Remove m key = put_shard m key (AList.delete key (GetShard m key))"

definition cm_RemoveCb ::
  "('k, 'v) concurrent_map \<Rightarrow> 'k \<Rightarrow> ('k \<Rightarrow> 'v option \<Rightarrow> bool) \<Rightarrow> bool \<times> ('k, 'v) concurrent_map" where
  "cm_RemoveCb m key cb = (let items = GetShard m key; v = map_of items key; remove = cb key v
     in (remove, if remove \<and> v \<noteq> None then put_shard m key (AList.delete key items) else m))"

definition cm_Pop :: "('k, 'v) concurrent_map \<Rightarrow> 'k \<Rightarrow> 'v option \<times> ('k, 'v) concurrent_map" where
  "cm_Pop m key = (let items = GetShard m key
     in (map_of items key, put_shard m key (AList.delete key items)))"

definition cm_IsEmpty :: "('k, 'v) concurrent_map \<Rightarrow> bool" where
  "cm_IsEmpty m = (cm_Count m = 0)"

text \<open>
  \<open>IterBuffered\<close> sends every entry of every shard over a channel: one buffered channel per shard
  (\<open>snapshot\<close>), merged by \<open>fanIn\<close>. The model is the list of entries that arrive.
\<close>

definition cm_IterBuffered :: "('k, 'v) concurrent_map \<Rightarrow> ('k \<times> 'v) list" where
  "cm_IterBuffered m = concat (cm_shards m)"

definition cm_Clear :: "('k, 'v) concurrent_map \<Rightarrow> ('k, 'v) concurrent_map" where
  "cm_Clear m = fold (\<lambda>item m'. cm_Remove m' (fst item)) (cm_IterBuffered m) m"

definition cm_Items :: "('k, 'v) concurrent_map \<Rightarrow> ('k, 'v) go_map" where
  "cm_Items m = fold (\<lambda>(k, v) tmp. AList.update k v tmp) (cm_IterBuffered m) []"

definition cm_IterCb :: "('k \<Rightarrow> 'v \<Rightarrow> 's \<Rightarrow> 's) \<Rightarrow> ('k, 'v) concurrent_map \<Rightarrow> 's \<Rightarrow> 's" where
  "cm_IterCb fn m s = fold (\<lambda>items s. fold (\<lambda>(k, v) s. fn k v s) items s) (cm_shards m) s"

definition cm_Keys :: "('k, 'v) concurrent_map \<Rightarrow> 'k list" where
  "cm_Keys m = concat (map (map fst) (cm_shards m))"

text \<open>\<open>MarshalJSON\<close> and \<open>UnmarshalJSON\<close> with the JSON codec as a parameter; \<open>None\<close> is its error.\<close>

definition cm_MarshalJSON :: "(('k, 'v) go_map \<Rightarrow> 'b option) \<Rightarrow> ('k, 'v) concurrent_map \<Rightarrow> 'b option" where
  "cm_MarshalJSON marshal m = marshal (fold (\<lambda>(k, v) tmp. AList.update k v tmp) (cm_IterBuffered m) [])"

definition cm_UnmarshalJSON ::
  "('b \<Rightarrow> ('k, 'v) go_map option) \<Rightarrow> 'b \<Rightarrow> ('k, 'v) concurrent_map \<Rightarrow> ('k, 'v) concurrent_map option" where
  "cm_UnmarshalJSON unmarshal b m = (case unmarshal b of None \<Rightarrow> None
     | Some tmp \<Rightarrow> Some (fold (\<lambda>(k, v) m'. snd (cm_Set m' k v)) tmp m))"

subsection \<open>Shard hashes\<close>

fun fnv32_bytes :: "u32 \<Rightarrow> u32 list \<Rightarrow> u32" where
  "fnv32_bytes hash [] = hash"
| "fnv32_bytes hash (b # bs) = fnv32_bytes ((hash * 16777619) XOR b) bs"

definition stringFnv32 :: "string \<Rightarrow> u32" where
  "stringFnv32 key = fnv32_bytes 2166136261 (map of_char key)"

fun int_bytes :: "nat \<Rightarrow> u64 \<Rightarrow> u32 list" where
  "int_bytes 0 u = []"
| "int_bytes (Suc i) u = ucast (u AND 255) # int_bytes i (drop_bit 8 u)"

definition intFnv32 :: "u64 \<Rightarrow> u32" where
  "intFnv32 key = fnv32_bytes 2166136261 (int_bytes 8 key)"

definition stringerFnv32 :: "('k \<Rightarrow> string) \<Rightarrow> 'k \<Rightarrow> u32" where
  "stringerFnv32 String key = stringFnv32 (String key)"

text \<open>\<open>maphash\<close> stands for \<open>maphash.String(shardSeed, _)\<close>, cut to 32 bits.\<close>

definition stringShardHash :: "(string \<Rightarrow> u64) \<Rightarrow> string \<Rightarrow> u32" where
  "stringShardHash maphash key = ucast (maphash key)"

definition NewIntC :: "(u64, 'v) concurrent_map" where "NewIntC = cm_create intFnv32"
definition NewStringC :: "(string \<Rightarrow> u64) \<Rightarrow> (string, 'v) concurrent_map" where
  "NewStringC maphash = cm_create (stringShardHash maphash)"
definition NewStringerC :: "('k \<Rightarrow> string) \<Rightarrow> ('k, 'v) concurrent_map" where
  "NewStringerC String = cm_create (stringerFnv32 String)"
definition NewCustomC :: "('k \<Rightarrow> u32) \<Rightarrow> ('k, 'v) concurrent_map" where
  "NewCustomC sharding = cm_create sharding"

subsection \<open>Well-formed maps\<close>

definition cm_wf :: "('k, 'v) concurrent_map \<Rightarrow> bool" where
  "cm_wf m \<longleftrightarrow> length (cm_shards m) = ShardCount \<and>
     (\<forall>i < ShardCount. distinct (map fst (cm_shards m ! i)) \<and>
        (\<forall>k \<in> fst ` set (cm_shards m ! i). shard_index m k = i))"

lemma shard_index_less: "shard_index m k < ShardCount"
  by (simp add: shard_index_def ShardCount_def)

lemma shard_index_put [simp]: "shard_index (put_shard m k items) = shard_index m"
  by (simp add: shard_index_def put_shard_def fun_eq_iff)

lemma cm_create_wf: "cm_wf (cm_create h)" "cm_Get (cm_create h) = Map.empty"
  by (auto simp: cm_wf_def cm_create_def cm_Get_def GetShard_def shard_index_less fun_eq_iff)

lemma GetShard_wf:
  assumes "cm_wf m"
  shows "distinct (map fst (GetShard m k))" "\<And>k'. k' \<in> fst ` set (GetShard m k) \<Longrightarrow> shard_index m k' = shard_index m k"
  using assms shard_index_less [of m k] by (auto simp: cm_wf_def GetShard_def)

lemma put_shard_wf:
  assumes "cm_wf m" "distinct (map fst items)" "\<And>k'. k' \<in> fst ` set items \<Longrightarrow> shard_index m k' = shard_index m k"
  shows "cm_wf (put_shard m k items)"
  using assms by (auto simp: cm_wf_def put_shard_def nth_list_update shard_index_def)

lemma put_shard_Get:
  assumes "cm_wf m"
  shows "cm_Get (put_shard m k items) k' =
    (if shard_index m k' = shard_index m k then map_of items k' else cm_Get m k')"
  using assms shard_index_less [of m k]
  by (auto simp: cm_Get_def GetShard_def cm_wf_def put_shard_def nth_list_update shard_index_def)

lemma cm_Get_same_shard: "shard_index m k' = shard_index m k \<Longrightarrow> cm_Get m k' = map_of (GetShard m k) k'"
  by (simp add: cm_Get_def GetShard_def)

text \<open>Storing and deleting one key, which every operation comes down to.\<close>

lemma put_update:
  assumes "cm_wf m"
  shows "cm_wf (put_shard m k (AList.update k v (GetShard m k)))"
    and "cm_Get (put_shard m k (AList.update k v (GetShard m k))) = (cm_Get m)(k \<mapsto> v)"
proof -
  show "cm_wf (put_shard m k (AList.update k v (GetShard m k)))"
  proof (rule put_shard_wf [OF assms])
    show "distinct (map fst (AList.update k v (GetShard m k)))"
      by (rule distinct_update [OF GetShard_wf(1) [OF assms]])
    show "k' \<in> fst ` set (AList.update k v (GetShard m k)) \<Longrightarrow> shard_index m k' = shard_index m k" for k'
      using GetShard_wf(2) [OF assms, of k' k] by (auto simp: dom_update)
  qed
  show "cm_Get (put_shard m k (AList.update k v (GetShard m k))) = (cm_Get m)(k \<mapsto> v)"
  proof
    fix k' show "cm_Get (put_shard m k (AList.update k v (GetShard m k))) k' = ((cm_Get m)(k \<mapsto> v)) k'"
      using cm_Get_same_shard [of m k' k] by (auto simp: put_shard_Get [OF assms] update_conv')
  qed
qed

lemma put_delete:
  assumes "cm_wf m"
  shows "cm_wf (put_shard m k (AList.delete k (GetShard m k)))"
    and "cm_Get (put_shard m k (AList.delete k (GetShard m k))) = (cm_Get m)(k := None)"
proof -
  have "k' \<in> fst ` set (AList.delete k (GetShard m k)) \<Longrightarrow> shard_index m k' = shard_index m k" for k'
    using dom_delete_subset [of k "GetShard m k"] GetShard_wf(2) [OF assms] by blast
  then show "cm_wf (put_shard m k (AList.delete k (GetShard m k)))"
    using GetShard_wf(1) [OF assms, of k] distinct_delete [of "GetShard m k" k]
    by (intro put_shard_wf [OF assms]) auto
  show "cm_Get (put_shard m k (AList.delete k (GetShard m k))) = (cm_Get m)(k := None)"
  proof
    fix k' show "cm_Get (put_shard m k (AList.delete k (GetShard m k))) k' = ((cm_Get m)(k := None)) k'"
      using cm_Get_same_shard [of m k' k] by (auto simp: put_shard_Get [OF assms] delete_conv')
  qed
qed

lemmas cm_ops = cm_Set_def cm_SetIfNotExist_def cm_Upsert_def cm_SetIfAbsent_def cm_Has_def
  cm_Remove_def cm_RemoveCb_def cm_Pop_def Let_def

lemma Get_shard [simp]: "map_of (GetShard m k) k = cm_Get m k"
  by (simp add: cm_Get_def)

subsection \<open>Iteration\<close>

lemma distinct_concat_nth:
  assumes "\<forall>i < length xs. distinct (xs ! i)" and "\<forall>i j. i < j \<longrightarrow> j < length xs \<longrightarrow> set (xs ! i) \<inter> set (xs ! j) = {}"
  shows "distinct (concat xs)"
  using assms
proof (induction xs)
  case (Cons x xs)
  have "\<forall>i < length xs. distinct (xs ! i)"
    using Cons.prems(1) by (metis Suc_less_eq length_Cons nth_Cons_Suc)
  moreover have "\<forall>i j. i < j \<longrightarrow> j < length xs \<longrightarrow> set (xs ! i) \<inter> set (xs ! j) = {}"
    using Cons.prems(2) by (metis Suc_less_eq length_Cons nth_Cons_Suc)
  ultimately have "distinct (concat xs)" by (rule Cons.IH)
  moreover have "distinct x" using Cons.prems(1) by force
  moreover have "set x \<inter> set ys = {}" if ys: "ys \<in> set xs" for ys
  proof -
    obtain j where "j < length xs" "ys = xs ! j" using ys by (auto simp: in_set_conv_nth)
    then show ?thesis using Cons.prems(2) [rule_format, of 0 "Suc j"] by simp
  qed
  ultimately show ?case by auto
qed simp

lemma entries_distinct:
  assumes "cm_wf m"
  shows "distinct (map fst (cm_IterBuffered m))"
proof -
  have keys: "k \<in> fst ` set (cm_shards m ! i) \<Longrightarrow> i < ShardCount \<Longrightarrow> shard_index m k = i" for k i
    using assms by (auto simp: cm_wf_def)
  have "distinct (concat (map (map fst) (cm_shards m)))"
  proof (rule distinct_concat_nth)
    show "\<forall>i < length (map (map fst) (cm_shards m)). distinct (map (map fst) (cm_shards m) ! i)"
      using assms by (simp add: cm_wf_def)
    show "\<forall>i j. i < j \<longrightarrow> j < length (map (map fst) (cm_shards m)) \<longrightarrow>
        set (map (map fst) (cm_shards m) ! i) \<inter> set (map (map fst) (cm_shards m) ! j) = {}"
    proof (intro allI impI)
      fix i j assume ij: "i < j" "j < length (map (map fst) (cm_shards m))"
      then have "j < ShardCount" "i < ShardCount" using assms by (auto simp: cm_wf_def)
      then show "set (map (map fst) (cm_shards m) ! i) \<inter> set (map (map fst) (cm_shards m) ! j) = {}"
        using keys [of _ i] keys [of _ j] ij by fastforce
    qed
  qed
  then show ?thesis by (simp add: cm_IterBuffered_def map_concat)
qed

lemma entries_Get:
  assumes "cm_wf m"
  shows "map_of (cm_IterBuffered m) = cm_Get m"
proof
  fix k
  have len: "length (cm_shards m) = ShardCount" using assms by (simp add: cm_wf_def)
  have "map_of (cm_IterBuffered m) k = Some v \<longleftrightarrow> cm_Get m k = Some v" for v
  proof -
    have "map_of (cm_IterBuffered m) k = Some v \<longleftrightarrow> (\<exists>i < ShardCount. (k, v) \<in> set (cm_shards m ! i))"
      using entries_distinct [OF assms] len
      by (simp add: map_of_eq_Some_iff cm_IterBuffered_def) (metis in_set_conv_nth)
    also have "\<dots> \<longleftrightarrow> (k, v) \<in> set (GetShard m k)"
      using assms shard_index_less [of m k] unfolding cm_wf_def GetShard_def by force
    also have "\<dots> \<longleftrightarrow> cm_Get m k = Some v"
      using GetShard_wf(1) [OF assms, of k] by (simp add: map_of_eq_Some_iff flip: Get_shard)
    finally show ?thesis .
  qed
  then show "map_of (cm_IterBuffered m) k = cm_Get m k"
    by (cases "cm_Get m k"; cases "map_of (cm_IterBuffered m) k") auto
qed

lemma Count_card:
  assumes "cm_wf m"
  shows "cm_Count m = card (dom (cm_Get m))"
proof -
  have "cm_Count m = length (map fst (cm_IterBuffered m))"
    by (simp add: cm_Count_def cm_IterBuffered_def length_concat)
  also have "\<dots> = card (set (map fst (cm_IterBuffered m)))"
    using distinct_card [OF entries_distinct [OF assms]] by simp
  also have "set (map fst (cm_IterBuffered m)) = dom (cm_Get m)"
    by (simp add: dom_map_of_conv_image_fst flip: entries_Get [OF assms])
  finally show ?thesis .
qed

lemma fold_concat: "fold f (concat xs) s = fold (\<lambda>items s. fold f items s) xs s"
  by (induction xs arbitrary: s) auto

lemma IterCb_fold: "cm_IterCb fn m s = fold (\<lambda>(k, v) s. fn k v s) (cm_IterBuffered m) s"
  by (simp add: cm_IterCb_def cm_IterBuffered_def fold_concat)

lemma fold_update_Get:
  "map_of (fold (\<lambda>(k, v) tmp. AList.update k v tmp) es tmp) = map_of tmp ++ map_of (rev es)"
  by (induction es arbitrary: tmp) (auto simp: update_conv' map_add_def fun_eq_iff split: option.splits)

lemma map_of_rev_distinct: "distinct (map fst es) \<Longrightarrow> map_of (rev es) = map_of es"
  by (rule map_of_eqI) (auto simp: map_of_eq_Some_iff rev_map fun_eq_iff distinct_map)

lemma fold_remove:
  "cm_wf m \<Longrightarrow> cm_wf (fold (\<lambda>item m'. cm_Remove m' (fst item)) es m) \<and>
    cm_Get (fold (\<lambda>item m'. cm_Remove m' (fst item)) es m) = cm_Get m |` (- fst ` set es)"
proof (induction es arbitrary: m)
  case (Cons e es)
  have w: "cm_wf (cm_Remove m (fst e))" "cm_Get (cm_Remove m (fst e)) = (cm_Get m)(fst e := None)"
    using put_delete [OF Cons.prems] by (simp_all add: cm_Remove_def)
  show ?case using Cons.IH [OF w(1)] w(2) by (auto simp: restrict_map_def fun_eq_iff)
qed (simp add: restrict_map_def)

subsection \<open>Refinement of a map\<close>

text \<open>The operations, what they report, and the same operations on a finite map.\<close>

datatype ('k, 'v) map_op = OSet 'k 'v | OSetIfNotExist 'k 'v | OSetIfAbsent 'k 'v
  | OUpsert 'k 'v "'v option \<Rightarrow> 'v \<Rightarrow> 'v" | OGet 'k | OHas 'k | ORemove 'k
  | ORemoveCb 'k "'k \<Rightarrow> 'v option \<Rightarrow> bool" | OPop 'k | OCount | OIsEmpty | OClear

datatype 'v map_obs = RVal "'v option" | RBool bool | RNat nat | RUnit

fun cm_exec :: "('k, 'v) map_op \<Rightarrow> ('k, 'v) concurrent_map \<Rightarrow> 'v map_obs \<times> ('k, 'v) concurrent_map" where
  "cm_exec (OSet k v) m = (RVal (fst (cm_Set m k v)), snd (cm_Set m k v))"
| "cm_exec (OSetIfNotExist k v) m = (RVal (fst (cm_SetIfNotExist m k v)), snd (cm_SetIfNotExist m k v))"
| "cm_exec (OSetIfAbsent k v) m = (RBool (fst (cm_SetIfAbsent m k v)), snd (cm_SetIfAbsent m k v))"
| "cm_exec (OUpsert k v cb) m = (RVal (Some (fst (cm_Upsert m k v cb))), snd (cm_Upsert m k v cb))"
| "cm_exec (OGet k) m = (RVal (cm_Get m k), m)"
| "cm_exec (OHas k) m = (RBool (cm_Has m k), m)"
| "cm_exec (ORemove k) m = (RUnit, cm_Remove m k)"
| "cm_exec (ORemoveCb k cb) m = (RBool (fst (cm_RemoveCb m k cb)), snd (cm_RemoveCb m k cb))"
| "cm_exec (OPop k) m = (RVal (fst (cm_Pop m k)), snd (cm_Pop m k))"
| "cm_exec OCount m = (RNat (cm_Count m), m)"
| "cm_exec OIsEmpty m = (RBool (cm_IsEmpty m), m)"
| "cm_exec OClear m = (RUnit, cm_Clear m)"

fun map_exec :: "('k, 'v) map_op \<Rightarrow> ('k \<rightharpoonup> 'v) \<Rightarrow> 'v map_obs \<times> ('k \<rightharpoonup> 'v)" where
  "map_exec (OSet k v) m = (RVal (m k), m(k \<mapsto> v))"
| "map_exec (OSetIfNotExist k v) m = (RVal (m k), if m k = None then m(k \<mapsto> v) else m)"
| "map_exec (OSetIfAbsent k v) m = (RBool (m k = None), if m k = None then m(k \<mapsto> v) else m)"
| "map_exec (OUpsert k v cb) m = (RVal (Some (cb (m k) v)), m(k \<mapsto> cb (m k) v))"
| "map_exec (OGet k) m = (RVal (m k), m)"
| "map_exec (OHas k) m = (RBool (m k \<noteq> None), m)"
| "map_exec (ORemove k) m = (RUnit, m(k := None))"
| "map_exec (ORemoveCb k cb) m = (RBool (cb k (m k)), if cb k (m k) then m(k := None) else m)"
| "map_exec (OPop k) m = (RVal (m k), m(k := None))"
| "map_exec OCount m = (RNat (card (dom m)), m)"
| "map_exec OIsEmpty m = (RBool (m = Map.empty), m)"
| "map_exec OClear m = (RUnit, Map.empty)"

fun cm_exec_all :: "('k, 'v) map_op list \<Rightarrow> ('k, 'v) concurrent_map \<Rightarrow> 'v map_obs list \<times> ('k, 'v) concurrent_map" where
  "cm_exec_all [] m = ([], m)"
| "cm_exec_all (x # xs) m = (let (r, m') = cm_exec x m; (rs, m'') = cm_exec_all xs m' in (r # rs, m''))"

fun map_exec_all :: "('k, 'v) map_op list \<Rightarrow> ('k \<rightharpoonup> 'v) \<Rightarrow> 'v map_obs list \<times> ('k \<rightharpoonup> 'v)" where
  "map_exec_all [] m = ([], m)"
| "map_exec_all (x # xs) m = (let (r, m') = map_exec x m; (rs, m'') = map_exec_all xs m' in (r # rs, m''))"

lemma finite_dom_Get: "cm_wf m \<Longrightarrow> finite (dom (cm_Get m))"
  by (metis entries_Get finite_dom_map_of)

lemma cm_Clear_spec: "cm_wf m \<Longrightarrow> cm_wf (cm_Clear m) \<and> cm_Get (cm_Clear m) = Map.empty"
proof -
  assume w: "cm_wf m"
  have "dom (cm_Get m) = fst ` set (cm_IterBuffered m)"
    by (simp add: dom_map_of_conv_image_fst flip: entries_Get [OF w])
  then have "cm_Get m |` (- fst ` set (cm_IterBuffered m)) = Map.empty"
    by (auto simp: restrict_map_def fun_eq_iff dom_def)
  then show ?thesis using fold_remove [OF w, of "cm_IterBuffered m"] by (simp add: cm_Clear_def)
qed

lemma cm_exec_refines:
  assumes w: "cm_wf m"
  shows "cm_wf (snd (cm_exec x m)) \<and> fst (cm_exec x m) = fst (map_exec x (cm_Get m)) \<and>
    cm_Get (snd (cm_exec x m)) = snd (map_exec x (cm_Get m))"
proof (cases x)
  case OIsEmpty
  have "card (dom (cm_Get m)) = 0 \<longleftrightarrow> cm_Get m = Map.empty"
    using finite_dom_Get [OF w] by simp
  then show ?thesis using OIsEmpty w by (simp add: cm_IsEmpty_def Count_card)
next
  case (ORemoveCb k cb)
  then show ?thesis
    using w put_delete [OF w, of k] by (cases "cm_Get m k") (auto simp: cm_RemoveCb_def Let_def fun_upd_idem)
qed (use w put_update [OF w] put_delete [OF w] cm_Clear_spec [OF w] Count_card [OF w] in
      \<open>auto simp: cm_ops split: option.splits\<close>)

lemma cm_exec_all_refines:
  "cm_wf m \<Longrightarrow> cm_exec_all xs m = (rs, m') \<Longrightarrow> cm_wf m' \<and> map_exec_all xs (cm_Get m) = (rs, cm_Get m')"
proof (induction xs arbitrary: m rs)
  case (Cons x xs)
  obtain r m1 rs1 where e: "cm_exec x m = (r, m1)" "cm_exec_all xs m1 = (rs1, m')" "rs = r # rs1"
    using Cons.prems(2) by (auto simp: Let_def split: prod.splits)
  note s = cm_exec_refines [OF Cons.prems(1), of x, unfolded e(1) fst_conv snd_conv]
  have x: "map_exec x (cm_Get m) = (r, cm_Get m1)" using s by (metis prod.collapse)
  have "cm_wf m' \<and> map_exec_all xs (cm_Get m1) = (rs1, cm_Get m')" using Cons.IH [OF _ e(2)] s by blast
  then show ?case unfolding map_exec_all.simps x e(3) by (simp add: Let_def)
qed simp

text \<open>
  C31. The sharded map is a map: for any hash, every sequence of operations on a fresh map gives the
  results the same operations give on one finite map, entry counts included, and the map then holds
  exactly its entries.
\<close>

theorem concurrent_map_refines_map:
  assumes "cm_exec_all xs (cm_create sharding) = (rs, m)"
  shows "map_exec_all xs Map.empty = (rs, cm_Get m) \<and> cm_Count m = card (dom (cm_Get m))"
  using cm_exec_all_refines [OF cm_create_wf(1) assms] Count_card by (auto simp: cm_create_wf(2))

theorem concurrent_map_refines_map_witness:
  "\<exists>rs m. cm_exec_all [OSet 1 (10 :: nat), OSetIfNotExist 33 20, ORemove 1, OCount] (cm_create intFnv32) = (rs, m) \<and>
     map_exec_all [OSet 1 10, OSetIfNotExist 33 20, ORemove 1, OCount] Map.empty = (rs, cm_Get m)"
proof -
  obtain rs m where "cm_exec_all [OSet 1 (10 :: nat), OSetIfNotExist 33 20, ORemove 1, OCount] (cm_create intFnv32) = (rs, m)"
    by fastforce
  then show ?thesis using concurrent_map_refines_map by blast
qed

text \<open>
  Iterating visits every entry exactly once: on the map any sequence of operations leaves, the
  entries \<open>IterBuffered\<close> delivers have distinct keys and are the map's; \<open>Items\<close> is the map, \<open>Keys\<close>
  lists its keys once each, and \<open>IterCb\<close> is a fold over exactly these entries.
\<close>

lemma iteration_visits_each_entry_once:
  assumes "cm_exec_all xs (cm_create sharding) = (rs, m)"
  shows "distinct (cm_Keys m) \<and> set (cm_Keys m) = dom (cm_Get m) \<and>
    map fst (cm_IterBuffered m) = cm_Keys m \<and> map_of (cm_IterBuffered m) = cm_Get m \<and>
    map_of (cm_Items m) = cm_Get m \<and>
    cm_IterCb fn m s = fold (\<lambda>(k, v) s. fn k v s) (cm_IterBuffered m) s"
proof -
  have w: "cm_wf m" using cm_exec_all_refines [OF cm_create_wf(1) assms] by simp
  have k: "map fst (cm_IterBuffered m) = cm_Keys m" by (simp add: cm_IterBuffered_def cm_Keys_def map_concat)
  note e = entries_distinct [OF w] entries_Get [OF w]
  have "map_of (cm_Items m) = cm_Get m"
    using e by (simp add: cm_Items_def fold_update_Get map_of_rev_distinct)
  moreover have "set (cm_Keys m) = dom (cm_Get m)"
    by (simp add: dom_map_of_conv_image_fst flip: k e(2))
  ultimately show ?thesis using e k IterCb_fold by metis
qed

text \<open>Setting the entries of a decoded map one by one.\<close>

lemma fold_Set:
  assumes "cm_wf m" "distinct (map fst es)"
  shows "cm_wf (fold (\<lambda>(k, v) m'. snd (cm_Set m' k v)) es m) \<and>
    cm_Get (fold (\<lambda>(k, v) m'. snd (cm_Set m' k v)) es m) = cm_Get m ++ map_of es"
  using assms
proof (induction es arbitrary: m)
  case (Cons e es)
  obtain k v where e: "e = (k, v)" by fastforce
  have s: "cm_wf (snd (cm_Set m k v))" "cm_Get (snd (cm_Set m k v)) = (cm_Get m)(k \<mapsto> v)"
    using cm_exec_refines [OF Cons.prems(1), of "OSet k v"] by simp_all
  have "k \<notin> dom (map_of es)" using Cons.prems(2) e by (simp add: dom_map_of_conv_image_fst)
  then have a: "(cm_Get m)(k \<mapsto> v) ++ map_of es = cm_Get m ++ map_of (e # es)"
    using e by (auto simp: fun_eq_iff map_add_def dom_def split: option.splits)
  have f: "fold (\<lambda>(k, v) m'. snd (cm_Set m' k v)) (e # es) m
      = fold (\<lambda>(k, v) m'. snd (cm_Set m' k v)) es (snd (cm_Set m k v))" by (simp add: e)
  have "distinct (map fst es)" using Cons.prems(2) by simp
  then show ?case unfolding f a [symmetric] s(2) [symmetric] by (rule Cons.IH [OF s(1)])
qed simp

text \<open>
  A map survives its JSON encoding: when the codec gives back some map with the same entries, then
  \<open>UnmarshalJSON\<close> of what \<open>MarshalJSON\<close> wrote, into a fresh map with any sharding function,
  succeeds and holds exactly the entries of the original, and marshalling fails only when the codec does.
\<close>

lemma json_round_trip:
  assumes "cm_wf m"
    and "\<And>tmp b. marshal tmp = Some b \<Longrightarrow> \<exists>tmp'. unmarshal b = Some tmp' \<and> distinct (map fst tmp') \<and> map_of tmp' = map_of tmp"
    and "cm_MarshalJSON marshal m = Some b"
  shows "\<exists>m'. cm_UnmarshalJSON unmarshal b (NewCustomC sharding) = Some m' \<and> cm_wf m' \<and> cm_Get m' = cm_Get m"
proof -
  let ?tmp = "fold (\<lambda>(k, v) tmp. AList.update k v tmp) (cm_IterBuffered m) []"
  have g: "map_of ?tmp = cm_Get m"
    using entries_distinct [OF assms(1)] entries_Get [OF assms(1)] by (simp add: fold_update_Get map_of_rev_distinct)
  obtain tmp' where t: "unmarshal b = Some tmp'" "distinct (map fst tmp')" "map_of tmp' = map_of ?tmp"
    using assms(2,3) unfolding cm_MarshalJSON_def by blast
  let ?m' = "fold (\<lambda>(k, v) m'. snd (cm_Set m' k v)) tmp' (NewCustomC sharding)"
  have "cm_wf ?m' \<and> cm_Get ?m' = cm_Get m"
    using fold_Set [OF cm_create_wf(1) t(2), of sharding] g t(3) by (simp add: NewCustomC_def cm_create_wf(2))
  then show ?thesis using t(1) by (simp add: cm_UnmarshalJSON_def)
qed

subsection \<open>The interface the registry uses\<close>

locale atomic_map =
  fixes get :: "'m \<Rightarrow> 'k \<Rightarrow> 'v option"
    and put_absent :: "'m \<Rightarrow> 'k \<Rightarrow> 'v \<Rightarrow> 'v option \<times> 'm"
    and remove_if :: "'m \<Rightarrow> 'k \<Rightarrow> ('k \<Rightarrow> 'v option \<Rightarrow> bool) \<Rightarrow> bool \<times> 'm"
    and invar :: "'m \<Rightarrow> bool"
  assumes put_absent_spec: "invar m \<Longrightarrow> invar (snd (put_absent m k v)) \<and> fst (put_absent m k v) = get m k \<and>
      get (snd (put_absent m k v)) = (if get m k = None then (get m)(k \<mapsto> v) else get m)"
    and remove_if_spec: "invar m \<Longrightarrow> invar (snd (remove_if m k cb)) \<and>
      get (snd (remove_if m k cb)) = (if cb k (get m k) then (get m)(k := None) else get m)"
begin

lemma first_wins:
  assumes "invar m" and "put_absent m k v = (r, m')"
  shows "get m' k = Some (case r of None \<Rightarrow> v | Some w \<Rightarrow> w)" "r = get m k"
  using put_absent_spec [OF assms(1), of k v] assms(2) by (auto split: option.splits)

lemma remove_expected:
  assumes "invar m"
  shows "get (snd (remove_if m k (\<lambda>_ actual. actual = Some v)))
    = (if get m k = Some v then (get m)(k := None) else get m)"
  using remove_if_spec [OF assms, of k "\<lambda>_ actual. actual = Some v"] by simp

end

interpretation cm: atomic_map cm_Get cm_SetIfNotExist cm_RemoveCb cm_wf
proof unfold_locales
  fix m :: "('a, 'b) concurrent_map" and k v
  assume "cm_wf m"
  then show "cm_wf (snd (cm_SetIfNotExist m k v)) \<and> fst (cm_SetIfNotExist m k v) = cm_Get m k \<and>
      cm_Get (snd (cm_SetIfNotExist m k v)) = (if cm_Get m k = None then (cm_Get m)(k \<mapsto> v) else cm_Get m)"
    using cm_exec_refines [of m "OSetIfNotExist k v"] by simp
next
  fix m :: "('a, 'b) concurrent_map" and k cb
  assume "cm_wf m"
  then show "cm_wf (snd (cm_RemoveCb m k cb)) \<and>
      cm_Get (snd (cm_RemoveCb m k cb)) = (if cb k (cm_Get m k) then (cm_Get m)(k := None) else cm_Get m)"
    using cm_exec_refines [of m "ORemoveCb k cb"] by simp
qed

end
