(* ===== verification/Registry_Spawn.thy ===== *)
theory Registry_Spawn
  imports Safe_Map
begin

section \<open>Registry and spawning: registry.go, processor_spawn.go\<close>

text \<open>
  The registry is the index of actor ids. Spawning reserves an id with a per-id slot so that the
  user's producer runs for one caller at a time; a caller that only wants the instance to exist
  (\<open>getOrSpawnProcessor\<close>) shares the reservation with one that wants to create it
  (\<open>spawnNewProcessor\<close>). Processors are numbers here: what one does is the subject of
  \<open>Mailbox_Processor\<close>. The callers are goroutines, so the model is again a step relation: one step is
  a critical section of the bookkeeping mutex, acquiring or releasing a slot's mutex, one registry
  operation, the construction, or the start. Processors stop at any time, which removes them.
\<close>

subsection \<open>The registry\<close>

type_synonym registry = "(string, nat) concurrent_map"

definition newRegistry :: "(string \<Rightarrow> u32) \<Rightarrow> registry" where
  "newRegistry hash = cm_create hash"

definition reg_lookup :: "registry \<Rightarrow> string \<Rightarrow> nat option" where
  "reg_lookup r i = cm_Get r i"

definition reg_register :: "registry \<Rightarrow> string \<Rightarrow> nat \<Rightarrow> (nat \<times> bool) \<times> registry" where
  "reg_register r i proc = (case cm_SetIfNotExist r i proc of
      (Some actual, r') \<Rightarrow> ((actual, False), r')
    | (None, r') \<Rightarrow> ((proc, True), r'))"

definition reg_remove :: "registry \<Rightarrow> string \<Rightarrow> nat \<Rightarrow> registry" where
  "reg_remove r i expected = snd (cm_RemoveCb r i (\<lambda>_ actual. actual = Some expected))"

text \<open>\<open>rangeIt\<close> takes a snapshot under the locks and calls \<open>fun\<close> afterwards.\<close>

definition reg_rangeIt :: "(string \<Rightarrow> nat \<Rightarrow> 's \<Rightarrow> 's) \<Rightarrow> registry \<Rightarrow> 's \<Rightarrow> 's" where
  "reg_rangeIt f r s = fold (\<lambda>(k, v) s. f k v s) (cm_IterCb (\<lambda>k v es. es @ [(k, v)]) r []) s"

lemma reg_register_spec:
  assumes "cm_wf r"
  shows "cm_wf (snd (reg_register r i p))"
    and "fst (reg_register r i p) = (case cm_Get r i of None \<Rightarrow> (p, True) | Some q \<Rightarrow> (q, False))"
    and "cm_Get (snd (reg_register r i p)) = (if cm_Get r i = None then (cm_Get r)(i \<mapsto> p) else cm_Get r)"
  using cm.put_absent_spec [OF assms, of i p]
  by (auto simp: reg_register_def case_prod_beta split: option.splits)

lemma reg_remove_spec:
  assumes "cm_wf r"
  shows "cm_wf (reg_remove r i p)"
    and "cm_Get (reg_remove r i p) = (if cm_Get r i = Some p then (cm_Get r)(i := None) else cm_Get r)"
  using cm.remove_if_spec [OF assms, of i "\<lambda>_ actual. actual = Some p"] cm.remove_expected [OF assms, of i p]
  by (auto simp: reg_remove_def)

lemma snapshot_entries: "cm_IterCb (\<lambda>k v es. es @ [(k, v)]) r es = es @ cm_IterBuffered r"
proof -
  have "fold (\<lambda>(k, v) es. es @ [(k, v)]) xs es = es @ xs" for xs :: "('a \<times> 'b) list" and es
    by (induction xs arbitrary: es) auto
  then show ?thesis by (simp add: IterCb_fold)
qed

text \<open>
  The registry never evicts a newer activation: on every well-formed registry, \<open>register\<close>
  publishes a processor exactly when the id is free and otherwise returns the one that is there;
  \<open>remove\<close> with a processor that is not the registered one changes nothing, and with the registered
  one frees the id and no other; \<open>rangeIt\<close> calls its function once for every registered processor.
\<close>

lemma registry_keeps_newer_activation:
  assumes "cm_wf r"
  shows "reg_lookup (snd (reg_register r i p)) i = Some (fst (fst (reg_register r i p))) \<and>
    (snd (fst (reg_register r i p)) \<longleftrightarrow> reg_lookup r i = None) \<and>
    (\<forall>q. reg_lookup r i = Some q \<longrightarrow> fst (reg_register r i p) = (q, False)) \<and>
    (\<forall>j. j \<noteq> i \<longrightarrow> reg_lookup (snd (reg_register r i p)) j = reg_lookup r j) \<and>
    (\<forall>j. reg_lookup (reg_remove r i p) j =
       (if j = i \<and> reg_lookup r i = Some p then None else reg_lookup r j)) \<and>
    reg_rangeIt (\<lambda>k v es. es @ [(k, v)]) r [] = cm_IterBuffered r \<and>
    distinct (map fst (cm_IterBuffered r)) \<and> map_of (cm_IterBuffered r) = reg_lookup r \<and>
    cm_wf (snd (reg_register r i p)) \<and> cm_wf (reg_remove r i p)"
proof -
  have "fold (\<lambda>(k, v) es. es @ [(k, v)]) xs es = es @ xs" for xs :: "(string \<times> nat) list" and es
    by (induction xs arbitrary: es) auto
  then have "reg_rangeIt (\<lambda>k v es. es @ [(k, v)]) r [] = cm_IterBuffered r"
    by (simp add: reg_rangeIt_def snapshot_entries)
  moreover have "map_of (cm_IterBuffered r) = reg_lookup r"
    using entries_Get [OF assms] by (simp add: reg_lookup_def fun_eq_iff)
  ultimately show ?thesis
    using reg_register_spec [OF assms, of i p] reg_remove_spec [OF assms, of i p] entries_distinct [OF assms]
    by (auto simp: reg_lookup_def split: option.splits)
qed

subsection \<open>Reservations and spawning\<close>

text \<open>A slot: its mutex and the number of its users, which the bookkeeping mutex guards.\<close>

record creation_slot =
  slot_locked :: bool
  slot_users :: int

datatype spawn_policy = SpawnNew | GetOrSpawn

text \<open>What a call ends with: the processor, \<open>ErrNameExists\<close>, or a panic of the producer.\<close>

datatype spawn_result = Spawned nat | NameExists | ProducerPanic

datatype spawn_pc =
    SHit | SReserve | SAcquire | SLookup | SBuild | SRegister nat | SInit nat
  | SRelease spawn_result | SFree spawn_result | SDone spawn_result

record spawner =
  th_id :: string
  th_policy :: spawn_policy
  th_slot :: nat
  th_pc :: spawn_pc

record spawn_state =
  ss_slots :: "creation_slot list"
  ss_active :: "string \<rightharpoonup> nat"
  ss_registry :: registry
  ss_next :: nat
  ss_started :: "nat list"

text \<open>\<open>processorCreator.lock\<close>: the critical section, then the slot's mutex.\<close>

definition creator_reserve :: "string \<Rightarrow> spawn_state \<Rightarrow> nat \<times> spawn_state" where
  "creator_reserve i s =
     (let (slot, s1) = (case ss_active s i of
            Some slot \<Rightarrow> (slot, s)
          | None \<Rightarrow> (length (ss_slots s),
              s\<lparr>ss_slots := ss_slots s @ [\<lparr>slot_locked = False, slot_users = 0\<rparr>],
                ss_active := (ss_active s)(i \<mapsto> length (ss_slots s))\<rparr>))
      in (slot, s1\<lparr>ss_slots := (ss_slots s1)[slot := (ss_slots s1 ! slot)
                     \<lparr>slot_users := slot_users (ss_slots s1 ! slot) + 1\<rparr>]\<rparr>))"

definition slot_acquire :: "nat \<Rightarrow> spawn_state \<Rightarrow> spawn_state option" where
  "slot_acquire k s = (if slot_locked (ss_slots s ! k) then None
     else Some (s\<lparr>ss_slots := (ss_slots s)[k := (ss_slots s ! k)\<lparr>slot_locked := True\<rparr>]\<rparr>))"

text \<open>\<open>processorCreator.unlock\<close>: the slot's mutex, then the critical section.\<close>

definition slot_release :: "nat \<Rightarrow> spawn_state \<Rightarrow> spawn_state" where
  "slot_release k s = s\<lparr>ss_slots := (ss_slots s)[k := (ss_slots s ! k)\<lparr>slot_locked := False\<rparr>]\<rparr>"

definition creator_free :: "string \<Rightarrow> nat \<Rightarrow> spawn_state \<Rightarrow> spawn_state" where
  "creator_free i k s =
     (let users = slot_users (ss_slots s ! k) - 1;
          s1 = s\<lparr>ss_slots := (ss_slots s)[k := (ss_slots s ! k)\<lparr>slot_users := users\<rparr>]\<rparr>
      in if users = 0 then s1\<lparr>ss_active := (ss_active s1)(i := None)\<rparr> else s1)"

text \<open>
  One step of \<open>spawnNewProcessor\<close> or \<open>getOrSpawnProcessor\<close>. \<open>panics\<close>: the user's producer panics; the
  deferred \<open>unlock\<close> still runs.
\<close>

definition spawn_step :: "bool \<Rightarrow> spawn_state \<Rightarrow> spawner \<Rightarrow> (spawn_state \<times> spawner) option" where
  "spawn_step panics s t = (case th_pc t of
      SHit \<Rightarrow> Some (s, t\<lparr>th_pc := (case reg_lookup (ss_registry s) (th_id t) of
          Some p \<Rightarrow> SDone (Spawned p) | None \<Rightarrow> SReserve)\<rparr>)
    | SReserve \<Rightarrow> (let (slot, s') = creator_reserve (th_id t) s
                   in Some (s', t\<lparr>th_slot := slot, th_pc := SAcquire\<rparr>))
    | SAcquire \<Rightarrow> (case slot_acquire (th_slot t) s of None \<Rightarrow> None
                   | Some s' \<Rightarrow> Some (s', t\<lparr>th_pc := SLookup\<rparr>))
    | SLookup \<Rightarrow> Some (s, t\<lparr>th_pc := (case reg_lookup (ss_registry s) (th_id t) of
          Some p \<Rightarrow> SRelease (if th_policy t = SpawnNew then NameExists else Spawned p)
        | None \<Rightarrow> SBuild)\<rparr>)
    | SBuild \<Rightarrow> if panics then Some (s, t\<lparr>th_pc := SRelease ProducerPanic\<rparr>)
                else Some (s\<lparr>ss_next := ss_next s + 1\<rparr>, t\<lparr>th_pc := SRegister (ss_next s)\<rparr>)
    | SRegister p \<Rightarrow> (let ((actual, inserted), r) = reg_register (ss_registry s) (th_id t) p
        in Some (s\<lparr>ss_registry := r\<rparr>, t\<lparr>th_pc :=
             (if inserted then SInit p
              else SRelease (if th_policy t = SpawnNew then NameExists else Spawned actual))\<rparr>))
    | SInit p \<Rightarrow> Some (s\<lparr>ss_started := ss_started s @ [p]\<rparr>, t\<lparr>th_pc := SRelease (Spawned p)\<rparr>)
    | SRelease r \<Rightarrow> Some (slot_release (th_slot t) s, t\<lparr>th_pc := SFree r\<rparr>)
    | SFree r \<Rightarrow> Some (creator_free (th_id t) (th_slot t) s, t\<lparr>th_pc := SDone r\<rparr>)
    | SDone r \<Rightarrow> None)"

definition spawner_of :: "spawn_policy \<Rightarrow> string \<Rightarrow> spawner" where
  "spawner_of policy i = \<lparr>th_id = i, th_policy = policy, th_slot = 0,
     th_pc = (if policy = SpawnNew then SReserve else SHit)\<rparr>"

inductive sstep :: "spawn_state \<times> spawner list \<Rightarrow> spawn_state \<times> spawner list \<Rightarrow> bool" where
  arrive: "sstep (s, ts) (s, ts @ [spawner_of policy i])"
| run: "k < length ts \<Longrightarrow> spawn_step panics s (ts ! k) = Some (s', t') \<Longrightarrow> sstep (s, ts) (s', ts[k := t'])"
| stopped: "sstep (s, ts) (s\<lparr>ss_registry := reg_remove (ss_registry s) i p\<rparr>, ts)"

inductive sreach :: "spawn_state \<times> spawner list \<Rightarrow> bool" where
  init: "sreach (\<lparr>ss_slots = [], ss_active = Map.empty, ss_registry = newRegistry hash, ss_next = 0,
     ss_started = []\<rparr>, [])"
| step: "sreach p \<Longrightarrow> sstep p p' \<Longrightarrow> sreach p'"

subsection \<open>Invariant of spawning\<close>

fun pc_using :: "spawn_pc \<Rightarrow> bool" where
  "pc_using SHit = False" | "pc_using SReserve = False" | "pc_using (SDone r) = False" | "pc_using _ = True"

fun pc_holding :: "spawn_pc \<Rightarrow> bool" where
  "pc_holding SLookup = True" | "pc_holding SBuild = True" | "pc_holding (SRegister p) = True"
| "pc_holding (SInit p) = True" | "pc_holding (SRelease r) = True" | "pc_holding _ = False"

fun pc_creating :: "spawn_pc \<Rightarrow> bool" where
  "pc_creating SBuild = True" | "pc_creating (SRegister p) = True" | "pc_creating _ = False"

definition using_id :: "string \<Rightarrow> spawner \<Rightarrow> bool" where
  "using_id i t \<longleftrightarrow> th_id t = i \<and> pc_using (th_pc t)"

definition holding_id :: "string \<Rightarrow> spawner \<Rightarrow> bool" where
  "holding_id i t \<longleftrightarrow> th_id t = i \<and> pc_holding (th_pc t)"

definition inv_slots :: "spawn_state \<times> spawner list \<Rightarrow> bool" where
  "inv_slots p \<longleftrightarrow>
     (\<forall>t \<in> set (snd p). pc_using (th_pc t) \<longrightarrow> ss_active (fst p) (th_id t) = Some (th_slot t)) \<and>
     (\<forall>i k. ss_active (fst p) i = Some k \<longrightarrow> k < length (ss_slots (fst p)) \<and>
        slot_users (ss_slots (fst p) ! k) = int (num (using_id i) (snd p)) \<and> 0 < num (using_id i) (snd p) \<and>
        num (holding_id i) (snd p) = of_bool (slot_locked (ss_slots (fst p) ! k))) \<and>
     inj_on (ss_active (fst p)) (dom (ss_active (fst p)))"

definition inv_creating :: "spawn_state \<times> spawner list \<Rightarrow> bool" where
  "inv_creating p \<longleftrightarrow> cm_wf (ss_registry (fst p)) \<and>
     (\<forall>t \<in> set (snd p). pc_creating (th_pc t) \<longrightarrow> cm_Get (ss_registry (fst p)) (th_id t) = None)"

lemma num_list_update:
  assumes "k < length ts"
  shows "num P (ts[k := t']) + of_bool (P (ts ! k)) = num P ts + of_bool (P t')"
  using assms num_pos_if_nth [OF assms, of P] by (auto simp: count_simps)

lemma holding_using: "pc_holding pc \<Longrightarrow> pc_using pc"
  by (cases pc) auto

lemma creating_holding: "pc_creating pc \<Longrightarrow> pc_holding pc"
  by (cases pc) auto

text \<open>A step that moves a caller between program points with the same use of its slot.\<close>

lemma inv_slots_frame:
  assumes "inv_slots (s, ts)" and "k < length ts" and "th_id t' = th_id (ts ! k)" "th_slot t' = th_slot (ts ! k)"
    and "pc_using (th_pc t') = pc_using (th_pc (ts ! k))" "pc_holding (th_pc t') = pc_holding (th_pc (ts ! k))"
    and "ss_slots s' = ss_slots s" "ss_active s' = ss_active s"
  shows "inv_slots (s', ts[k := t'])"
proof -
  have n: "num (using_id i) (ts[k := t']) = num (using_id i) ts" "num (holding_id i) (ts[k := t']) = num (holding_id i) ts" for i
    using num_list_update [OF assms(2), of "using_id i" t'] num_list_update [OF assms(2), of "holding_id i" t'] assms(3,5,6)
    by (auto simp: using_id_def holding_id_def)
  have "ss_active s (th_id t) = Some (th_slot t)" if "t \<in> set (ts[k := t'])" "pc_using (th_pc t)" for t
    using that assms(1-5) set_update_subset_insert [of ts k t'] nth_mem [OF assms(2)]
    by (auto simp: inv_slots_def)
  then show ?thesis using assms(1,7,8) n by (simp add: inv_slots_def)
qed

lemma inv_slotsD:
  assumes "inv_slots (s, ts)"
  shows "\<And>j. j < length ts \<Longrightarrow> pc_using (th_pc (ts ! j)) \<Longrightarrow> ss_active s (th_id (ts ! j)) = Some (th_slot (ts ! j))"
    and "\<And>i k. ss_active s i = Some k \<Longrightarrow> k < length (ss_slots s)"
    and "\<And>i k. ss_active s i = Some k \<Longrightarrow> slot_users (ss_slots s ! k) = int (num (using_id i) ts)"
    and "\<And>i k. ss_active s i = Some k \<Longrightarrow> 0 < num (using_id i) ts"
    and "\<And>i k. ss_active s i = Some k \<Longrightarrow> num (holding_id i) ts = of_bool (slot_locked (ss_slots s ! k))"
    and "\<And>i i' k. ss_active s i = Some k \<Longrightarrow> ss_active s i' = Some k \<Longrightarrow> i = i'"
  using assms nth_mem [of _ ts] unfolding inv_slots_def inj_on_def dom_def fst_conv snd_conv by (blast, blast, blast, blast, blast, force)

lemma num_other_id:
  assumes "j < length ts" "th_id t' = th_id (ts ! j)" "i \<noteq> th_id (ts ! j)"
  shows "num (using_id i) (ts[j := t']) = num (using_id i) ts" "num (holding_id i) (ts[j := t']) = num (holding_id i) ts"
  using num_list_update [OF assms(1), of "using_id i" t'] num_list_update [OF assms(1), of "holding_id i" t'] assms(2,3)
  by (auto simp: using_id_def holding_id_def)

text \<open>One caller of an id changes the slot of this id.\<close>

lemma inv_slots_change:
  assumes I: "inv_slots (s, ts)" and j: "j < length ts" and t: "th_id t' = th_id (ts ! j)" "th_slot t' = k" "pc_using (th_pc t')"
    and act: "ss_active s (th_id (ts ! j)) = Some k" "ss_active s' = ss_active s"
    and sl: "ss_slots s' = (ss_slots s)[k := sl]"
    and users: "slot_users sl = slot_users (ss_slots s ! k) + of_bool (\<not> pc_using (th_pc (ts ! j)))"
    and lock: "of_bool (slot_locked sl) + of_bool (pc_holding (th_pc (ts ! j)))
      = of_bool (slot_locked (ss_slots s ! k)) + (of_bool (pc_holding (th_pc t')) :: nat)"
  shows "inv_slots (s', ts[j := t'])"
proof -
  note D = inv_slotsD [OF I]
  let ?i = "th_id (ts ! j)"
  have "ss_active s (th_id x) = Some (th_slot x)" if "x \<in> set (ts[j := t'])" "pc_using (th_pc x)" for x
    using that t act(1) I set_update_subset_insert [of ts j t'] by (auto simp: inv_slots_def)
  moreover have "k' < length (ss_slots s') \<and> slot_users (ss_slots s' ! k') = int (num (using_id i) (ts[j := t'])) \<and>
      0 < num (using_id i) (ts[j := t']) \<and> num (holding_id i) (ts[j := t']) = of_bool (slot_locked (ss_slots s' ! k'))"
    if a: "ss_active s i = Some k'" for i k'
  proof (cases "i = ?i")
    case True
    then have "k' = k" using a act(1) by simp
    then show ?thesis
      using num_list_update [OF j, of "using_id i" t'] num_list_update [OF j, of "holding_id i" t'] D(2-5) [OF a] True t(1,3) sl users lock
      by (auto simp: using_id_def holding_id_def)
  next
    case False
    then have "k' \<noteq> k" using D(6) [OF a] act(1) by blast
    then show ?thesis using num_other_id [OF j t(1) False] D(2-5) [OF a] sl by simp
  qed
  ultimately show ?thesis using I act(2) by (simp add: inv_slots_def)
qed

lemma using_none:
  assumes "inv_slots (s, ts)" and "ss_active s i = None"
  shows "num (using_id i) ts = 0" "num (holding_id i) ts = 0"
proof -
  have "\<not> using_id i t" if "t \<in> set ts" for t
    using assms that by (auto simp: inv_slots_def using_id_def)
  then show "num (using_id i) ts = 0" "num (holding_id i) ts = 0"
    using holding_using by (auto simp: num_zero_iff using_id_def holding_id_def)
qed

lemma inv_slots_new:
  assumes I: "inv_slots (s, ts)" and j: "j < length ts" and none: "ss_active s (th_id (ts ! j)) = None"
    and t: "th_id t' = th_id (ts ! j)" "th_slot t' = length (ss_slots s)" "th_pc t' = SAcquire"
    and s': "ss_active s' = (ss_active s)(th_id (ts ! j) \<mapsto> length (ss_slots s))"
      "ss_slots s' = ss_slots s @ [\<lparr>slot_locked = False, slot_users = 1\<rparr>]"
  shows "inv_slots (s', ts[j := t'])"
proof -
  note D = inv_slotsD [OF I]
  let ?i = "th_id (ts ! j)"
  have pc: "\<not> pc_using (th_pc (ts ! j))" using D(1) [OF j] none by auto
  then have hd: "\<not> pc_holding (th_pc (ts ! j))" using holding_using by blast
  have "ss_active s' (th_id x) = Some (th_slot x)" if x: "x \<in> set (ts[j := t'])" "pc_using (th_pc x)" for x
  proof -
    have "x = t' \<or> x \<in> set ts" using x(1) set_update_subset_insert [of ts j t'] by auto
    then show ?thesis using I x(2) none t s'(1) by (auto simp: inv_slots_def)
  qed
  moreover have "k' < length (ss_slots s') \<and> slot_users (ss_slots s' ! k') = int (num (using_id i) (ts[j := t'])) \<and>
      0 < num (using_id i) (ts[j := t']) \<and> num (holding_id i) (ts[j := t']) = of_bool (slot_locked (ss_slots s' ! k'))"
    if a: "ss_active s' i = Some k'" for i k'
  proof (cases "i = ?i")
    case True
    then show ?thesis
      using a s' using_none [OF I none] num_list_update [OF j, of "using_id i" t'] num_list_update [OF j, of "holding_id i" t'] t pc hd
      by (auto simp: using_id_def holding_id_def)
  next
    case False
    then have a0: "ss_active s i = Some k'" using a s'(1) by simp
    show ?thesis using num_other_id [OF j t(1) False] D(2-5) [OF a0] s'(2) by (simp add: nth_append)
  qed
  moreover have "inj_on (ss_active s') (dom (ss_active s'))"
  proof (rule inj_onI)
    fix a b assume "a \<in> dom (ss_active s')" "b \<in> dom (ss_active s')" "ss_active s' a = ss_active s' b"
    then obtain k where k: "ss_active s' a = Some k" "ss_active s' b = Some k" by auto
    have old: "ss_active s x = Some k \<and> k < length (ss_slots s)" if "x \<noteq> ?i" "ss_active s' x = Some k" for x
      using that D(2) [of x k] s'(1) by simp
    show "a = b"
    proof (cases "a = ?i \<or> b = ?i")
      case True
      then have "k = length (ss_slots s)" using k s'(1) by auto
      then show ?thesis using old [OF _ k(1)] old [OF _ k(2)] by fastforce
    next
      case False
      then show ?thesis using D(6) [of a k b] old [OF _ k(1)] old [OF _ k(2)] by simp
    qed
  qed
  ultimately show ?thesis by (simp add: inv_slots_def)
qed

lemma inv_slots_free:
  assumes I: "inv_slots (s, ts)" and j: "j < length ts" and pc: "th_pc (ts ! j) = SFree r"
  shows "inv_slots (creator_free (th_id (ts ! j)) (th_slot (ts ! j)) s, ts[j := (ts ! j)\<lparr>th_pc := SDone r\<rparr>])"
proof -
  note D = inv_slotsD [OF I]
  let ?i = "th_id (ts ! j)" and ?k = "th_slot (ts ! j)" and ?t = "(ts ! j)\<lparr>th_pc := SDone r\<rparr>"
  let ?s = "creator_free ?i ?k s" and ?ts = "ts[j := ?t]"
  have act: "ss_active s ?i = Some ?k" using D(1) [OF j] pc by simp
  have nu: "num (using_id ?i) ?ts + 1 = num (using_id ?i) ts" "num (holding_id ?i) ?ts = num (holding_id ?i) ts"
    using num_list_update [OF j, of "using_id ?i" ?t] num_list_update [OF j, of "holding_id ?i" ?t] pc
    by (auto simp: using_id_def holding_id_def)
  have u: "slot_users (ss_slots s ! ?k) = int (num (using_id ?i) ts)" by (rule D(3) [OF act])
  have zero: "slot_users (ss_slots s ! ?k) - 1 = 0 \<longleftrightarrow> num (using_id ?i) ?ts = 0" using u nu(1) by linarith
  have act': "ss_active ?s = (if num (using_id ?i) ?ts = 0 then (ss_active s)(?i := None) else ss_active s)"
    using zero by (auto simp: creator_free_def Let_def)
  have "ss_active ?s (th_id x) = Some (th_slot x)" if x: "x \<in> set ?ts" "pc_using (th_pc x)" for x
  proof -
    have "x \<in> set ts" using x set_update_subset_insert [of ts j ?t] by auto
    then have "ss_active s (th_id x) = Some (th_slot x)" using I x(2) by (simp add: inv_slots_def)
    moreover have "num (using_id (th_id x)) ?ts \<noteq> 0" using x by (auto simp: num_zero_iff using_id_def)
    ultimately show ?thesis using act' by auto
  qed
  moreover have "k' < length (ss_slots ?s) \<and> slot_users (ss_slots ?s ! k') = int (num (using_id i) ?ts) \<and>
      0 < num (using_id i) ?ts \<and> num (holding_id i) ?ts = of_bool (slot_locked (ss_slots ?s ! k'))"
    if a: "ss_active ?s i = Some k'" for i k'
  proof -
    have a0: "ss_active s i = Some k'" using a act' by (auto split: if_splits)
    have sl: "ss_slots ?s = (ss_slots s)[?k := (ss_slots s ! ?k)\<lparr>slot_users := slot_users (ss_slots s ! ?k) - 1\<rparr>]"
      by (simp add: creator_free_def Let_def)
    show ?thesis
    proof (cases "i = ?i")
      case True
      have k': "k' = ?k" using a0 act True by simp
      have "num (using_id i) ?ts \<noteq> 0" using a act' True by (auto split: if_splits)
      then show ?thesis unfolding sl k' True using D(2-5) [OF act] nu by simp
    next
      case False
      then have "k' \<noteq> ?k" using D(6) [OF a0] act by blast
      then show ?thesis using num_other_id [OF j _ False, of ?t] D(2-5) [OF a0] by (simp add: sl)
    qed
  qed
  moreover have "inj_on (ss_active ?s) (dom (ss_active ?s))"
  proof (rule inj_onI)
    fix a b assume "a \<in> dom (ss_active ?s)" "b \<in> dom (ss_active ?s)" "ss_active ?s a = ss_active ?s b"
    then show "a = b" using D(6) act' by (auto split: if_splits)
  qed
  ultimately show ?thesis by (simp only: inv_slots_def fst_conv snd_conv) blast
qed

text \<open>Every caller's step keeps the reservations consistent.\<close>

lemma reserve_inv_slots:
  assumes I: "inv_slots (s, ts)" and j: "j < length ts" and pc: "th_pc (ts ! j) = SReserve"
    and r: "creator_reserve (th_id (ts ! j)) s = (k, s')"
  shows "inv_slots (s', ts[j := (ts ! j)\<lparr>th_slot := k, th_pc := SAcquire\<rparr>])"
proof (cases "ss_active s (th_id (ts ! j))")
  case None
  then have "s' = s\<lparr>ss_slots := ss_slots s @ [\<lparr>slot_locked = False, slot_users = 1\<rparr>],
      ss_active := (ss_active s)(th_id (ts ! j) \<mapsto> length (ss_slots s))\<rparr>" "k = length (ss_slots s)"
    using r by (auto simp: creator_reserve_def Let_def)
  then show ?thesis using inv_slots_new [OF I j None] by simp
next
  case (Some k0)
  then have s': "s' = s\<lparr>ss_slots := (ss_slots s)[k := (ss_slots s ! k)\<lparr>slot_users := slot_users (ss_slots s ! k) + 1\<rparr>]\<rparr>" "k0 = k"
    using r by (auto simp: creator_reserve_def Let_def)
  then show ?thesis using pc Some by (intro inv_slots_change [OF I j, where k = k and sl = "(ss_slots s ! k)\<lparr>slot_users := slot_users (ss_slots s ! k) + 1\<rparr>"]) auto
qed

lemma holder_locked:
  assumes I: "inv_slots (s, ts)" and j: "j < length ts" and pc: "pc_holding (th_pc (ts ! j))"
  shows "slot_locked (ss_slots s ! th_slot (ts ! j))" "num (holding_id (th_id (ts ! j))) ts = 1"
proof -
  have a: "ss_active s (th_id (ts ! j)) = Some (th_slot (ts ! j))"
    by (rule inv_slotsD(1) [OF I j holding_using [OF pc]])
  have "0 < num (holding_id (th_id (ts ! j))) ts"
    by (rule num_pos_if_nth [OF j]) (simp add: holding_id_def pc)
  then show "slot_locked (ss_slots s ! th_slot (ts ! j))" "num (holding_id (th_id (ts ! j))) ts = 1"
    using inv_slotsD(5) [OF I a] by (auto split: if_splits)
qed

lemma spawn_step_inv_slots:
  assumes I: "inv_slots (s, ts)" and j: "j < length ts" and st: "spawn_step panics s (ts ! j) = Some (s', t')"
  shows "inv_slots (s', ts[j := t'])"
proof (cases "th_pc (ts ! j)")
  case SReserve
  then show ?thesis using st reserve_inv_slots [OF I j SReserve] by (auto simp: spawn_step_def split: prod.splits)
next
  case SAcquire
  then have "ss_active s (th_id (ts ! j)) = Some (th_slot (ts ! j))" using inv_slotsD(1) [OF I j] by simp
  then show ?thesis using st SAcquire
    by (intro inv_slots_change [OF I j, where k = "th_slot (ts ! j)" and sl = "(ss_slots s ! th_slot (ts ! j))\<lparr>slot_locked := True\<rparr>"])
       (auto simp: spawn_step_def slot_acquire_def split: if_splits)
next
  case (SRelease r)
  then have "ss_active s (th_id (ts ! j)) = Some (th_slot (ts ! j))" using inv_slotsD(1) [OF I j] by simp
  then show ?thesis using st SRelease holder_locked(1) [OF I j]
    by (intro inv_slots_change [OF I j, where k = "th_slot (ts ! j)" and sl = "(ss_slots s ! th_slot (ts ! j))\<lparr>slot_locked := False\<rparr>"])
       (auto simp: spawn_step_def slot_release_def)
next
  case (SFree r)
  then show ?thesis using st inv_slots_free [OF I j SFree] by (simp add: spawn_step_def)
qed (use st in \<open>auto simp: spawn_step_def Let_def split: option.splits prod.splits if_splits intro!: inv_slots_frame [OF I j]\<close>)

text \<open>
  Only the caller that holds the id's slot publishes under this id, so a caller that has found the id
  free still finds it free when it registers.
\<close>

lemma inv_creatingI:
  assumes "cm_wf (ss_registry s)" and "\<And>j. j < length ts \<Longrightarrow> pc_creating (th_pc (ts ! j)) \<Longrightarrow> cm_Get (ss_registry s) (th_id (ts ! j)) = None"
  shows "inv_creating (s, ts)"
  using assms by (auto simp: inv_creating_def in_set_conv_nth)

lemma inv_creatingD:
  assumes "inv_creating (s, ts)"
  shows "cm_wf (ss_registry s)"
    and "j < length ts \<Longrightarrow> pc_creating (th_pc (ts ! j)) \<Longrightarrow> cm_Get (ss_registry s) (th_id (ts ! j)) = None"
  using assms by (auto simp: inv_creating_def)

lemma inv_creating_frame:
  assumes "inv_creating (s, ts)" and "ss_registry s' = ss_registry s"
    and "pc_creating (th_pc t') \<longrightarrow> cm_Get (ss_registry s) (th_id t') = None"
  shows "inv_creating (s', ts[j := t'])"
  using assms set_update_subset_insert [of ts j t'] by (auto simp: inv_creating_def)

lemma register_inv_creating:
  assumes I: "inv_slots (s, ts)" "inv_creating (s, ts)" and j: "j < length ts" and pc: "th_pc (ts ! j) = SRegister p"
    and t': "\<not> pc_creating (th_pc t')" and s': "ss_registry s' = snd (reg_register (ss_registry s) (th_id (ts ! j)) q)"
  shows "inv_creating (s', ts[j := t'])"
proof (rule inv_creatingI)
  note W = inv_creatingD(1) [OF I(2)]
  show "cm_wf (ss_registry s')" using reg_register_spec(1) [OF W] s' by simp
  fix m assume m: "m < length (ts[j := t'])" "pc_creating (th_pc (ts[j := t'] ! m))"
  have mj: "m \<noteq> j" using m(2) j t' by (cases "m = j") simp_all
  then have m': "m < length ts" "pc_creating (th_pc (ts ! m))" "ts[j := t'] ! m = ts ! m" using m by simp_all
  have "th_id (ts ! m) \<noteq> th_id (ts ! j)"
  proof
    assume e: "th_id (ts ! m) = th_id (ts ! j)"
    have "m = j"
      using holder_locked(2) [OF I(1) j] pc creating_holding [OF m'(2)] e
      by (intro num_le_one_nth_eq [of "holding_id (th_id (ts ! j))" ts m j]) (auto simp: holding_id_def m'(1) j)
    then show False using mj by simp
  qed
  then show "cm_Get (ss_registry s') (th_id (ts[j := t'] ! m)) = None"
    using inv_creatingD(2) [OF I(2) m'(1,2)] reg_register_spec(3) [OF W, of "th_id (ts ! j)" q] s' m'(3) by simp
qed

lemma spawn_step_inv_creating:
  assumes I: "inv_slots (s, ts)" "inv_creating (s, ts)" and j: "j < length ts"
    and st: "spawn_step panics s (ts ! j) = Some (s', t')"
  shows "inv_creating (s', ts[j := t'])"
proof (cases "th_pc (ts ! j)")
  case (SRegister p)
  then show ?thesis using st
    by (intro register_inv_creating [OF I j SRegister, where q = p]) (auto simp: spawn_step_def Let_def case_prod_beta split: if_splits)
next
  case SReserve
  have "ss_registry (snd (creator_reserve i s)) = ss_registry s" for i
    by (simp add: creator_reserve_def Let_def split: option.splits)
  then show ?thesis using st SReserve
    by (intro inv_creating_frame [OF I(2)]) (auto simp: spawn_step_def case_prod_beta)
qed (use st inv_creatingD(2) [OF I(2) j] in \<open>auto simp: spawn_step_def Let_def slot_acquire_def slot_release_def creator_free_def
    reg_lookup_def split: option.splits if_splits intro!: inv_creating_frame [OF I(2)]\<close>)

inductive_cases sstepE: "sstep p p'"

lemma spawner_of_idle: "\<not> pc_using (th_pc (spawner_of policy i))" "\<not> pc_holding (th_pc (spawner_of policy i))"
    "\<not> pc_creating (th_pc (spawner_of policy i))"
  by (simp_all add: spawner_of_def)

lemma sstep_inv:
  assumes "sstep p p'" and "inv_slots p" and "inv_creating p"
  shows "inv_slots p' \<and> inv_creating p'"
  using assms
proof cases
  case (arrive s ts policy i)
  have "num (using_id j) (ts @ [spawner_of policy i]) = num (using_id j) ts"
    "num (holding_id j) (ts @ [spawner_of policy i]) = num (holding_id j) ts" for j
    by (simp_all add: using_id_def holding_id_def spawner_of_idle)
  then show ?thesis using assms arrive spawner_of_idle by (simp add: inv_slots_def inv_creating_def)
next
  case (run k ts panics s s' t')
  then show ?thesis using spawn_step_inv_slots spawn_step_inv_creating assms(2,3) by blast
next
  case (stopped s ts i q)
  have "cm_wf (ss_registry s)" using assms(3) stopped(1) by (simp add: inv_creating_def)
  note R = reg_remove_spec [OF this, of i q]
  show ?thesis using assms(2,3) R stopped by (auto simp: inv_slots_def inv_creating_def)
qed

lemma sreach_inv: "sreach p \<Longrightarrow> inv_slots p \<and> inv_creating p"
proof (induction rule: sreach.induct)
  case (init hash)
  then show ?case by (simp add: inv_slots_def inv_creating_def newRegistry_def cm_create_wf)
next
  case (step p p')
  then show ?case using sstep_inv by blast
qed

text \<open>A processor that has been built is with its creator until it is started.\<close>

fun pc_carrying :: "nat \<Rightarrow> spawn_pc \<Rightarrow> bool" where
  "pc_carrying p (SRegister q) = (p = q)" | "pc_carrying p (SInit q) = (p = q)" | "pc_carrying p _ = False"

definition carrying :: "nat \<Rightarrow> spawner \<Rightarrow> bool" where
  "carrying p t = pc_carrying p (th_pc t)"

definition inv_built :: "spawn_state \<times> spawner list \<Rightarrow> bool" where
  "inv_built c \<longleftrightarrow> (\<forall>p. count_list (ss_started (fst c)) p + num (carrying p) (snd c) = of_bool (p < ss_next (fst c)))"

lemma register_free:
  assumes "inv_creating (s, ts)" and "j < length ts" and "th_pc (ts ! j) = SRegister p"
  shows "fst (reg_register (ss_registry s) (th_id (ts ! j)) p) = (p, True)"
  using reg_register_spec(2) [OF inv_creatingD(1) [OF assms(1)]] inv_creatingD(2) [OF assms(1,2)] assms(3) by simp

lemma spawn_step_inv_built:
  assumes B: "inv_built (s, ts)" and C: "inv_creating (s, ts)" and j: "j < length ts"
    and st: "spawn_step panics s (ts ! j) = Some (s', t')"
  shows "inv_built (s', ts[j := t'])"
  unfolding inv_built_def fst_conv snd_conv
proof
  fix p
  have b: "count_list (ss_started s) p + num (carrying p) ts = of_bool (p < ss_next s)" using B by (simp add: inv_built_def)
  have n: "num (carrying p) (ts[j := t']) + of_bool (carrying p (ts ! j)) = num (carrying p) ts + of_bool (carrying p t')"
    by (rule num_list_update [OF j])
  show "count_list (ss_started s') p + num (carrying p) (ts[j := t']) = of_bool (p < ss_next s')"
  proof (cases "th_pc (ts ! j)")
    case (SRegister q)
    then show ?thesis using st b n register_free [OF C j SRegister]
      by (auto simp: spawn_step_def Let_def case_prod_beta carrying_def)
  next
    case SReserve
    have "ss_started (snd (creator_reserve i s)) = ss_started s" "ss_next (snd (creator_reserve i s)) = ss_next s" for i
      by (simp_all add: creator_reserve_def Let_def split: option.splits)
    then show ?thesis using st SReserve b n by (auto simp: spawn_step_def case_prod_beta carrying_def)
  qed (use st b n in \<open>auto simp: spawn_step_def Let_def slot_acquire_def slot_release_def creator_free_def carrying_def
    split: option.splits if_splits\<close>)
qed

lemma sreach_inv_built: "sreach p \<Longrightarrow> inv_built p"
proof (induction rule: sreach.induct)
  case (init hash)
  then show ?case by (simp add: inv_built_def)
next
  case (step p p')
  have C: "inv_creating p" using sreach_inv [OF step(1)] by simp
  show ?case using step(2,3) C
  proof cases
    case (arrive s ts policy i)
    have "\<not> carrying q (spawner_of policy i)" for q by (simp add: carrying_def spawner_of_def)
    then show ?thesis using step(3) arrive by (simp add: inv_built_def)
  next
    case (run k ts panics s s' t')
    then show ?thesis using spawn_step_inv_built step(3) C by blast
  next
    case (stopped s ts i q)
    then show ?thesis using step(3) by (simp add: inv_built_def)
  qed
qed

text \<open>Callers take turns: whoever waits for a slot waits for a caller that can go on.\<close>

lemma spawner_not_stuck:
  assumes I: "inv_slots (s, ts)" and j: "j < length ts" and d: "\<forall>r. th_pc (ts ! j) \<noteq> SDone r"
  shows "\<exists>m < length ts. th_id (ts ! m) = th_id (ts ! j) \<and> spawn_step b s (ts ! m) \<noteq> None"
proof (cases "spawn_step b s (ts ! j) = None")
  case True
  then have pc: "th_pc (ts ! j) = SAcquire" "slot_locked (ss_slots s ! th_slot (ts ! j))"
    using d by (auto simp: spawn_step_def slot_acquire_def Let_def case_prod_beta split: spawn_pc.splits if_splits option.splits)
  have a: "ss_active s (th_id (ts ! j)) = Some (th_slot (ts ! j))" using inv_slotsD(1) [OF I j] pc(1) by simp
  have "num (holding_id (th_id (ts ! j))) ts \<noteq> 0" using inv_slotsD(5) [OF I a] pc(2) by simp
  then obtain m where m: "m < length ts" "holding_id (th_id (ts ! j)) (ts ! m)"
    by (auto simp: num_zero_iff in_set_conv_nth)
  then have "spawn_step b s (ts ! m) \<noteq> None"
    by (cases "th_pc (ts ! m)") (auto simp: holding_id_def spawn_step_def Let_def case_prod_beta)
  then show ?thesis using m by (auto simp: holding_id_def)
next
  case False
  then show ?thesis using j by blast
qed

text \<open>
  C15. Creation of an id is serialised and never wasted. In every reachable state of concurrent
  spawners, stopping processors and panicking producers: two callers that hold the reservation of one
  id are the same caller, whichever policy they follow; a caller that comes to publish the processor it
  has built always publishes it (the branch for a lost race is dead); every processor that was built is
  started exactly once, or is still with its creator; and a reservation exists only while some caller
  uses it, even after a panic.
\<close>

theorem creation_serialised_per_id:
  assumes "sreach (s, ts)"
  shows "(\<forall>j m. j < length ts \<and> m < length ts \<and> th_id (ts ! j) = th_id (ts ! m) \<and>
        pc_holding (th_pc (ts ! j)) \<and> pc_holding (th_pc (ts ! m)) \<longrightarrow> j = m) \<and>
    (\<forall>j p. j < length ts \<and> th_pc (ts ! j) = SRegister p \<longrightarrow>
        fst (reg_register (ss_registry s) (th_id (ts ! j)) p) = (p, True)) \<and>
    (\<forall>p. count_list (ss_started s) p + num (carrying p) ts = of_bool (p < ss_next s)) \<and>
    (\<forall>i. (\<forall>t \<in> set ts. th_id t = i \<longrightarrow> \<not> pc_using (th_pc t)) \<longrightarrow> ss_active s i = None)"
proof -
  have I: "inv_slots (s, ts)" "inv_creating (s, ts)" using sreach_inv [OF assms] by simp_all
  have "j = m" if "j < length ts" "m < length ts" "th_id (ts ! j) = th_id (ts ! m)"
    "pc_holding (th_pc (ts ! j))" "pc_holding (th_pc (ts ! m))" for j m
    using holder_locked(2) [OF I(1) that(1,4)] that
    by (intro num_le_one_nth_eq [of "holding_id (th_id (ts ! j))" ts]) (auto simp: holding_id_def)
  moreover have "ss_active s i = None" if "\<forall>t \<in> set ts. th_id t = i \<longrightarrow> \<not> pc_using (th_pc t)" for i
  proof (cases "ss_active s i")
    case (Some k)
    then show ?thesis using inv_slotsD(4) [OF I(1) Some] that by (auto simp: num_def using_id_def)
  qed
  ultimately show ?thesis using register_free [OF I(2)] sreach_inv_built [OF assms] by (simp add: inv_built_def)
qed

text \<open>A run for the witnesses: a spawner of an id and a second caller that arrives while it builds.\<close>

definition empty_spawns :: spawn_state where
  "empty_spawns = \<lparr>ss_slots = [], ss_active = Map.empty, ss_registry = newRegistry stringFnv32, ss_next = 0, ss_started = []\<rparr>"

definition spawner_at :: "spawn_policy \<Rightarrow> spawn_pc \<Rightarrow> spawner" where
  "spawner_at policy pc = \<lparr>th_id = ''a'', th_policy = policy, th_slot = 0, th_pc = pc\<rparr>"

definition racing_spawns :: spawn_state where
  "racing_spawns = empty_spawns\<lparr>ss_slots := [\<lparr>slot_locked = True, slot_users = 2\<rparr>], ss_active := [''a'' \<mapsto> 0], ss_next := 1\<rparr>"

lemma sreach_run: "sreach (s, ts) \<Longrightarrow> k < length ts \<Longrightarrow> spawn_step b s (ts ! k) = Some (s', t') \<Longrightarrow> sreach (s', ts[k := t'])"
  by (rule sreach.step [OF _ sstep.run])

lemma racing_reachable: "sreach (racing_spawns, [spawner_at SpawnNew (SRegister 0), spawner_at GetOrSpawn SAcquire])"
proof -
  have g: "reg_lookup (newRegistry stringFnv32) i = None" for i by (simp add: reg_lookup_def newRegistry_def cm_create_wf)
  note d = spawn_step_def creator_reserve_def slot_acquire_def spawner_at_def spawner_of_def empty_spawns_def racing_spawns_def g
  let ?s1 = "empty_spawns\<lparr>ss_slots := [\<lparr>slot_locked = False, slot_users = 1\<rparr>], ss_active := [''a'' \<mapsto> 0]\<rparr>"
  let ?s2 = "?s1\<lparr>ss_slots := [\<lparr>slot_locked = True, slot_users = 1\<rparr>]\<rparr>"
  have "sreach (empty_spawns, [])" unfolding empty_spawns_def by (rule sreach.init)
  from sreach.step [OF this sstep.arrive, of SpawnNew "''a''"]
  have "sreach (empty_spawns, [spawner_at SpawnNew SReserve])" by (simp add: d)
  from sreach_run [OF this, of 0 False ?s1 "spawner_at SpawnNew SAcquire"]
  have "sreach (?s1, [spawner_at SpawnNew SAcquire])" by (simp add: d)
  from sreach_run [OF this, of 0 False ?s2 "spawner_at SpawnNew SLookup"]
  have "sreach (?s2, [spawner_at SpawnNew SLookup])" by (simp add: d)
  from sreach_run [OF this, of 0 False ?s2 "spawner_at SpawnNew SBuild"]
  have "sreach (?s2, [spawner_at SpawnNew SBuild])" by (simp add: d)
  from sreach_run [OF this, of 0 False "?s2\<lparr>ss_next := 1\<rparr>" "spawner_at SpawnNew (SRegister 0)"]
  have "sreach (?s2\<lparr>ss_next := 1\<rparr>, [spawner_at SpawnNew (SRegister 0)])" by (simp add: d)
  from sreach.step [OF this sstep.arrive, of GetOrSpawn "''a''"]
  have "sreach (?s2\<lparr>ss_next := 1\<rparr>, [spawner_at SpawnNew (SRegister 0), spawner_at GetOrSpawn SHit])" by (simp add: d)
  from sreach_run [OF this, of 1 False "?s2\<lparr>ss_next := 1\<rparr>" "spawner_at GetOrSpawn SReserve"]
  have "sreach (?s2\<lparr>ss_next := 1\<rparr>, [spawner_at SpawnNew (SRegister 0), spawner_at GetOrSpawn SReserve])" by (simp add: d)
  from sreach_run [OF this, of 1 False racing_spawns "spawner_at GetOrSpawn SAcquire"]
  show ?thesis by (simp add: d)
qed

theorem creation_serialised_per_id_witness:
  "let ts = [spawner_at SpawnNew (SRegister 0), spawner_at GetOrSpawn SAcquire] in
   sreach (racing_spawns, ts) \<and> fst (reg_register (ss_registry racing_spawns) ''a'' 0) = (0, True) \<and>
   count_list (ss_started racing_spawns) 0 + num (carrying 0) ts = 1 \<and>
   (\<forall>m < 2. pc_holding (th_pc (ts ! m)) \<longrightarrow> m = 0)"
proof -
  let ?ts = "[spawner_at SpawnNew (SRegister 0), spawner_at GetOrSpawn SAcquire]"
  note R = creation_serialised_per_id [OF racing_reachable]
  have hold: "m = 0" if "m < 2" "pc_holding (th_pc (?ts ! m))" for m
    using R [THEN conjunct1, rule_format, of m 0] that by (cases m) (auto simp: spawner_at_def less_Suc_eq numeral_2_eq_2)
  have pub: "fst (reg_register (ss_registry racing_spawns) ''a'' 0) = (0, True)"
    using R [THEN conjunct2, THEN conjunct1, rule_format, of 0 0] by (simp add: spawner_at_def)
  have "0 < ss_next racing_spawns" by (simp add: racing_spawns_def)
  then have "count_list (ss_started racing_spawns) 0 + num (carrying 0) ?ts = 1"
    using R [THEN conjunct2, THEN conjunct2, THEN conjunct1, rule_format, of 0] by simp
  then show ?thesis using racing_reachable hold pub unfolding Let_def by blast
qed

text \<open>
  C27. Spawning cannot deadlock: in every reachable state, for every caller that has not returned there
  is a caller of the same id (itself, or the holder of the slot it waits for) that can make a step,
  whether its producer panics or not.
\<close>

theorem spawn_never_deadlocks:
  assumes "sreach (s, ts)" and "j < length ts" and "\<forall>r. th_pc (ts ! j) \<noteq> SDone r"
  shows "\<exists>m < length ts. th_id (ts ! m) = th_id (ts ! j) \<and> spawn_step b s (ts ! m) \<noteq> None"
  using spawner_not_stuck [OF _ assms(2,3)] sreach_inv [OF assms(1)] by blast

theorem spawn_never_deadlocks_witness:
  "spawn_step False racing_spawns (spawner_at GetOrSpawn SAcquire) = None \<and>
   (\<exists>m < 2. spawn_step False racing_spawns ([spawner_at SpawnNew (SRegister 0), spawner_at GetOrSpawn SAcquire] ! m) \<noteq> None)"
proof
  show "spawn_step False racing_spawns (spawner_at GetOrSpawn SAcquire) = None"
    by (simp add: spawner_at_def spawn_step_def slot_acquire_def racing_spawns_def)
  let ?ts = "[spawner_at SpawnNew (SRegister 0), spawner_at GetOrSpawn SAcquire]"
  have "\<exists>m < length ?ts. th_id (?ts ! m) = th_id (?ts ! 1) \<and> spawn_step False racing_spawns (?ts ! m) \<noteq> None"
    by (rule spawn_never_deadlocks [OF racing_reachable]) (simp_all add: spawner_at_def)
  then show "\<exists>m < 2. spawn_step False racing_spawns (?ts ! m) \<noteq> None" by (auto simp: numeral_2_eq_2)
qed

end
