(* ===== verification/Kind_Opts.thy ===== *)
theory Kind_Opts
  imports Actor_Id Ring_Buffer
begin

section \<open>Options of an actor: kind_opts.go, kind_opts_with.go\<close>

text \<open>
  The options an actor is created with. A producer is user code, named here by a number. An option is
  a function that changes the record, and \<open>newOpts\<close> applies the caller's options in order over the
  defaults and clamps the mailbox sizes. The two registration callbacks of the record always hold the
  defaults in the program; they are modelled in \<open>Cluster_Lock\<close>.
\<close>

definition defaultMailboxInitSize :: int where "defaultMailboxInitSize = 8"
definition defaultMailboxMaxSize :: int where "defaultMailboxMaxSize = 4096"
definition defaultRegisterTimes :: nat where "defaultRegisterTimes = 3"

record tOpts =
  op_producer :: nat
  op_mailboxInitSize :: int
  op_mailboxMaxSize :: int
  op_kind :: string
  op_poisonFirstOnQuit :: bool
  op_self :: "actor_ref option"

type_synonym KindOptFunc = "tOpts \<Rightarrow> tOpts"

definition WithOptsMailboxSize :: "int \<Rightarrow> KindOptFunc" where
  "WithOptsMailboxSize n opts = opts\<lparr>op_mailboxInitSize := n\<rparr>"

definition WithOptsMailboxMaxSize :: "int \<Rightarrow> KindOptFunc" where
  "WithOptsMailboxMaxSize n opts = opts\<lparr>op_mailboxMaxSize := n\<rparr>"

definition WithOptsPoisonFirstOnQuit :: "bool \<Rightarrow> KindOptFunc" where
  "WithOptsPoisonFirstOnQuit poisonFirstOnQuit opts = opts\<lparr>op_poisonFirstOnQuit := poisonFirstOnQuit\<rparr>"

definition WithOptsKindName :: "string \<Rightarrow> KindOptFunc" where
  "WithOptsKindName kindName opts = opts\<lparr>op_kind := kindName\<rparr>"

definition withOptsDirectSelf :: "string \<Rightarrow> string \<Rightarrow> nat \<Rightarrow> nat \<Rightarrow> KindOptFunc" where
  "withOptsDirectSelf name address sys ptr opts =
     opts\<lparr>op_self := Some (newDirectActorRef (op_kind opts) name address sys ptr)\<rparr>"

definition withOptsClusterSelf :: "actor_ref \<Rightarrow> KindOptFunc" where
  "withOptsClusterSelf actorRef opts = opts\<lparr>op_self := Some actorRef, op_kind := GetKind actorRef\<rparr>"

definition newOpts :: "nat \<Rightarrow> KindOptFunc list \<Rightarrow> tOpts" where
  "newOpts p opts =
     (let ret = fold (\<lambda>opt ret. opt ret) opts
                  \<lparr>op_producer = p, op_mailboxInitSize = defaultMailboxInitSize,
                   op_mailboxMaxSize = defaultMailboxMaxSize, op_kind = defaultLocalKind,
                   op_poisonFirstOnQuit = True, op_self = None\<rparr>;
          ret = (if op_mailboxInitSize ret < 1 then ret\<lparr>op_mailboxInitSize := 1\<rparr> else ret)
      in if op_mailboxMaxSize ret < op_mailboxInitSize ret
         then ret\<lparr>op_mailboxMaxSize := op_mailboxInitSize ret\<rparr> else ret)"

text \<open>
  Whatever options the caller gives, the mailbox limits the processor is built with are sound: the
  initial size is at least one, the maximum is at least the initial size, the mailbox is built with
  exactly these limits and no further clamping, and sizes that were sound already are kept. The
  reference an actor gets is built from the kind the options ended with, since the framework appends
  its own option last: with a valid kind and name the reference parses back into them.
\<close>

lemma newOpts_sound:
  "1 \<le> op_mailboxInitSize (newOpts p opts) \<and> op_mailboxInitSize (newOpts p opts) \<le> op_mailboxMaxSize (newOpts p opts) \<and>
    (\<exists>rb. rb_New z (op_mailboxInitSize (newOpts p opts)) (op_mailboxMaxSize (newOpts p opts)) = Some rb \<and>
       rb_cap rb = op_mailboxInitSize (newOpts p opts) \<and> rb_maxCap rb = op_mailboxMaxSize (newOpts p opts)) \<and>
    newOpts p [WithOptsMailboxSize a, WithOptsMailboxMaxSize b] =
      (newOpts p [])\<lparr>op_mailboxInitSize := max 1 a, op_mailboxMaxSize := max (max 1 a) b\<rparr> \<and>
    (let o2 = newOpts p (opts @ [withOptsDirectSelf name addr sys ptr]) in
     validateKindName (op_kind o2) = None \<and> ValidateActorName name = None \<and> slash \<notin> set addr \<and> at_sign \<notin> set addr \<longrightarrow>
       (\<exists>self. op_self o2 = Some self \<and> isDirect self \<and> GetKind self = op_kind o2 \<and> GetName self = name \<and>
          GetDirectAddr self = addr))"
proof -
  let ?o1 = "newOpts p opts" and ?o2 = "newOpts p (opts @ [withOptsDirectSelf name addr sys ptr])"
  have sizes: "1 \<le> op_mailboxInitSize ?o1" "op_mailboxInitSize ?o1 \<le> op_mailboxMaxSize ?o1"
    by (simp_all add: newOpts_def Let_def)
  then have "rb_New z (op_mailboxInitSize ?o1) (op_mailboxMaxSize ?o1) = Some
      \<lparr>rb_items = replicate (nat (op_mailboxInitSize ?o1)) z, rb_head = 0, rb_tail = 0, rb_size = 0,
       rb_cap = op_mailboxInitSize ?o1, rb_maxCap = op_mailboxMaxSize ?o1, rb_closed = False\<rparr>"
    by (simp add: rb_New_def Let_def go_make_def)
  moreover have "newOpts p [WithOptsMailboxSize a, WithOptsMailboxMaxSize b] =
      (newOpts p [])\<lparr>op_mailboxInitSize := max 1 a, op_mailboxMaxSize := max (max 1 a) b\<rparr>"
    by (auto simp: newOpts_def Let_def WithOptsMailboxSize_def WithOptsMailboxMaxSize_def
        defaultMailboxInitSize_def defaultMailboxMaxSize_def)
  moreover have "op_self ?o2 = Some (newDirectActorRef (op_kind ?o2) name addr sys ptr)"
    by (simp add: newOpts_def Let_def withOptsDirectSelf_def)
  ultimately show ?thesis
    using sizes direct_ref_parts [of "op_kind ?o2" name addr sys ptr]
    by (simp add: Let_def validateKindName_ok ValidateActorName_ok)
qed

text \<open>
  \<open>WithOptsKindName\<close> is the one way a kind enters an id without \<open>validateKindName\<close>: a kind with a
  separator gives a reference without any parts, and the reserved kind \<open>reply\<close> gives one that every
  sender takes for a pending \<open>Ask\<close>.
\<close>

lemma kind_option_not_validated:
  "validateKindName ''a/b'' \<noteq> None"
  "map_option isDirect (op_self (newOpts p [WithOptsKindName ''a/b'', withOptsDirectSelf ''n'' ''h:1'' sys ptr])) = Some False"
  "map_option isAsk (op_self (newOpts p [WithOptsKindName ''reply'', withOptsDirectSelf ''7'' ''h:1'' sys ptr])) = Some True"
  by (simp_all add: validateKindName_def index_any_def invalidNameChars_def newOpts_def Let_def WithOptsKindName_def
      withOptsDirectSelf_def newDirectActorRef_def parseCache_def no_parse_def name_constants)

end
