(* ===== verification/Config.thy ===== *)
theory Config
  imports Kind_Opts Addr_Hash Safe_Map "HOL-Library.Sublist"
begin

section \<open>Configuration and etcd keys: config.go, config_with.go\<close>

text \<open>
  The configuration of a node. An option changes the configuration or panics (\<open>None\<close>); values the
  framework only hands on (grpc options, the user's handler and logger, producers) are numbers, and
  0 among the dial options is the insecure transport the defaults contain. Durations are nanoseconds.
  The second half builds the keys under which a node stores its state in etcd.
\<close>

subsection \<open>The configuration\<close>

definition second :: int where "second = 1000000000"
definition defaultAskTimeout :: int where "defaultAskTimeout = second * 3"
definition defaultStopWaitTimeSecond :: int where "defaultStopWaitTimeSecond = 10"
definition defaultEtcdDialTimeout :: int where "defaultEtcdDialTimeout = second * 10"
definition defaultEtcdLeaseTTLSecond :: int where "defaultEtcdLeaseTTLSecond = 10"
definition defaultGrpcListenAddr :: string where "defaultGrpcListenAddr = '':0''"

record tKind =
  tk_producer :: nat
  tk_opts :: "KindOptFunc list"

record config =
  cf_running :: int
  cf_clusterName :: string
  cf_version :: string
  cf_clusterUrls :: "string list"
  cf_askTimeout :: int
  cf_stopWaitTimeSecond :: int
  cf_etcdDialTimeout :: int
  cf_etcdLeaseTTLSecond :: int
  cf_grpcListenAddr :: string
  cf_dialOptions :: "nat list"
  cf_callOptions :: "nat list"
  cf_kinds :: "(string, tKind) go_map"
  cf_state :: tNodeState
  cf_deadLetterHandler :: "nat option"
  cf_logger :: "nat option"

type_synonym ConfigOptFunc = "config \<Rightarrow> config option"

definition zero_state :: tNodeState where
  "zero_state = \<lparr>ns_NodeId = 0, ns_Address = [], ns_Version = [], ns_Time = [], ns_Kinds = []\<rparr>"

definition default_config :: "string \<Rightarrow> string \<Rightarrow> string list \<Rightarrow> config" where
  "default_config clusterName version clusterUrls =
     \<lparr>cf_running = 0, cf_clusterName = clusterName, cf_version = version, cf_clusterUrls = clusterUrls,
      cf_askTimeout = defaultAskTimeout, cf_stopWaitTimeSecond = defaultStopWaitTimeSecond,
      cf_etcdDialTimeout = defaultEtcdDialTimeout, cf_etcdLeaseTTLSecond = defaultEtcdLeaseTTLSecond,
      cf_grpcListenAddr = defaultGrpcListenAddr, cf_dialOptions = [0], cf_callOptions = [], cf_kinds = [],
      cf_state = zero_state, cf_deadLetterHandler = None, cf_logger = None\<rparr>"

fun apply_options :: "ConfigOptFunc list \<Rightarrow> config \<Rightarrow> config option" where
  "apply_options [] conf = Some conf"
| "apply_options (f # fs) conf = (case f conf of None \<Rightarrow> None | Some conf' \<Rightarrow> apply_options fs conf')"

definition newConfig :: "string \<Rightarrow> string \<Rightarrow> string list \<Rightarrow> ConfigOptFunc list \<Rightarrow> config option" where
  "newConfig clusterName version clusterUrls opts = apply_options opts (default_config clusterName version clusterUrls)"

definition getKinds :: "config \<Rightarrow> string list" where
  "getKinds x = map fst (cf_kinds x)"

text \<open>\<open>config.init\<close>; \<open>now\<close> is the formatted clock.\<close>

definition config_init :: "string \<Rightarrow> string \<Rightarrow> u64 \<Rightarrow> config \<Rightarrow> tNodeState \<times> config" where
  "config_init now addr nodeId x =
     (let state = \<lparr>ns_NodeId = nodeId, ns_Address = addr, ns_Version = cf_version x, ns_Time = now, ns_Kinds = getKinds x\<rparr>
      in (state, x\<lparr>cf_state := state\<rparr>))"

definition markRunning :: "config \<Rightarrow> config option" where
  "markRunning x = (if cf_running x = 0 then Some (x\<lparr>cf_running := 1\<rparr>) else None)"

definition mustNotRunning :: "config \<Rightarrow> config option" where
  "mustNotRunning x = (if cf_running x \<noteq> 0 then None else Some x)"

subsection \<open>Options: config_with.go\<close>

definition WithConfigAskTimeout :: "int \<Rightarrow> ConfigOptFunc" where
  "WithConfigAskTimeout d x = Some (x\<lparr>cf_askTimeout := d\<rparr>)"

definition WithConfigStopWaitTimeSecond :: "int \<Rightarrow> ConfigOptFunc" where
  "WithConfigStopWaitTimeSecond t x = Some (x\<lparr>cf_stopWaitTimeSecond := t\<rparr>)"

definition WithConfigEtcdDialTimeout :: "int \<Rightarrow> ConfigOptFunc" where
  "WithConfigEtcdDialTimeout d x = (if d \<le> 0 then None else Some (x\<lparr>cf_etcdDialTimeout := d\<rparr>))"

definition WithConfigEtcdLeaseTTLSecond :: "int \<Rightarrow> ConfigOptFunc" where
  "WithConfigEtcdLeaseTTLSecond seconds x =
     (if seconds \<le> 0 then None else Some (x\<lparr>cf_etcdLeaseTTLSecond := seconds\<rparr>))"

definition WithConfigGrpcListenAddr :: "string \<Rightarrow> ConfigOptFunc" where
  "WithConfigGrpcListenAddr addr x = (if addr = [] then None else Some (x\<lparr>cf_grpcListenAddr := addr\<rparr>))"

definition WithConfigGrpcDialOptions :: "nat list \<Rightarrow> ConfigOptFunc" where
  "WithConfigGrpcDialOptions dialOptions x = Some (x\<lparr>cf_dialOptions := cf_dialOptions x @ dialOptions\<rparr>)"

definition WithConfigGrpcCallOptions :: "nat list \<Rightarrow> ConfigOptFunc" where
  "WithConfigGrpcCallOptions callOptions x = Some (x\<lparr>cf_callOptions := cf_callOptions x @ callOptions\<rparr>)"

definition WithConfigCallDialOptions :: "nat list \<Rightarrow> ConfigOptFunc" where
  "WithConfigCallDialOptions callOptions = WithConfigGrpcCallOptions callOptions"

definition WithConfigKind :: "string \<Rightarrow> nat \<Rightarrow> KindOptFunc list \<Rightarrow> ConfigOptFunc" where
  "WithConfigKind kindName producer opts x = (case mustNotRunning x of None \<Rightarrow> None | Some x \<Rightarrow>
     if validateKindName kindName \<noteq> None then None
     else if kindName = defaultLocalKind \<or> kindName = defaultSystemKind \<or> kindName = defaultReplyKind \<or>
             kindName = defaultWriteStreamKind then None
     else if map_of (cf_kinds x) kindName \<noteq> None then None
     else Some (x\<lparr>cf_kinds := AList.update kindName \<lparr>tk_producer = producer, tk_opts = opts\<rparr> (cf_kinds x)\<rparr>))"

definition WithConfigLogger :: "nat option \<Rightarrow> ConfigOptFunc" where
  "WithConfigLogger l x = Some (x\<lparr>cf_logger := l\<rparr>)"

definition WithConfigDeadLetter :: "nat option \<Rightarrow> ConfigOptFunc" where
  "WithConfigDeadLetter h x = Some (x\<lparr>cf_deadLetterHandler := h\<rparr>)"

lemmas option_defs = WithConfigAskTimeout_def WithConfigStopWaitTimeSecond_def WithConfigEtcdDialTimeout_def
  WithConfigEtcdLeaseTTLSecond_def WithConfigGrpcListenAddr_def WithConfigGrpcDialOptions_def
  WithConfigGrpcCallOptions_def WithConfigCallDialOptions_def WithConfigKind_def WithConfigLogger_def
  WithConfigDeadLetter_def

text \<open>The options the package offers.\<close>

inductive config_option :: "ConfigOptFunc \<Rightarrow> bool" where
  "config_option (WithConfigAskTimeout d)"
| "config_option (WithConfigStopWaitTimeSecond t)"
| "config_option (WithConfigEtcdDialTimeout d)"
| "config_option (WithConfigEtcdLeaseTTLSecond n)"
| "config_option (WithConfigGrpcListenAddr a)"
| "config_option (WithConfigGrpcDialOptions os)"
| "config_option (WithConfigGrpcCallOptions os)"
| "config_option (WithConfigCallDialOptions os)"
| "config_option (WithConfigKind k p os)"
| "config_option (WithConfigLogger l)"
| "config_option (WithConfigDeadLetter h)"

definition reserved_kinds :: "string set" where
  "reserved_kinds = {defaultLocalKind, defaultSystemKind, defaultReplyKind, defaultWriteStreamKind}"

definition config_wf :: "config \<Rightarrow> bool" where
  "config_wf x \<longleftrightarrow> distinct (getKinds x) \<and>
     (\<forall>k \<in> set (getKinds x). validateKindName k = None \<and> k \<notin> reserved_kinds) \<and>
     0 < cf_etcdDialTimeout x \<and> 0 < cf_etcdLeaseTTLSecond x \<and> cf_grpcListenAddr x \<noteq> [] \<and>
     (\<exists>os. cf_dialOptions x = 0 # os)"

lemma default_config_wf: "config_wf (default_config c v u)"
  by (simp add: config_wf_def default_config_def getKinds_def defaultEtcdDialTimeout_def defaultEtcdLeaseTTLSecond_def
      defaultGrpcListenAddr_def second_def)

lemma default_config_name: "cf_clusterName (default_config c v u) = c"
  by (simp add: default_config_def)

lemma WithConfigKind_wf:
  assumes "config_wf x" and "WithConfigKind k p os x = Some y"
  shows "config_wf y"
proof -
  have new: "validateKindName k = None" "k \<notin> reserved_kinds" "k \<notin> set (getKinds x)"
      and y: "y = x\<lparr>cf_kinds := AList.update k \<lparr>tk_producer = p, tk_opts = os\<rparr> (cf_kinds x)\<rparr>"
    using assms(2) by (auto simp: WithConfigKind_def mustNotRunning_def reserved_kinds_def getKinds_def map_of_eq_None_iff
        split: if_splits)
  have "distinct (getKinds y)" using assms(1) y by (simp add: config_wf_def getKinds_def distinct_update)
  moreover have "set (getKinds y) = insert k (set (getKinds x))" using y by (simp add: getKinds_def dom_update)
  ultimately show ?thesis using assms(1) new y by (simp add: config_wf_def)
qed

lemma config_option_keeps:
  assumes "config_option f" and "f x = Some y" and "config_wf x"
  shows "config_wf y \<and> cf_clusterName y = cf_clusterName x \<and> cf_running y = cf_running x"
  using assms
proof cases
  case (9 k p os)
  then show ?thesis using WithConfigKind_wf [OF assms(3), of k p os y] assms(2)
    by (auto simp: WithConfigKind_def mustNotRunning_def split: if_splits)
qed (use assms(2,3) in \<open>auto simp: option_defs config_wf_def getKinds_def split: if_splits\<close>)

lemma apply_options_keeps:
  assumes "apply_options fs x = Some y" and "\<forall>f \<in> set fs. config_option f" and "config_wf x"
  shows "config_wf y \<and> cf_clusterName y = cf_clusterName x \<and> cf_running y = cf_running x"
  using assms
proof (induction fs arbitrary: x)
  case (Cons f fs)
  then obtain z where z: "f x = Some z" "apply_options fs z = Some y" by (auto split: option.splits)
  have "config_wf z \<and> cf_clusterName z = cf_clusterName x \<and> cf_running z = cf_running x"
    using config_option_keeps [where f = f and x = x and y = z] z(1) Cons.prems(2,3) by simp
  then show ?case using Cons.IH [OF z(2)] Cons.prems(2) by simp
qed simp

text \<open>
  A configuration that was built without a panic is sound, for every list of the package's options:
  the kinds are pairwise distinct, valid and none is reserved, the etcd timeout and the lease are
  positive, the listen address is not empty and the default transport credentials are still there; and
  once \<open>markRunning\<close> has succeeded no kind can be added and it cannot succeed again.
\<close>

lemma newConfig_sound:
  assumes "newConfig clusterName version urls opts = Some x" and "\<forall>f \<in> set opts. config_option f"
  shows "config_wf x \<and> cf_clusterName x = clusterName \<and>
    (\<exists>y. markRunning x = Some y \<and> config_wf y \<and> markRunning y = None \<and> WithConfigKind k p os y = None)"
proof -
  have "config_wf x \<and> cf_clusterName x = clusterName \<and> cf_running x = 0"
    using apply_options_keeps [OF _ assms(2) default_config_wf] assms(1) by (simp add: newConfig_def default_config_def)
  then show ?thesis by (simp add: markRunning_def WithConfigKind_def mustNotRunning_def config_wf_def getKinds_def)
qed

subsection \<open>Keys in etcd\<close>

definition getMemberPrefix :: "config \<Rightarrow> string" where
  "getMemberPrefix x = ''/'' @ cf_clusterName x @ ''/member/''"

definition getMemberPath :: "config \<Rightarrow> u64 \<Rightarrow> string" where
  "getMemberPath x memberId = ''/'' @ cf_clusterName x @ ''/member/'' @ FormatUint memberId"

text \<open>The optional argument is a list of at most one number.\<close>

definition getMemberExtDataPath :: "config \<Rightarrow> string \<Rightarrow> u64 list \<Rightarrow> string" where
  "getMemberExtDataPath x subKey memberId = (case memberId of
      m # _ \<Rightarrow> if m \<noteq> 0 then ''/'' @ cf_clusterName x @ ''/member_ext/'' @ subKey @ ''/'' @ FormatUint m
               else ''/'' @ cf_clusterName x @ ''/member_ext/'' @ subKey
    | [] \<Rightarrow> ''/'' @ cf_clusterName x @ ''/member_ext/'' @ subKey)"

definition getEventStreamWatchPath :: "config \<Rightarrow> string" where
  "getEventStreamWatchPath x = ''/'' @ cf_clusterName x @ ''/'' @ eventStreamWatchName @ ''/''"

definition getActorRegisterName :: "config \<Rightarrow> actor_ref \<Rightarrow> string" where
  "getActorRegisterName x ref = ''/'' @ cf_clusterName x @ ''/'' @ GetId ref"

lemmas key_defs = getMemberPrefix_def getMemberPath_def getMemberExtDataPath_def getEventStreamWatchPath_def
  getActorRegisterName_def

lemma cluster_segment:
  assumes "slash \<notin> set a" "slash \<notin> set b" and "prefix (a @ slash # s) (b @ slash # t)"
  shows "a = b \<and> prefix s t"
  using assms
proof (induction a arbitrary: b)
  case Nil
  then show ?case by (cases b) auto
next
  case (Cons x a)
  then show ?case by (cases b) (auto simp: prefix_def)
qed

lemma key_in_prefix:
  assumes "slash \<notin> set a" "slash \<notin> set b" and "prefix (''/'' @ a @ slash # s) (''/'' @ b @ slash # t)"
  shows "a = b \<and> prefix s t"
  using cluster_segment [OF assms(1,2), of s t] assms(3) by simp

text \<open>
  The keys of a cluster do not get into each other's way. For cluster names without a slash: a
  member key lies under its own cluster's member prefix and under no other, and its last segment gives
  back the id; ext data, event subscriptions and the registrations of direct and cluster actors never
  lie under a member prefix, of whatever cluster, so a member watch sees members only; different actors
  register under different keys, also across clusters.
\<close>

lemma etcd_keys_separate:
  assumes "slash \<notin> set (cf_clusterName x)" and "slash \<notin> set (cf_clusterName y)"
  shows "prefix (getMemberPrefix y) (getMemberPath x i) = (cf_clusterName x = cf_clusterName y) \<and>
    getMemberPath x i = getMemberPrefix x @ FormatUint i \<and> ParseUint (FormatUint i) = i \<and> slash \<notin> set (FormatUint i) \<and>
    \<not> prefix (getMemberPrefix y) (getMemberExtDataPath x sub ms) \<and>
    \<not> prefix (getMemberPrefix y) (getEventStreamWatchPath x @ rest) \<and>
    (prefix (defaultActDirect @ ''/'') (GetId r) \<or> prefix (defaultActCluster @ ''/'') (GetId r) \<longrightarrow>
       \<not> prefix (getMemberPrefix y) (getActorRegisterName x r) \<and>
       \<not> prefix (getEventStreamWatchPath y) (getActorRegisterName x r)) \<and>
    (getActorRegisterName x r = getActorRegisterName y r' \<longrightarrow> GetId r = GetId r' \<and> cf_clusterName x = cf_clusterName y)"
proof -
  note k = key_in_prefix [OF assms(2,1)]
  have pre: "getMemberPrefix y = ''/'' @ cf_clusterName y @ slash # ''member/''"
    "getEventStreamWatchPath y = ''/'' @ cf_clusterName y @ slash # ''event_stream/''"
    by (simp_all add: key_defs eventStreamWatchName_def)
  have "prefix (getMemberPrefix y) (getMemberPath x i) = (cf_clusterName x = cf_clusterName y)"
    using k [of "''member/''" "''member/'' @ FormatUint i"] by (auto simp: pre key_defs)
  moreover have "\<not> prefix (getMemberPrefix y) (getMemberExtDataPath x sub ms)"
  proof -
    have "\<exists>t. getMemberExtDataPath x sub ms = ''/'' @ cf_clusterName x @ slash # ''member_ext/'' @ t"
      by (cases ms) (simp_all add: getMemberExtDataPath_def)
    then obtain t where t: "getMemberExtDataPath x sub ms = ''/'' @ cf_clusterName x @ slash # ''member_ext/'' @ t" by blast
    show ?thesis unfolding t pre using k [of "''member/''" "''member_ext/'' @ t"] by auto
  qed
  moreover have "\<not> prefix (getMemberPrefix y) (getEventStreamWatchPath x @ rest)"
    using k [of "''member/''" "''event_stream/'' @ rest"] by (auto simp: pre getEventStreamWatchPath_def eventStreamWatchName_def)
  moreover have "\<not> prefix (getMemberPrefix y) (getActorRegisterName x r) \<and> \<not> prefix (getEventStreamWatchPath y) (getActorRegisterName x r)"
    if "prefix (defaultActDirect @ ''/'') (GetId r) \<or> prefix (defaultActCluster @ ''/'') (GetId r)"
    using that k [of "''member/''" "GetId r"] k [of "''event_stream/''" "GetId r"]
    by (auto simp: pre getActorRegisterName_def prefix_def name_constants)
  moreover have "GetId r = GetId r' \<and> cf_clusterName x = cf_clusterName y" if "getActorRegisterName x r = getActorRegisterName y r'"
    using that key_in_prefix [OF assms, of "GetId r" "GetId r'"] k [of "GetId r'" "GetId r"]
    by (simp add: getActorRegisterName_def)
  moreover have "slash \<notin> set (FormatUint i)" by (auto intro!: FormatUint_notin)
  ultimately show ?thesis by (simp add: getMemberPath_def getMemberPrefix_def)
qed

text \<open>
  The prefix of an ext data watch has no separator at its end, so the watch of one sub-key also sees
  the sub-keys that only begin like it.
\<close>

lemma ext_data_watch_overlaps:
  "prefix (getMemberExtDataPath x ''load'' []) (getMemberExtDataPath x ''loadavg'' [7])"
  by (simp add: getMemberExtDataPath_def)

end
