(* ===== verification/Provider_Etcd.thy ===== *)
theory Provider_Etcd
  imports Config Uuid
begin

section \<open>The cluster provider: provider_etcd.go\<close>

text \<open>
  The provider keeps the member set of the cluster and claims a node id for this node. The etcd client is
  third-party code: it is a record of functions on an abstract store \<open>'e\<close>, and what the theorems need of
  it is the predicate \<open>etcd_ok\<close>, the documented meaning of a transaction on the keys a node sees. A call
  that reports an error may or may not have taken effect, as etcd documents for a request whose answer
  is lost. The JSON codec and the random choice of an id are parameters as well. What the background
  goroutines do with one response of a watch or of the keepalive channel is a function here.
\<close>

subsection \<open>The etcd client\<close>

datatype etcd_cmp = CreateRevisionZero string | ValueEquals string string
datatype etcd_op = OpPut string string int | OpDelete string

record 'e etcd_client =
  ec_New :: "string list \<Rightarrow> int \<Rightarrow> 'e \<Rightarrow> bool \<times> 'e"
  ec_Grant :: "int \<Rightarrow> 'e \<Rightarrow> int option \<times> 'e"
  ec_KeepAlive :: "int \<Rightarrow> 'e \<Rightarrow> bool \<times> 'e"
  ec_Revoke :: "int \<Rightarrow> 'e \<Rightarrow> bool \<times> 'e"
  ec_Get :: "string \<Rightarrow> 'e \<Rightarrow> (int \<times> (string \<times> string) list) option \<times> 'e"
  ec_GetPrefix :: "string \<Rightarrow> 'e \<Rightarrow> (int \<times> (string \<times> string) list) option \<times> 'e"
  ec_Txn :: "etcd_cmp \<Rightarrow> etcd_op \<Rightarrow> 'e \<Rightarrow> bool option \<times> 'e"
  ec_Put :: "string \<Rightarrow> string \<Rightarrow> int \<Rightarrow> 'e \<Rightarrow> bool \<times> 'e"
  ec_Delete :: "string \<Rightarrow> 'e \<Rightarrow> bool \<times> 'e"

text \<open>The keys with their values and leases, as a client sees them, and what a transaction means on them.\<close>

type_synonym kv_view = "string \<rightharpoonup> string \<times> int"

fun cmp_holds :: "etcd_cmp \<Rightarrow> kv_view \<Rightarrow> bool" where
  "cmp_holds (CreateRevisionZero key) v = (v key = None)"
| "cmp_holds (ValueEquals key val) v = (\<exists>lease. v key = Some (val, lease))"

fun apply_op :: "etcd_op \<Rightarrow> kv_view \<Rightarrow> kv_view" where
  "apply_op (OpPut key val lease) v = v(key \<mapsto> (val, lease))"
| "apply_op (OpDelete key) v = v(key := None)"

definition etcd_ok :: "('e \<Rightarrow> kv_view) \<Rightarrow> 'e etcd_client \<Rightarrow> bool" where
  "etcd_ok view c \<longleftrightarrow> (\<forall>cmp opn e r e'. ec_Txn c cmp opn e = (r, e') \<longrightarrow>
     (r = Some True \<longrightarrow> cmp_holds cmp (view e) \<and> view e' = apply_op opn (view e)) \<and>
     (r = Some False \<longrightarrow> \<not> cmp_holds cmp (view e) \<and> view e' = view e) \<and>
     (r = None \<longrightarrow> view e' = view e \<or> (cmp_holds cmp (view e) \<and> view e' = apply_op opn (view e))))"

subsection \<open>State\<close>

record provider =
  pv_config :: config
  pv_leaseId :: int
  pv_keepAlive :: bool
  pv_client :: bool
  pv_stopping :: bool
  pv_version :: int
  pv_nodeMap :: "(string, tNodeState) go_map"
  pv_nodes :: "(int \<times> tNodeState list) option"
  pv_watchFrom :: "int option"
  pv_initialised :: "u64 option"

datatype member_op = MPut | MDelete

text \<open>\<open>cancelFunc\<close> and \<open>client\<close> are present or nil; \<open>pv_initialised\<close> is the id \<open>system.init\<close> was called with.\<close>

definition publishNodesLocked :: "provider \<Rightarrow> provider" where
  "publishNodesLocked x = x\<lparr>pv_nodes := Some (pv_version x, map snd (pv_nodeMap x))\<rparr>"

definition member_key :: "string \<Rightarrow> string" where
  "member_key key = (case last_index_byte key slash of Some i \<Rightarrow> drop (i + 1) key | None \<Rightarrow> key)"

definition applyMemberLocked :: "(string \<Rightarrow> tNodeState option) \<Rightarrow> member_op \<Rightarrow> string \<Rightarrow> string \<Rightarrow> provider \<Rightarrow> provider" where
  "applyMemberLocked unmarshal opn key val x =
     (let x = x\<lparr>pv_version := wrap_int64 (pv_version x + 1)\<rparr>;
          key = member_key key
      in if opn = MDelete then x\<lparr>pv_nodeMap := AList.delete key (pv_nodeMap x)\<rparr>
         else case unmarshal val of
           None \<Rightarrow> x\<lparr>pv_nodeMap := AList.delete key (pv_nodeMap x)\<rparr>
         | Some a \<Rightarrow> x\<lparr>pv_nodeMap := AList.update key a (pv_nodeMap x)\<rparr>)"

definition parseWatch :: "(string \<Rightarrow> tNodeState option) \<Rightarrow> member_op \<Rightarrow> string \<Rightarrow> string \<Rightarrow> provider \<Rightarrow> provider" where
  "parseWatch unmarshal opn key val x = publishNodesLocked (applyMemberLocked unmarshal opn key val x)"

definition GetNodeId :: "provider \<Rightarrow> u64" where "GetNodeId x = ns_NodeId (cf_state (pv_config x))"

definition GetNodesVersion :: "provider \<Rightarrow> int" where "GetNodesVersion x = pv_version x"

definition GetNodes :: "provider \<Rightarrow> tNodeState list \<times> int" where
  "GetNodes x = (case pv_nodes x of Some (version, nodes) \<Rightarrow> (nodes, version) | None \<Rightarrow> ([], pv_version x))"

definition load_all :: "(string \<Rightarrow> tNodeState option) \<Rightarrow> (string \<times> string) list \<Rightarrow> provider \<Rightarrow> provider" where
  "load_all unmarshal kvs x = publishNodesLocked (fold (\<lambda>(k, v). applyMemberLocked unmarshal MPut k v) kvs x)"

definition loadMembers :: "'e etcd_client \<Rightarrow> (string \<Rightarrow> tNodeState option) \<Rightarrow> provider \<Rightarrow> 'e \<Rightarrow> int option \<times> provider \<times> 'e" where
  "loadMembers c unmarshal x e = (case ec_GetPrefix c (getMemberPrefix (pv_config x)) e of
      (None, e') \<Rightarrow> (None, x, e')
    | (Some (revn, kvs), e') \<Rightarrow> (Some revn, load_all unmarshal kvs x, e'))"

definition freeNodeIds :: "provider \<Rightarrow> u64 list" where
  "freeNodeIds x = filter (\<lambda>i. map_of (pv_nodeMap x) (FormatUint i) = None) (map word_of_nat [1 ..< unat MaxNodeMax + 1])"

subsection \<open>Transactions\<close>

definition setTxn :: "'e etcd_client \<Rightarrow> int \<Rightarrow> string \<Rightarrow> string \<Rightarrow> 'e \<Rightarrow> bool \<times> 'e" where
  "setTxn c lease key val e = (case ec_Txn c (CreateRevisionZero key) (OpPut key val lease) e of
      (None, e') \<Rightarrow> (False, e') | (Some succeeded, e') \<Rightarrow> (succeeded, e'))"

definition removeTxn :: "'e etcd_client \<Rightarrow> string \<Rightarrow> string \<Rightarrow> 'e \<Rightarrow> bool \<times> 'e" where
  "removeTxn c key val e = (case ec_Txn c (ValueEquals key val) (OpDelete key) e of
      (None, e') \<Rightarrow> (False, e') | (Some succeeded, e') \<Rightarrow> (succeeded, e'))"

subsection \<open>Claiming a node id\<close>

datatype register_result = Registered u64 | AllIdsInUse | LoadFailed | LostEveryRound

definition registerRounds :: nat where "registerRounds = 16"

text \<open>\<open>rnd rd n\<close> is \<open>rand.IntN(n)\<close>; \<open>clock rd\<close> the time of the attempt.\<close>

fun register_loop ::
  "'e etcd_client \<Rightarrow> (tNodeState \<Rightarrow> string) \<Rightarrow> (string \<Rightarrow> tNodeState option) \<Rightarrow> (nat \<Rightarrow> nat \<Rightarrow> nat) \<Rightarrow> (nat \<Rightarrow> string) \<Rightarrow>
   string \<Rightarrow> nat \<Rightarrow> provider \<Rightarrow> 'e \<Rightarrow> register_result \<times> provider \<times> 'e" where
  "register_loop c marshal unmarshal rnd clock addr 0 x e = (LostEveryRound, x, e)"
| "register_loop c marshal unmarshal rnd clock addr (Suc left) x e =
     (let rd = registerRounds - Suc left; free = freeNodeIds x in
      if free = [] then (AllIdsInUse, x, e)
      else
        let i = free ! rnd rd (length free);
            key = getMemberPath (pv_config x) i;
            (st, conf) = config_init (clock rd) addr i (pv_config x);
            x = x\<lparr>pv_config := conf\<rparr>;
            s = marshal st;
            (ok, e) = setTxn c (pv_leaseId x) key s e
        in if \<not> ok
           then (case loadMembers c unmarshal x e of
               (None, x, e) \<Rightarrow> (LoadFailed, x, e)
             | (Some revn, x, e) \<Rightarrow> register_loop c marshal unmarshal rnd clock addr left x e)
           else (Registered i, (parseWatch unmarshal MPut key s x)\<lparr>pv_initialised := Some i\<rparr>, e))"

definition provider_register ::
  "'e etcd_client \<Rightarrow> (tNodeState \<Rightarrow> string) \<Rightarrow> (string \<Rightarrow> tNodeState option) \<Rightarrow> (nat \<Rightarrow> nat \<Rightarrow> nat) \<Rightarrow> (nat \<Rightarrow> string) \<Rightarrow>
   string \<Rightarrow> provider \<Rightarrow> 'e \<Rightarrow> register_result \<times> provider \<times> 'e" where
  "provider_register c marshal unmarshal rnd clock addr x e =
     register_loop c marshal unmarshal rnd clock addr registerRounds x e"

subsection \<open>Life cycle\<close>

definition releaseEtcd :: "'e etcd_client \<Rightarrow> bool \<Rightarrow> provider \<Rightarrow> 'e \<Rightarrow> provider \<times> 'e" where
  "releaseEtcd c revokeLease x e =
     (let x = x\<lparr>pv_keepAlive := False\<rparr>;
          (x, e) = (if pv_client x \<and> pv_leaseId x \<noteq> 0
                    then (x\<lparr>pv_leaseId := 0\<rparr>, if revokeLease then snd (ec_Revoke c (pv_leaseId x) e) else e)
                    else (x, e))
      in (if pv_client x then x\<lparr>pv_client := False\<rparr> else x, e))"

definition provider_stop :: "'e etcd_client \<Rightarrow> bool \<Rightarrow> provider \<Rightarrow> 'e \<Rightarrow> provider \<times> 'e" where
  "provider_stop c revokeLease x e = releaseEtcd c revokeLease (x\<lparr>pv_stopping := True\<rparr>) e"

text \<open>
  \<open>start\<close>: every early return after the client exists goes through the deferred \<open>releaseEtcd(true)\<close>.
  \<open>watchMembers\<close> only starts its goroutine at the revision after the snapshot.
\<close>

definition start_provider ::
  "'e etcd_client \<Rightarrow> (tNodeState \<Rightarrow> string) \<Rightarrow> (string \<Rightarrow> tNodeState option) \<Rightarrow> (nat \<Rightarrow> nat \<Rightarrow> nat) \<Rightarrow> (nat \<Rightarrow> string) \<Rightarrow>
   string \<Rightarrow> config \<Rightarrow> provider \<Rightarrow> 'e \<Rightarrow> bool \<times> provider \<times> 'e" where
  "start_provider c marshal unmarshal rnd clock addr conf x e =
     (let x = publishNodesLocked (x\<lparr>pv_config := conf, pv_version := 1, pv_nodeMap := []\<rparr>);
          fail = (\<lambda>x e. let (x, e) = releaseEtcd c True x e in (False, x, e))
      in case ec_New c (cf_clusterUrls conf) (cf_etcdDialTimeout conf) e of
        (False, e) \<Rightarrow> (False, x, e)
      | (True, e) \<Rightarrow> let x = x\<lparr>pv_client := True\<rparr> in
        (case ec_Grant c (cf_etcdLeaseTTLSecond conf) e of
          (None, e) \<Rightarrow> fail x e
        | (Some lease, e) \<Rightarrow> let x = x\<lparr>pv_leaseId := lease, pv_keepAlive := True\<rparr> in
          (case ec_KeepAlive c lease e of
            (False, e) \<Rightarrow> fail x e
          | (True, e) \<Rightarrow>
            (case loadMembers c unmarshal x e of
              (None, x, e) \<Rightarrow> fail x e
            | (Some revn, x, e) \<Rightarrow>
              (case provider_register c marshal unmarshal rnd clock addr x e of
                (Registered i, x, e) \<Rightarrow> (True, x\<lparr>pv_watchFrom := Some (revn + 1)\<rparr>, e)
              | (_, x, e) \<Rightarrow> fail x e)))))"

text \<open>
  One response of the member watch: an error, or a batch of events followed by the listener. The
  result says what the goroutine does: whether it goes on, calls the listener, or stops the system.
\<close>

datatype watch_response = WatchErr | WatchEvents "(member_op \<times> string \<times> string) list" | WatchClosed
datatype watch_effect = CallListener | ForceStopSystem | WatchEnds

definition stopSystemOnWatchLoss :: "provider \<Rightarrow> watch_effect" where
  "stopSystemOnWatchLoss x = (if pv_stopping x then WatchEnds else ForceStopSystem)"

fun watchMembers :: "(string \<Rightarrow> tNodeState option) \<Rightarrow> watch_response \<Rightarrow> provider \<Rightarrow> watch_effect \<times> provider" where
  "watchMembers unmarshal WatchErr x = ((if \<not> pv_stopping x then stopSystemOnWatchLoss x else WatchEnds), x)"
| "watchMembers unmarshal (WatchEvents evs) x =
     (CallListener, fold (\<lambda>(opn, key, val). parseWatch unmarshal opn key val) evs x)"
| "watchMembers unmarshal WatchClosed x = ((if \<not> pv_stopping x then stopSystemOnWatchLoss x else WatchEnds), x)"

text \<open>The keepalive goroutine: a response, or the channel was closed.\<close>

definition provider_keepAlive :: "bool \<Rightarrow> provider \<Rightarrow> watch_effect option" where
  "provider_keepAlive alive x = (if alive then None else Some (if \<not> pv_stopping x then ForceStopSystem else WatchEnds))"

subsection \<open>Node data and event subscriptions\<close>

definition registerEventStream :: "'e etcd_client \<Rightarrow> string \<Rightarrow> string \<Rightarrow> provider \<Rightarrow> 'e \<Rightarrow> bool \<times> 'e" where
  "registerEventStream c path val x e = ec_Put c path val (pv_leaseId x) e"

definition unregisterEventStream :: "'e etcd_client \<Rightarrow> string \<Rightarrow> 'e \<Rightarrow> bool \<times> 'e" where
  "unregisterEventStream c path e = ec_Delete c path e"

definition GetNodeExtData :: "'e etcd_client \<Rightarrow> string \<Rightarrow> provider \<Rightarrow> 'e \<Rightarrow> string option \<times> 'e" where
  "GetNodeExtData c subKey x e = (case ec_Get c (getMemberExtDataPath (pv_config x) subKey [GetNodeId x]) e of
      (None, e') \<Rightarrow> (None, e')
    | (Some (revn, kvs), e') \<Rightarrow> (Some (case kvs of (k, v) # _ \<Rightarrow> v | [] \<Rightarrow> []), e'))"

definition SetNodeExtData :: "'e etcd_client \<Rightarrow> string \<Rightarrow> string \<Rightarrow> provider \<Rightarrow> 'e \<Rightarrow> bool \<times> 'e" where
  "SetNodeExtData c subKey val x e = ec_Put c (getMemberExtDataPath (pv_config x) subKey [GetNodeId x]) val (pv_leaseId x) e"

definition RemoveNodeExtData :: "'e etcd_client \<Rightarrow> string \<Rightarrow> provider \<Rightarrow> 'e \<Rightarrow> bool \<times> 'e" where
  "RemoveNodeExtData c subKey x e = ec_Delete c (getMemberExtDataPath (pv_config x) subKey [GetNodeId x]) e"

text \<open>
  The two prefix watches outside the member set: the calls of the callback for the entries already there,
  and the revision the watch goes on from.
\<close>

definition watchEventStream :: "'e etcd_client \<Rightarrow> string \<Rightarrow> 'e \<Rightarrow> ((member_op \<times> string \<times> string) list \<times> int) option \<times> 'e" where
  "watchEventStream c pre e = (case ec_GetPrefix c pre e of
      (None, e') \<Rightarrow> (None, e')
    | (Some (revn, kvs), e') \<Rightarrow> (Some (map (\<lambda>(k, v). (MPut, k, v)) kvs, revn + 1), e'))"

definition WatchNodeExtData :: "'e etcd_client \<Rightarrow> string \<Rightarrow> provider \<Rightarrow> 'e \<Rightarrow> ((string \<times> string) list \<times> int) option \<times> 'e" where
  "WatchNodeExtData c subKey x e = (case ec_GetPrefix c (getMemberExtDataPath (pv_config x) subKey []) e of
      (None, e') \<Rightarrow> (None, e')
    | (Some (revn, kvs), e') \<Rightarrow> (Some (kvs, revn + 1), e'))"

text \<open>
  The goroutines of these two watches, on one response: they hand every event to the callback, in order,
  and end at an error or when the channel is closed; unlike the member watch they do not stop the system.
  The flag says whether the loop goes on. An event of a deletion carries no value, which the callback of
  the ext data reads as a removal.
\<close>

fun event_watch :: "(member_op \<Rightarrow> string \<Rightarrow> string \<Rightarrow> 's \<Rightarrow> 's) \<Rightarrow> watch_response \<Rightarrow> 's \<Rightarrow> bool \<times> 's" where
  "event_watch f WatchErr s = (False, s)"
| "event_watch f (WatchEvents evs) s = (True, fold (\<lambda>(opn, key, val). f opn key val) evs s)"
| "event_watch f WatchClosed s = (False, s)"

fun ext_watch :: "(string \<Rightarrow> string \<Rightarrow> 's \<Rightarrow> 's) \<Rightarrow> watch_response \<Rightarrow> 's \<Rightarrow> bool \<times> 's" where
  "ext_watch f WatchErr s = (False, s)"
| "ext_watch f (WatchEvents evs) s = (True, fold (\<lambda>(opn, key, val). f key val) evs s)"
| "ext_watch f WatchClosed s = (False, s)"

fun watch_loop :: "(watch_response \<Rightarrow> 's \<Rightarrow> bool \<times> 's) \<Rightarrow> watch_response list \<Rightarrow> 's \<Rightarrow> 's" where
  "watch_loop body [] s = s"
| "watch_loop body (r # rs) s = (case body r s of (again, s') \<Rightarrow> if again then watch_loop body rs s' else s')"

text \<open>The events of a watch up to its end, and that the callback gets exactly these, in order.\<close>

fun watched_events :: "watch_response list \<Rightarrow> (member_op \<times> string \<times> string) list" where
  "watched_events (WatchEvents evs # rs) = evs @ watched_events rs"
| "watched_events _ = []"

lemma watches_deliver_in_order:
  "watch_loop (event_watch f) rs s = fold (\<lambda>(opn, key, val). f opn key val) (watched_events rs) s"
  "watch_loop (ext_watch g) rs s = fold (\<lambda>(opn, key, val). g key val) (watched_events rs) s"
  by (induction rs arbitrary: s rule: watched_events.induct) simp_all

subsection \<open>Transactions: what they mean\<close>

lemma etcd_okD:
  assumes "etcd_ok view c" and "ec_Txn c cmp opn e = (r, e')"
  shows "r = Some True \<Longrightarrow> cmp_holds cmp (view e) \<and> view e' = apply_op opn (view e)"
    and "r \<noteq> Some True \<Longrightarrow> view e' = view e \<or> (cmp_holds cmp (view e) \<and> view e' = apply_op opn (view e))"
  using assms unfolding etcd_ok_def by (blast, cases r) blast+

lemma setTxn_True:
  assumes "etcd_ok view c" and "setTxn c lease key val e = (True, e')"
  shows "view e key = None" "view e' = (view e)(key \<mapsto> (val, lease))"
proof -
  have "ec_Txn c (CreateRevisionZero key) (OpPut key val lease) e = (Some True, e')"
    using assms(2) by (auto simp: setTxn_def split: prod.splits option.splits)
  then show "view e key = None" "view e' = (view e)(key \<mapsto> (val, lease))"
    using etcd_okD(1) [OF assms(1)] by force+
qed

lemma setTxn_False:
  assumes "etcd_ok view c" and "setTxn c lease key val e = (False, e')"
  shows "view e' = view e \<or> (view e key = None \<and> view e' = (view e)(key \<mapsto> (val, lease)))"
proof -
  obtain r where "ec_Txn c (CreateRevisionZero key) (OpPut key val lease) e = (r, e')" "r \<noteq> Some True"
    using assms(2) by (auto simp: setTxn_def split: prod.splits option.splits)
  then show ?thesis using etcd_okD(2) [OF assms(1)] by force
qed

lemma removeTxn_spec:
  assumes "etcd_ok view c" and "removeTxn c key val e = (ok, e')"
  shows "view e' = view e \<or> ((\<exists>lease. view e key = Some (val, lease)) \<and> view e' = (view e)(key := None))"
    and "ok \<Longrightarrow> view e' = (view e)(key := None)"
proof -
  obtain r where r: "ec_Txn c (ValueEquals key val) (OpDelete key) e = (r, e')" "ok = (r = Some True)"
    using assms(2) by (auto simp: removeTxn_def split: prod.splits option.splits)
  show "view e' = view e \<or> ((\<exists>lease. view e key = Some (val, lease)) \<and> view e' = (view e)(key := None))"
    using etcd_okD [OF assms(1) r(1)] by (cases "r = Some True") auto
  show "ok \<Longrightarrow> view e' = (view e)(key := None)" using etcd_okD(1) [OF assms(1) r(1)] r(2) by simp
qed

subsection \<open>The member set\<close>

definition published :: "provider \<Rightarrow> bool" where
  "published x \<longleftrightarrow> pv_nodes x = Some (pv_version x, map snd (pv_nodeMap x)) \<and> distinct (map fst (pv_nodeMap x))"

lemma applyMember_map:
  "map_of (pv_nodeMap (applyMemberLocked um opn key val x)) =
     (map_of (pv_nodeMap x))(member_key key := (if opn = MDelete then None else um val))"
  by (cases "um val") (simp_all add: applyMemberLocked_def Let_def update_conv' delete_conv')

lemma applyMember_distinct:
  "distinct (map fst (pv_nodeMap x)) \<Longrightarrow> distinct (map fst (pv_nodeMap (applyMemberLocked um opn key val x)))"
  by (simp add: applyMemberLocked_def Let_def distinct_update distinct_delete split: option.splits)

lemma parseWatch_published: "distinct (map fst (pv_nodeMap x)) \<Longrightarrow> published (parseWatch um opn key val x)"
  using applyMember_distinct [of x um opn key val] by (simp add: published_def parseWatch_def publishNodesLocked_def)

lemma load_distinct:
  "distinct (map fst (pv_nodeMap x)) \<Longrightarrow>
   distinct (map fst (pv_nodeMap (fold (\<lambda>(k, v). applyMemberLocked um MPut k v) kvs x)))"
  by (induction kvs arbitrary: x) (auto simp: applyMember_distinct)

lemma load_all_published: "distinct (map fst (pv_nodeMap x)) \<Longrightarrow> published (load_all um kvs x)"
  using load_distinct [of x um kvs] by (simp add: published_def load_all_def publishNodesLocked_def)

text \<open>The history of the member keys in etcd, and the map a provider should hold at some point of it.\<close>

fun kv_event :: "member_op \<times> string \<times> string \<Rightarrow> (string \<rightharpoonup> string) \<Rightarrow> (string \<rightharpoonup> string)" where
  "kv_event (MPut, k, v) kv = kv(k \<mapsto> v)"
| "kv_event (MDelete, k, v) kv = kv(k := None)"

definition kv_after :: "(member_op \<times> string \<times> string) list \<Rightarrow> (string \<rightharpoonup> string)" where
  "kv_after evs = fold kv_event evs Map.empty"

definition touched :: "(member_op \<times> string \<times> string) list \<Rightarrow> string set" where
  "touched evs = (\<lambda>(opn, k, v). k) ` set evs"

definition under :: "string \<Rightarrow> string \<Rightarrow> bool" where
  "under p key \<longleftrightarrow> (\<exists>i. slash \<notin> set i \<and> key = p @ slash # i)"

text \<open>The provider holds the decoded members, at least outside \<open>K\<close>.\<close>

definition agrees :: "(string \<Rightarrow> tNodeState option) \<Rightarrow> string \<Rightarrow> string set \<Rightarrow> (string \<rightharpoonup> string) \<Rightarrow> provider \<Rightarrow> bool" where
  "agrees um p K kv x \<longleftrightarrow> (\<forall>i. slash \<notin> set i \<longrightarrow> p @ slash # i \<notin> K \<longrightarrow>
     map_of (pv_nodeMap x) i = Option.bind (kv (p @ slash # i)) um)"

lemma member_key_under: "slash \<notin> set i \<Longrightarrow> member_key (p @ slash # i) = i"
  by (simp add: member_key_def)

lemma kv_untouched: "k \<notin> touched evs \<Longrightarrow> fold kv_event evs kv k = kv k"
proof (induction evs arbitrary: kv)
  case (Cons ev evs)
  obtain opn key v where ev: "ev = (opn, key, v)" by (cases ev)
  then show ?case using Cons by (cases opn) (auto simp: touched_def)
qed simp

lemma parseWatch_map [simp]: "pv_nodeMap (parseWatch um opn key val x) = pv_nodeMap (applyMemberLocked um opn key val x)"
  by (simp add: parseWatch_def publishNodesLocked_def)

lemma agrees_event:
  assumes "agrees um p K kv x" and "under p k"
  shows "agrees um p (K - {k}) (kv_event (opn, k, v) kv) (parseWatch um opn k v x)"
proof -
  obtain i where i: "slash \<notin> set i" "k = p @ slash # i" using assms(2) by (auto simp: under_def)
  have "map_of (pv_nodeMap (parseWatch um opn k v x)) = (map_of (pv_nodeMap x))(i := (if opn = MDelete then None else um v))"
    using i by (simp add: applyMember_map member_key_under)
  then show ?thesis using assms(1) i by (cases opn) (auto simp: agrees_def)
qed

lemma agrees_replay:
  assumes "agrees um p K kv x" and "\<forall>k \<in> touched evs. under p k"
  shows "agrees um p (K - touched evs) (fold kv_event evs kv) (fold (\<lambda>(opn, k, v). parseWatch um opn k v) evs x)"
  using assms
proof (induction evs arbitrary: K kv x)
  case (Cons ev evs)
  obtain opn k v where ev: "ev = (opn, k, v)" by (cases ev)
  have "agrees um p (K - {k} - touched evs) (fold kv_event evs (kv_event ev kv))
      (fold (\<lambda>(opn, k, v). parseWatch um opn k v) evs (parseWatch um opn k v x))"
    using Cons.prems ev by (intro Cons.IH) (auto simp: touched_def intro!: agrees_event)
  moreover have "K - touched (ev # evs) = K - {k} - touched evs" by (auto simp: touched_def ev)
  ultimately show ?case by (simp add: ev)
qed (simp add: touched_def)

lemma load_map:
  assumes "distinct (map fst kvs)" and "\<forall>k \<in> fst ` set kvs. under p k" and "slash \<notin> set i"
  shows "map_of (pv_nodeMap (load_all um kvs x)) i
    = (case map_of kvs (p @ slash # i) of Some v \<Rightarrow> um v | None \<Rightarrow> map_of (pv_nodeMap x) i)"
proof -
  have "map_of (pv_nodeMap (fold (\<lambda>(k, v). applyMemberLocked um MPut k v) kvs x)) i
    = (case map_of kvs (p @ slash # i) of Some v \<Rightarrow> um v | None \<Rightarrow> map_of (pv_nodeMap x) i)"
    using assms(1,2)
  proof (induction kvs arbitrary: x)
    case (Cons kv kvs)
    obtain k v where kv: "kv = (k, v)" by (cases kv)
    obtain j where j: "slash \<notin> set j" "k = p @ slash # j" using Cons.prems(2) kv by (auto simp: under_def)
    have "map_of (pv_nodeMap (applyMemberLocked um MPut k v x)) = (map_of (pv_nodeMap x))(j := um v)"
      using j by (simp add: applyMember_map member_key_under)
    moreover have "map_of kvs k = None" using Cons.prems(1) kv by (simp add: map_of_eq_None_iff)
    ultimately show ?case using Cons.IH [of "applyMemberLocked um MPut k v x"] Cons.prems j by (auto simp: kv split: option.splits)
  qed simp
  then show ?thesis by (simp add: load_all_def publishNodesLocked_def)
qed

lemma agrees_load:
  assumes "distinct (map fst kvs)" "\<forall>k \<in> fst ` set kvs. under p k" and "agrees um p K kv x"
    and "\<And>k. k \<notin> K \<Longrightarrow> map_of kvs k = kv k"
  shows "agrees um p K kv (load_all um kvs x)"
  unfolding agrees_def
proof (intro allI impI)
  fix i assume i: "slash \<notin> set i" "p @ slash # i \<notin> K"
  show "map_of (pv_nodeMap (load_all um kvs x)) i = Option.bind (kv (p @ slash # i)) um"
    using load_map [OF assms(1,2) i(1), of um x] assms(3,4) i by (auto simp: agrees_def split: option.splits)
qed

lemma dom_kv_after: "dom (kv_after evs) \<subseteq> touched evs"
  using kv_untouched [of _ evs Map.empty] by (auto simp: kv_after_def dom_def) (metis option.distinct(1))

lemma snapshot_under:
  assumes "\<forall>k \<in> touched evs. under p k" and "map_of kvs = kv_after evs"
  shows "\<forall>k \<in> fst ` set kvs. under p k"
  using assms dom_kv_after [of evs] by (metis dom_map_of_conv_image_fst subsetD)

text \<open>Between the first snapshot and the watch: reloads after a lost race, and the node's own registration.\<close>

datatype boot_op = Reload "(string \<times> string) list" | OwnPut string string

fun boot_step :: "(string \<Rightarrow> tNodeState option) \<Rightarrow> boot_op \<Rightarrow> provider \<Rightarrow> provider" where
  "boot_step um (Reload kvs) x = load_all um kvs x"
| "boot_step um (OwnPut k v) x = parseWatch um MPut k v x"

fun boot_ok :: "(member_op \<times> string \<times> string) list \<Rightarrow> (member_op \<times> string \<times> string) list \<Rightarrow> boot_op \<Rightarrow> bool" where
  "boot_ok evs1 evs2 (Reload kvs) = (distinct (map fst kvs) \<and> (\<exists>n. map_of kvs = kv_after (evs1 @ take n evs2)))"
| "boot_ok evs1 evs2 (OwnPut k v) = ((MPut, k, v) \<in> set evs2)"

lemma touched_append [simp]: "touched (a @ b) = touched a \<union> touched b"
  by (simp add: touched_def image_Un)

lemma touched_take: "touched (take n evs) \<subseteq> touched evs"
  unfolding touched_def by (rule image_mono) (rule set_take_subset)

lemma agrees_boot:
  assumes h: "\<forall>k \<in> touched (evs1 @ evs2). under p k" and ok: "boot_ok evs1 evs2 bop"
    and a: "agrees um p (touched evs2) (kv_after evs1) x"
  shows "agrees um p (touched evs2) (kv_after evs1) (boot_step um bop x)"
proof (cases bop)
  case (Reload kvs)
  then obtain n where n: "distinct (map fst kvs)" "map_of kvs = kv_after (evs1 @ take n evs2)" using ok by auto
  have "map_of kvs k = kv_after evs1 k" if "k \<notin> touched evs2" for k
  proof -
    have "k \<notin> touched (take n evs2)" using that touched_take [of n evs2] by blast
    then show ?thesis unfolding n(2) by (simp add: kv_after_def kv_untouched)
  qed
  moreover have "\<forall>k \<in> fst ` set kvs. under p k"
    using snapshot_under [OF _ n(2)] h touched_take [of n evs2] by auto
  ultimately show ?thesis using agrees_load [OF n(1) _ a] Reload by simp
next
  case (OwnPut k v)
  then have k: "k \<in> touched evs2" using ok by (auto simp: touched_def image_iff intro!: bexI [of _ "(MPut, k, v)"])
  then have "under p k" using h by simp
  from agrees_event [OF a this, of MPut v] show ?thesis
    using OwnPut k by (auto simp: agrees_def split: if_splits)
qed

lemma published_distinct: "published x \<Longrightarrow> distinct (map fst (pv_nodeMap x))"
  by (simp add: published_def)

lemma boot_published: "published x \<Longrightarrow> published (boot_step um bop x)"
  by (cases bop) (simp_all add: load_all_published parseWatch_published published_distinct)

lemma watch_batches:
  "fold (\<lambda>b x. snd (watchMembers um (WatchEvents b) x)) bs x = fold (\<lambda>(opn, k, v). parseWatch um opn k v) (concat bs) x"
  by (induction bs arbitrary: x) simp_all

lemma replay_published: "published x \<Longrightarrow> published (fold (\<lambda>(opn, k, v). parseWatch um opn k v) evs x)"
proof (induction evs arbitrary: x)
  case (Cons ev evs)
  obtain opn k v where "ev = (opn, k, v)" by (cases ev)
  then show ?case using Cons parseWatch_published [of x um opn k v] by (simp add: published_distinct)
qed simp

text \<open>
  C17. The member set converges to the cluster's. Let \<open>evs1\<close> be the member events up to the snapshot
  \<open>start\<close> loaded and \<open>evs2\<close> those after it. Whatever snapshots register reloads in between and wherever the
  node's own registration falls, once the watch has delivered \<open>evs2\<close>, in any batches, the provider holds
  exactly the decodable members that are in etcd after all events, no departed member lingers, and
  \<open>GetNodes\<close> hands out that set with the current version.
\<close>

theorem member_set_converges:
  assumes "\<forall>k \<in> touched (evs1 @ evs2). under p k"
    and "distinct (map fst kvs0)" and "map_of kvs0 = kv_after evs1" and "pv_nodeMap x = []"
    and "\<forall>bop \<in> set ops. boot_ok evs1 evs2 bop" and "concat batches = evs2"
    and "x' = fold (\<lambda>b x. snd (watchMembers um (WatchEvents b) x)) batches (fold (boot_step um) ops (load_all um kvs0 x))"
  shows "(\<forall>i. slash \<notin> set i \<longrightarrow> map_of (pv_nodeMap x') i = Option.bind (kv_after (evs1 @ evs2) (p @ slash # i)) um) \<and>
    GetNodes x' = (map snd (pv_nodeMap x'), GetNodesVersion x') \<and> distinct (map fst (pv_nodeMap x'))"
proof -
  let ?x1 = "load_all um kvs0 x" let ?x2 = "fold (boot_step um) ops ?x1"
  have "\<forall>k \<in> touched evs1. under p k" using assms(1) by simp
  then have u: "\<forall>k \<in> fst ` set kvs0. under p k" by (rule snapshot_under [OF _ assms(3)])
  have "agrees um p (touched evs2) (kv_after evs1) ?x1"
    using load_map [OF assms(2) u] assms(3,4) by (auto simp: agrees_def split: option.splits)
  then have "agrees um p (touched evs2) (kv_after evs1) ?x2" using assms(5)
    by (induction ops arbitrary: x rule: rev_induct) (auto intro!: agrees_boot [OF assms(1)])
  moreover have "\<forall>k \<in> touched evs2. under p k" using assms(1) by simp
  ultimately have "agrees um p {} (kv_after (evs1 @ evs2)) x'"
    using agrees_replay [of um p "touched evs2" "kv_after evs1" ?x2 evs2] assms(6,7) watch_batches [of um batches ?x2]
    by (simp add: kv_after_def)
  moreover have "published ?x2"
    using load_all_published [of x um kvs0] assms(4) by (induction ops rule: rev_induct) (auto intro: boot_published)
  then have "published x'" using replay_published assms(6,7) watch_batches by metis
  ultimately show ?thesis by (simp add: agrees_def published_def GetNodes_def GetNodesVersion_def)
qed

definition fresh_provider :: "config \<Rightarrow> provider" where
  "fresh_provider conf = \<lparr>pv_config = conf, pv_leaseId = 0, pv_keepAlive = False, pv_client = False, pv_stopping = False,
     pv_version = 0, pv_nodeMap = [], pv_nodes = None, pv_watchFrom = None, pv_initialised = None\<rparr>"

theorem member_set_converges_witness:
  "let x' = fold (\<lambda>b x. snd (watchMembers (\<lambda>_. Some zero_state) (WatchEvents b) x))
       [[(MDelete, ''/c/member/1'', [])], [(MPut, ''/c/member/2'', ''B'')]]
       (fold (boot_step (\<lambda>_. Some zero_state)) [OwnPut ''/c/member/2'' ''B'']
         (load_all (\<lambda>_. Some zero_state) [(''/c/member/1'', ''A'')] (fresh_provider (default_config ''c'' ''v'' []))))
   in map_of (pv_nodeMap x') ''1'' = None \<and> map_of (pv_nodeMap x') ''2'' = Some zero_state"
proof -
  let ?evs1 = "[(MPut, ''/c/member/1'', ''A'')]"
  let ?evs2 = "[(MDelete, ''/c/member/1'', []), (MPut, ''/c/member/2'', ''B'')]"
  have "\<forall>k \<in> touched (?evs1 @ ?evs2). under ''/c/member'' k"
    by (auto simp: touched_def under_def)
  from member_set_converges [OF this, of "[(''/c/member/1'', ''A'')]" "fresh_provider (default_config ''c'' ''v'' [])" "[OwnPut ''/c/member/2'' ''B'']"
      "[[(MDelete, ''/c/member/1'', [])], [(MPut, ''/c/member/2'', ''B'')]]" _ "\<lambda>_. Some zero_state", OF _ _ _ _ _ refl]
  show ?thesis by (simp add: kv_after_def fresh_provider_def Let_def)
qed

subsection \<open>Claiming an id and starting\<close>

lemma freeNodeIds_spec:
  assumes "i \<in> set (freeNodeIds x)"
  shows "1 \<le> i" "i \<le> nodeMax" "map_of (pv_nodeMap x) (FormatUint i) = None"
proof -
  obtain n where n: "i = word_of_nat n" "1 \<le> n" "n \<le> 1023" "map_of (pv_nodeMap x) (FormatUint i) = None"
    using assms by (auto simp: freeNodeIds_def MaxNodeMax_def nodeMax_val)
  then have "unat i = n" by (simp add: unsigned_of_nat take_bit_nat_eq_self)
  then show "1 \<le> i" "i \<le> nodeMax" "map_of (pv_nodeMap x) (FormatUint i) = None"
    using n by (simp_all add: word_le_nat_alt nodeMax_val)
qed

lemma applyMember_frame:
  "\<exists>v m. applyMemberLocked um opn k val x = x\<lparr>pv_version := v, pv_nodeMap := m\<rparr>"
  by (cases "um val") (auto simp: applyMemberLocked_def Let_def)

lemma load_frame:
  "\<exists>v m. fold (\<lambda>(k, v). applyMemberLocked um MPut k v) kvs x = x\<lparr>pv_version := v, pv_nodeMap := m\<rparr>"
proof (induction kvs arbitrary: x)
  case Nil
  have "x = x\<lparr>pv_version := pv_version x, pv_nodeMap := pv_nodeMap x\<rparr>" by simp
  then show ?case by (simp only: fold_simps id_apply) blast
next
  case (Cons kv kvs)
  obtain k val where kv: "kv = (k, val)" by (cases kv)
  obtain v m where x1: "applyMemberLocked um MPut k val x = x\<lparr>pv_version := v, pv_nodeMap := m\<rparr>"
    using applyMember_frame by blast
  obtain v' m' where "fold (\<lambda>(k, v). applyMemberLocked um MPut k v) kvs (x\<lparr>pv_version := v, pv_nodeMap := m\<rparr>)
      = x\<lparr>pv_version := v, pv_nodeMap := m\<rparr>\<lparr>pv_version := v', pv_nodeMap := m'\<rparr>" using Cons.IH by blast
  then show ?case using kv x1 by auto
qed

lemma loadMembers_frame:
  assumes "loadMembers c um x e = (r, x', e')"
  shows "\<exists>v m n. x' = x\<lparr>pv_version := v, pv_nodeMap := m, pv_nodes := n\<rparr>"
proof -
  consider "x' = x" | kvs where "x' = load_all um kvs x"
    using assms by (auto simp: loadMembers_def split: prod.splits option.splits)
  then show ?thesis
  proof cases
    case 1
    then have "x' = x\<lparr>pv_version := pv_version x, pv_nodeMap := pv_nodeMap x, pv_nodes := pv_nodes x\<rparr>" by simp
    then show ?thesis by blast
  next
    case (2 kvs)
    obtain v m where "fold (\<lambda>(k, v). applyMemberLocked um MPut k v) kvs x = x\<lparr>pv_version := v, pv_nodeMap := m\<rparr>"
      using load_frame by blast
    then have "x' = x\<lparr>pv_version := v, pv_nodeMap := m, pv_nodes := Some (v, map snd m)\<rparr>"
      using 2 by (simp add: load_all_def publishNodesLocked_def)
    then show ?thesis by blast
  qed
qed

text \<open>What a successful claim has done.\<close>

definition claimed :: "('e \<Rightarrow> kv_view) \<Rightarrow> (tNodeState \<Rightarrow> string) \<Rightarrow> (string \<Rightarrow> tNodeState option) \<Rightarrow> config \<Rightarrow> int \<Rightarrow> string \<Rightarrow>
    u64 \<Rightarrow> provider \<Rightarrow> 'e \<Rightarrow> bool" where
  "claimed view marshal um conf lease addr i x' e' \<longleftrightarrow>
     1 \<le> i \<and> i \<le> nodeMax \<and> pv_initialised x' = Some i \<and> pv_leaseId x' = lease \<and>
     (\<exists>now e0. let st = fst (config_init now addr i conf) in
        cf_state (pv_config x') = st \<and> GetNodeId x' = i \<and>
        view e0 (getMemberPath conf i) = None \<and>
        view e' = (view e0)(getMemberPath conf i \<mapsto> (marshal st, lease)) \<and>
        map_of (pv_nodeMap x') (FormatUint i) = um (marshal st))"

lemma config_init_keeps: "getMemberPath (snd (config_init now addr i conf)) j = getMemberPath conf j"
    "config_init now' addr' i' (snd (config_init now addr i conf)) = config_init now' addr' i' conf"
  by (simp_all add: config_init_def Let_def getMemberPath_def getKinds_def)

lemma member_key_path: "member_key (getMemberPath conf i) = FormatUint i"
proof -
  have "getMemberPath conf i = (''/'' @ cf_clusterName conf @ ''/member'') @ slash # FormatUint i" by (simp add: getMemberPath_def)
  moreover have "slash \<notin> set (FormatUint i)" by (rule FormatUint_notin) simp
  ultimately show ?thesis by (simp only: member_key_under not_False_eq_True)
qed

lemma register_loop_claims:
  assumes c: "etcd_ok view c" and rnd: "\<And>rd n. 0 < n \<Longrightarrow> rnd rd n < n"
    and "register_loop c marshal um rnd clock addr left x e = (Registered i, x', e')"
    and "\<exists>now i0. pv_config x = conf \<or> pv_config x = snd (config_init now addr i0 conf)"
  shows "claimed view marshal um conf (pv_leaseId x) addr i x' e'"
  using assms(3,4)
proof (induction left arbitrary: x e)
  case (Suc left)
  let ?rd = "registerRounds - Suc left" and ?free = "freeNodeIds x"
  let ?i = "?free ! rnd ?rd (length ?free)"
  let ?key = "getMemberPath (pv_config x) ?i"
  obtain st cf where sc: "config_init (clock ?rd) addr ?i (pv_config x) = (st, cf)" by fastforce
  obtain ok e1 where t: "setTxn c (pv_leaseId x) ?key (marshal st) e = (ok, e1)" by fastforce
  have free: "?free \<noteq> []" using Suc.prems(1) by (auto simp: Let_def)
  then have mem: "?i \<in> set ?free" using rnd [of "length ?free" ?rd] by (intro nth_mem) simp
  have st: "st = fst (config_init (clock ?rd) addr ?i conf)" "cf = snd (config_init (clock ?rd) addr ?i conf)"
      "?key = getMemberPath conf ?i"
    using Suc.prems(2) sc by (auto simp: config_init_keeps)
  show ?case
  proof (cases ok)
    case True
    have r: "i = ?i" "x' = (parseWatch um MPut ?key (marshal st) (x\<lparr>pv_config := cf\<rparr>))\<lparr>pv_initialised := Some ?i\<rparr>" "e' = e1"
      using Suc.prems(1) free sc t True by (auto simp: Let_def)
    have "map_of (pv_nodeMap x') (FormatUint i) = um (marshal st)"
      by (simp add: r applyMember_map member_key_path)
    moreover obtain v m where "applyMemberLocked um MPut ?key (marshal st) (x\<lparr>pv_config := cf\<rparr>) = x\<lparr>pv_config := cf, pv_version := v, pv_nodeMap := m\<rparr>"
      using applyMember_frame [of um MPut ?key "marshal st" "x\<lparr>pv_config := cf\<rparr>"] by blast
    then have "pv_config x' = cf" "pv_leaseId x' = pv_leaseId x" "pv_initialised x' = Some i"
      by (simp_all add: r parseWatch_def publishNodesLocked_def)
    moreover have "cf_state cf = st" "ns_NodeId st = ?i" by (simp_all add: st(1,2) config_init_def Let_def)
    ultimately show ?thesis
      using setTxn_True [OF c, of "pv_leaseId x" ?key "marshal st" e e1] t True freeNodeIds_spec(1,2) [OF mem] r(1,3) st(1,3)
      unfolding claimed_def Let_def GetNodeId_def by auto
  next
    case False
    obtain rr x2 e2 where l: "loadMembers c um (x\<lparr>pv_config := cf\<rparr>) e1 = (rr, x2, e2)" by (metis prod_cases3)
    then have rec: "register_loop c marshal um rnd clock addr left x2 e2 = (Registered i, x', e')"
      using Suc.prems(1) free sc t False by (auto simp: Let_def split: option.splits)
    obtain v m n where x2: "x2 = x\<lparr>pv_config := cf, pv_version := v, pv_nodeMap := m, pv_nodes := n\<rparr>"
      using loadMembers_frame [OF l] by auto
    have "claimed view marshal um conf (pv_leaseId x2) addr i x' e'" using Suc.IH [OF rec] st(2) x2 by auto
    then show ?thesis using x2 by simp
  qed
qed simp

text \<open>
  The rounds of \<open>register\<close> that failed: each asked etcd to create a key under the lease, was told no or got no
  answer, and read the members again.
\<close>

inductive lost_rounds :: "'e etcd_client \<Rightarrow> int \<Rightarrow> 'e \<Rightarrow> 'e \<Rightarrow> bool" for c lease where
  no_round: "lost_rounds c lease e e"
| lost_round: "ec_Txn c (CreateRevisionZero key) (OpPut key val lease) e = (r, e1) \<Longrightarrow> r \<noteq> Some True \<Longrightarrow>
    ec_GetPrefix c pre e1 = (kvs, e2) \<Longrightarrow> lost_rounds c lease e2 e0 \<Longrightarrow> lost_rounds c lease e e0"

lemma setTxn_asks:
  assumes "setTxn c lease key val e = (ok, e')"
  obtains r where "ec_Txn c (CreateRevisionZero key) (OpPut key val lease) e = (r, e')" "ok \<longleftrightarrow> r = Some True"
  using assms by (auto simp: setTxn_def split: prod.splits option.splits)

lemma loadMembers_reads:
  assumes "loadMembers c um x e = (r, x', e')"
  obtains pre kvs where "ec_GetPrefix c pre e = (kvs, e')"
  using assms by (auto simp: loadMembers_def split: prod.splits option.splits)

lemma register_loop_asks:
  assumes "register_loop c marshal um rnd clock addr left x e = (Registered i, x', e')"
    and "\<And>j. getMemberPath (pv_config x) j = getMemberPath conf j" and "pv_leaseId x = lease"
  shows "\<exists>e0 val. lost_rounds c lease e e0 \<and>
    ec_Txn c (CreateRevisionZero (getMemberPath conf i)) (OpPut (getMemberPath conf i) val lease) e0 = (Some True, e')"
  using assms
proof (induction left arbitrary: x e)
  case (Suc left)
  let ?rd = "registerRounds - Suc left" and ?free = "freeNodeIds x"
  let ?i = "?free ! rnd ?rd (length ?free)"
  let ?key = "getMemberPath (pv_config x) ?i"
  obtain st cf where sc: "config_init (clock ?rd) addr ?i (pv_config x) = (st, cf)" by fastforce
  obtain ok e1 where t: "setTxn c lease ?key (marshal st) e = (ok, e1)" by fastforce
  obtain r where r: "ec_Txn c (CreateRevisionZero ?key) (OpPut ?key (marshal st) lease) e = (r, e1)" "ok \<longleftrightarrow> r = Some True"
    using setTxn_asks [OF t] by blast
  have free: "?free \<noteq> []" using Suc.prems(1) by (auto simp: Let_def)
  show ?case
  proof (cases ok)
    case True
    then have "i = ?i" "e' = e1" using Suc.prems(1,3) free sc t by (auto simp: Let_def)
    then show ?thesis using lost_rounds.no_round r True Suc.prems(2) by metis
  next
    case False
    obtain rr x2 e2 where l: "loadMembers c um (x\<lparr>pv_config := cf\<rparr>) e1 = (rr, x2, e2)" by (metis prod_cases3)
    then have rec: "register_loop c marshal um rnd clock addr left x2 e2 = (Registered i, x', e')"
      using Suc.prems(1,3) free sc t False by (auto simp: Let_def split: option.splits)
    have "pv_config x2 = cf" "pv_leaseId x2 = lease" using loadMembers_frame [OF l] Suc.prems(3) by auto
    moreover have "getMemberPath cf j = getMemberPath conf j" for j
      using config_init_keeps(1) [of "clock ?rd" addr ?i "pv_config x" j] sc Suc.prems(2) by simp
    ultimately obtain e0 val where "lost_rounds c lease e2 e0"
        "ec_Txn c (CreateRevisionZero (getMemberPath conf i)) (OpPut (getMemberPath conf i) val lease) e0 = (Some True, e')"
      using Suc.IH [OF rec] by auto
    moreover obtain pre kvs where "ec_GetPrefix c pre e1 = (kvs, e2)" using loadMembers_reads [OF l] by blast
    ultimately show ?thesis using lost_rounds.lost_round [OF r(1)] r(2) False by blast
  qed
qed simp

text \<open>While nobody else writes, lost rounds only add keys.\<close>

lemma lost_rounds_add:
  assumes "lost_rounds c lease e e0" and "etcd_ok view c" and "\<And>p s. view (snd (ec_GetPrefix c p s)) = view s"
    and "view e0 key = None"
  shows "view e key = None"
  using assms(1,4)
proof (induction rule: lost_rounds.induct)
  case (lost_round k val e r e1 pre kvs e2 e0)
  have "view e1 key = None" using lost_round assms(3) [of pre e1] by simp
  then show ?case using etcd_okD(2) [OF assms(2) lost_round.hyps(1,2)] by (auto split: if_splits)
qed simp

text \<open>
  C18. A node id is claimed by this node alone. With an etcd that honours its transactions, whatever the
  random choices, the clock and the other nodes do: when \<open>register\<close> succeeds with an id, the id is one
  the id generator accepts (1 to 1023). The run consists of lost rounds, each a refused or unanswered creation
  followed by a read, and of one last transaction that creates the member key of this id: in the state in which
  the lost rounds left etcd the key did not exist, and the state after \<open>register\<close> is that one with the
  key bound to this node's state and lease. So, when nobody else writes during the call, the key did
  not exist when \<open>register\<close> was called. The configuration carries the id and the address, the
  system was initialised with it, and the node's own member table already lists it (when the codec can
  read back what it wrote).
\<close>

theorem register_claims_unique_id:
  assumes "etcd_ok view c" and "\<forall>rd n. 0 < n \<longrightarrow> rnd rd n < n"
    and "provider_register c marshal um rnd clock addr x e = (Registered i, x', e')"
  shows "1 \<le> i \<and> (\<exists>n. NewUUID i wall = Some n) \<and> pv_initialised x' = Some i \<and>
    (\<exists>now e0. let st = fst (config_init now addr i (pv_config x)); key = getMemberPath (pv_config x) i in
        cf_state (pv_config x') = st \<and> GetNodeId x' = i \<and> ns_Address st = addr \<and>
        lost_rounds c (pv_leaseId x) e e0 \<and>
        ec_Txn c (CreateRevisionZero key) (OpPut key (marshal st) (pv_leaseId x)) e0 = (Some True, e') \<and>
        view e0 key = None \<and> view e' = (view e0)(key \<mapsto> (marshal st, pv_leaseId x)) \<and>
        ((\<forall>p s. view (snd (ec_GetPrefix c p s)) = view s) \<longrightarrow> view e key = None) \<and>
        map_of (pv_nodeMap x') (FormatUint i) = um (marshal st))"
proof -
  let ?key = "getMemberPath (pv_config x) i" and ?lease = "pv_leaseId x"
  note loop = assms(3) [unfolded provider_register_def]
  have cl: "claimed view marshal um (pv_config x) ?lease addr i x' e'"
    using register_loop_claims [OF assms(1), of rnd] assms(2) loop by blast
  then obtain now where st: "cf_state (pv_config x') = fst (config_init now addr i (pv_config x))" "GetNodeId x' = i"
      "view e' ?key = Some (marshal (fst (config_init now addr i (pv_config x))), ?lease)"
      "map_of (pv_nodeMap x') (FormatUint i) = um (marshal (fst (config_init now addr i (pv_config x))))"
    by (auto simp: claimed_def Let_def)
  obtain e0 val where run: "lost_rounds c ?lease e e0"
      "ec_Txn c (CreateRevisionZero ?key) (OpPut ?key val ?lease) e0 = (Some True, e')"
    using register_loop_asks [OF loop refl refl] by blast
  have txn: "view e0 ?key = None" "view e' = (view e0)(?key \<mapsto> (val, ?lease))"
    using etcd_okD(1) [OF assms(1) run(2)] by simp_all
  then have "val = marshal (fst (config_init now addr i (pv_config x)))" using st(3) by simp
  moreover have "view e ?key = None" if "\<forall>p s. view (snd (ec_GetPrefix c p s)) = view s"
    by (rule lost_rounds_add [OF run(1) assms(1) _ txn(1)]) (use that in blast)
  moreover have "ns_Address (fst (config_init now addr i (pv_config x))) = addr"
    by (simp add: config_init_def Let_def)
  moreover have "1 \<le> i" "\<exists>n. NewUUID i wall = Some n" "pv_initialised x' = Some i"
    using cl by (auto simp: claimed_def NewUUID_def)
  ultimately show ?thesis using st run txn unfolding Let_def by blast
qed

text \<open>A one-key store for the witnesses: exact transactions on a map.\<close>

definition store_client :: "kv_view etcd_client" where
  "store_client = \<lparr>ec_New = (\<lambda>_ _ e. (True, e)), ec_Grant = (\<lambda>_ e. (Some 7, e)), ec_KeepAlive = (\<lambda>_ e. (True, e)),
     ec_Revoke = (\<lambda>l e. (True, \<lambda>k. case e k of Some (v, l') \<Rightarrow> if l' = l then None else Some (v, l') | None \<Rightarrow> None)),
     ec_Get = (\<lambda>_ e. (Some (1, []), e)), ec_GetPrefix = (\<lambda>_ e. (Some (1, []), e)),
     ec_Txn = (\<lambda>cmp opn e. case cmp of
        CreateRevisionZero k \<Rightarrow> if e k = None then (Some True, apply_op opn e) else (Some False, e)
      | ValueEquals k v \<Rightarrow> (case e k of Some (v', l) \<Rightarrow> if v = v' then (Some True, apply_op opn e) else (Some False, e)
                               | None \<Rightarrow> (Some False, e))),
     ec_Put = (\<lambda>k v l e. (True, e(k \<mapsto> (v, l)))), ec_Delete = (\<lambda>k e. (True, e(k := None)))\<rparr>"

lemma store_client_ok: "etcd_ok id store_client"
  by (auto simp: etcd_ok_def store_client_def split: etcd_cmp.splits option.splits if_splits)

text \<open>A store in which another node holds the id that this one tries first.\<close>

definition demo_conf :: config where "demo_conf = default_config ''c'' ''v'' []"

definition held_store :: kv_view where
  "held_store = [getMemberPath demo_conf 1 \<mapsto> (''other'', 9)]"

lemma freeNodeIds_empty:
  assumes "pv_nodeMap x = []"
  shows "freeNodeIds x ! 0 = 1" "freeNodeIds x ! 1 = 2" "length (freeNodeIds x) = 1023" "freeNodeIds x \<noteq> []"
proof -
  have "freeNodeIds x = map word_of_nat [1 ..< 1024]" using assms by (simp add: freeNodeIds_def MaxNodeMax_def nodeMax_val)
  then show "freeNodeIds x ! 0 = 1" "freeNodeIds x ! 1 = 2" "length (freeNodeIds x) = 1023" "freeNodeIds x \<noteq> []"
    by (simp_all del: upt_Suc upt_rec_numeral)
qed

lemma store_create: "setTxn store_client lease k v e = (if e k = None then (True, e(k \<mapsto> (v, lease))) else (False, e))"
  by (simp add: setTxn_def store_client_def)

lemma store_load: "loadMembers store_client um x e = (Some 1, publishNodesLocked x, e)"
  by (simp add: loadMembers_def store_client_def load_all_def)

text \<open>One round of the loop, lost or won.\<close>

lemma register_round:
  assumes "freeNodeIds x \<noteq> []" and "freeNodeIds x ! rnd (registerRounds - Suc left) (length (freeNodeIds x)) = i"
    and "config_init (clock (registerRounds - Suc left)) addr i (pv_config x) = (st, cf)"
    and "setTxn c (pv_leaseId x) (getMemberPath (pv_config x) i) (marshal st) e = (ok, e1)"
  shows "ok \<Longrightarrow> \<exists>x'. register_loop c marshal um rnd clock addr (Suc left) x e = (Registered i, x', e1)"
    and "\<not> ok \<Longrightarrow> loadMembers c um (x\<lparr>pv_config := cf\<rparr>) e1 = (Some revn, x2, e2) \<Longrightarrow>
      register_loop c marshal um rnd clock addr (Suc left) x e = register_loop c marshal um rnd clock addr left x2 e2"
  using assms by (simp_all add: Let_def)

theorem register_claims_unique_id_witness:
  "\<exists>x' e'. provider_register store_client (\<lambda>_. ''S'') (\<lambda>_. None) (\<lambda>rd n. if rd < n then rd else 0) (\<lambda>_. []) ''h:1''
      (fresh_provider demo_conf) held_store = (Registered 2, x', e') \<and>
     e' (getMemberPath demo_conf 1) = Some (''other'', 9) \<and> held_store (getMemberPath demo_conf 2) = None \<and> pv_initialised x' = Some 2"
proof -
  let ?x = "fresh_provider demo_conf" and ?rnd = "\<lambda>rd n :: nat. if rd < n then rd else 0"
  have keys: "getMemberPath demo_conf 1 \<noteq> getMemberPath demo_conf 2" by code_simp
  have conf: "pv_config ?x = demo_conf" "pv_nodeMap ?x = []" by (simp_all add: fresh_provider_def)
  define st where "st j = fst (config_init [] ''h:1'' j demo_conf)" for j
  define cf where "cf j = snd (config_init [] ''h:1'' j demo_conf)" for j
  have init: "config_init [] ''h:1'' j demo_conf = (st j, cf j)" "config_init [] ''h:1'' j (cf k) = (st j, cf j)"
      "getMemberPath (cf j) k = getMemberPath demo_conf k" for j k
    by (simp_all add: st_def cf_def config_init_keeps)
  let ?x1 = "publishNodesLocked (?x\<lparr>pv_config := cf 1\<rparr>)"
  have x1: "pv_config ?x1 = cf 1" "pv_nodeMap ?x1 = []" by (simp_all add: publishNodesLocked_def conf)
  have held: "held_store (getMemberPath demo_conf 1) \<noteq> None" "held_store (getMemberPath demo_conf 2) = None"
    using keys by (simp_all add: held_store_def)
  have win: "\<exists>x'. register_loop store_client (\<lambda>_. ''S'') (\<lambda>_. None) ?rnd (\<lambda>_. []) ''h:1'' (Suc 14) ?x1 held_store =
      (Registered 2, x', held_store(getMemberPath demo_conf 2 \<mapsto> (''S'', pv_leaseId ?x1)))"
    by (rule register_round(1) [where st = "st 2" and cf = "cf 2" and ok = True])
      (use freeNodeIds_empty [OF x1(2)] held(2) in \<open>simp_all add: registerRounds_def x1(1) init store_create\<close>)
  have lose: "register_loop store_client (\<lambda>_. ''S'') (\<lambda>_. None) ?rnd (\<lambda>_. []) ''h:1'' (Suc 15) ?x held_store =
      register_loop store_client (\<lambda>_. ''S'') (\<lambda>_. None) ?rnd (\<lambda>_. []) ''h:1'' 15 ?x1 held_store"
    by (rule register_round(2) [where i = 1 and st = "st 1" and cf = "cf 1" and ok = False])
      (use freeNodeIds_empty [OF conf(2)] held(1) in \<open>simp_all add: registerRounds_def conf(1) init store_create store_load\<close>)
  obtain x' where r: "provider_register store_client (\<lambda>_. ''S'') (\<lambda>_. None) ?rnd (\<lambda>_. []) ''h:1'' ?x held_store
      = (Registered 2, x', held_store(getMemberPath demo_conf 2 \<mapsto> (''S'', pv_leaseId ?x1)))"
    using win lose by (auto simp: provider_register_def registerRounds_def simp del: register_loop.simps)
  have rnd: "\<forall>rd n. 0 < n \<longrightarrow> ?rnd rd n < n" by simp
  have quiet: "\<forall>p s. id (snd (ec_GetPrefix store_client p s)) = id s" by (simp add: store_client_def)
  have "held_store (getMemberPath demo_conf 2) = None \<and> pv_initialised x' = Some 2"
    using register_claims_unique_id [OF store_client_ok rnd r, of 0] quiet conf by (auto simp: Let_def)
  then show ?thesis using r keys by (auto simp: held_store_def)
qed

text \<open>The parts of the provider that only \<open>start\<close> and \<open>releaseEtcd\<close> change.\<close>

definition same_handles :: "provider \<Rightarrow> provider \<Rightarrow> bool" where
  "same_handles x y \<longleftrightarrow> pv_leaseId y = pv_leaseId x \<and> pv_client y = pv_client x \<and> pv_keepAlive y = pv_keepAlive x \<and>
     pv_watchFrom y = pv_watchFrom x \<and> pv_stopping y = pv_stopping x"

lemma load_handles: "loadMembers c um x e = (r, x', e') \<Longrightarrow> same_handles x x'"
  using loadMembers_frame by (fastforce simp: same_handles_def)

lemma register_handles:
  "register_loop c marshal um rnd clock addr left x e = (r, x', e') \<Longrightarrow>
     same_handles x x' \<and> (\<forall>i. r = Registered i \<longrightarrow> pv_initialised x' = Some i)"
proof (induction left arbitrary: x e)
  case (Suc left)
  let ?rd = "registerRounds - Suc left" and ?free = "freeNodeIds x"
  let ?i = "?free ! rnd ?rd (length ?free)"
  let ?key = "getMemberPath (pv_config x) ?i"
  obtain st cf where sc: "config_init (clock ?rd) addr ?i (pv_config x) = (st, cf)" by fastforce
  obtain ok e1 where t: "setTxn c (pv_leaseId x) ?key (marshal st) e = (ok, e1)" by fastforce
  obtain rr x2 e2 where l: "loadMembers c um (x\<lparr>pv_config := cf\<rparr>) e1 = (rr, x2, e2)" by (metis prod_cases3)
  have h2: "same_handles x x2" using load_handles [OF l] by (simp add: same_handles_def)
  obtain v m where a: "applyMemberLocked um MPut ?key (marshal st) (x\<lparr>pv_config := cf\<rparr>) = x\<lparr>pv_config := cf, pv_version := v, pv_nodeMap := m\<rparr>"
    using applyMember_frame [of um MPut ?key "marshal st" "x\<lparr>pv_config := cf\<rparr>"] by blast
  show ?case
  proof (cases "?free = [] \<or> ok \<or> rr = None")
    case True
    then show ?thesis using Suc.prems sc t l a h2
      by (auto simp: Let_def same_handles_def parseWatch_def publishNodesLocked_def split: if_splits)
  next
    case False
    then have "register_loop c marshal um rnd clock addr left x2 e2 = (r, x', e')"
      using Suc.prems sc t l by (auto simp: Let_def)
    from Suc.IH [OF this] h2 show ?thesis by (simp add: same_handles_def)
  qed
qed (simp add: same_handles_def)

lemma release_handles:
  "releaseEtcd c b x e = (x', e') \<Longrightarrow> \<not> pv_client x' \<and> \<not> pv_keepAlive x' \<and> pv_watchFrom x' = pv_watchFrom x \<and>
     (pv_client x \<longrightarrow> pv_leaseId x' = 0) \<and> (\<not> b \<longrightarrow> e' = e) \<and>
     (b \<longrightarrow> pv_client x \<longrightarrow> pv_leaseId x \<noteq> 0 \<longrightarrow> e' = snd (ec_Revoke c (pv_leaseId x) e))"
  by (auto simp: releaseEtcd_def Let_def split: if_splits)

text \<open>The state in which \<open>start\<close> goes on once it has the lease \<open>l\<close>, and how it ends from there.\<close>

definition leased :: "config \<Rightarrow> int \<Rightarrow> provider \<Rightarrow> provider" where
  "leased conf l x = (publishNodesLocked (x\<lparr>pv_config := conf, pv_version := 1, pv_nodeMap := []\<rparr>))\<lparr>pv_client := True, pv_leaseId := l, pv_keepAlive := True\<rparr>"

lemma start_after_lease:
  assumes s: "start_provider c marshal um rnd clock addr conf x e = (ok, x', e')"
    and n: "ec_New c (cf_clusterUrls conf) (cf_etcdDialTimeout conf) e = (True, e1)" and g: "ec_Grant c (cf_etcdLeaseTTLSecond conf) e1 = (Some l, e2)"
  obtains (good) y revn i where "same_handles (leased conf l x) y" "pv_initialised y = Some i" "ok" "x' = y\<lparr>pv_watchFrom := Some (revn + 1)\<rparr>"
    | (bad) y ey where "same_handles (leased conf l x) y" "\<not> ok" "releaseEtcd c True y ey = (x', e')"
proof -
  let ?x1 = "leased conf l x" and ?fail = "\<lambda>x e. let (x, e) = releaseEtcd c True x e in (False, x, e)"
  obtain okK e3 where k: "ec_KeepAlive c l e2 = (okK, e3)" by fastforce
  obtain rv x2 e4 where lm: "loadMembers c um ?x1 e3 = (rv, x2, e4)" by (metis prod_cases3)
  obtain rr x3 e5 where rg: "provider_register c marshal um rnd clock addr x2 e4 = (rr, x3, e5)" by (metis prod_cases3)
  have h: "same_handles ?x1 x2" "same_handles x2 x3" "\<And>i. rr = Registered i \<Longrightarrow> pv_initialised x3 = Some i"
    using load_handles [OF lm] register_handles [OF rg [unfolded provider_register_def]] by blast+
  have h13: "same_handles ?x1 x3" and h11: "same_handles ?x1 ?x1" using h(1,2) by (simp_all add: same_handles_def)
  have u: "(ok, x', e') = (if \<not> okK then ?fail ?x1 e3 else case rv of None \<Rightarrow> ?fail x2 e4
      | Some revn \<Rightarrow> (case rr of Registered i \<Rightarrow> (True, x3\<lparr>pv_watchFrom := Some (revn + 1)\<rparr>, e5) | _ \<Rightarrow> ?fail x3 e5))"
    using s n g k lm rg by (cases okK; cases rv; cases rr) (auto simp: start_provider_def leased_def Let_def)
  have f: "\<not> ok \<and> releaseEtcd c True y ey = (x', e')" if "(ok, x', e') = ?fail y ey" for y ey
    using that by (auto simp: Let_def split: prod.splits)
  show thesis
  proof (cases "okK \<and> rv \<noteq> None \<and> (\<exists>i. rr = Registered i)")
    case True
    then show ?thesis using u good [OF h13] h(3) by auto
  next
    case False
    then have "(ok, x', e') = ?fail ?x1 e3 \<or> (ok, x', e') = ?fail x2 e4 \<or> (ok, x', e') = ?fail x3 e5"
      using u by (cases okK; cases rv; cases rr) simp_all
    then show ?thesis using bad f h(1) h11 h13 by metis
  qed
qed

text \<open>
  C19. Starting a node is all or nothing. When \<open>start\<close> succeeds the client is open, the lease is kept
  alive, an id is registered, and the member watch goes on right after the loaded snapshot. When it fails
  at any point, no client, no keepalive, no lease and no watch are left behind, and a lease that had been
  granted is revoked as the last thing, so that no member key survives. \<open>stop(false)\<close> releases the
  same handles without revoking anything.
\<close>

theorem start_all_or_nothing:
  assumes "start_provider c marshal um rnd clock addr conf x e = (ok, x', e')"
    and "\<not> pv_client x" and "pv_leaseId x = 0" and "\<not> pv_keepAlive x" and "pv_watchFrom x = None"
    and "\<forall>ttl e l. fst (ec_Grant c ttl e) = Some l \<longrightarrow> l \<noteq> 0"
  shows "(ok \<longrightarrow> pv_client x' \<and> pv_keepAlive x' \<and> pv_leaseId x' \<noteq> 0 \<and> pv_watchFrom x' \<noteq> None \<and> pv_initialised x' \<noteq> None) \<and>
    (\<not> ok \<longrightarrow> \<not> pv_client x' \<and> \<not> pv_keepAlive x' \<and> pv_leaseId x' = 0 \<and> pv_watchFrom x' = None) \<and>
    (\<not> ok \<longrightarrow> (\<forall>e1 e2 l. ec_New c (cf_clusterUrls conf) (cf_etcdDialTimeout conf) e = (True, e1) \<longrightarrow>
        ec_Grant c (cf_etcdLeaseTTLSecond conf) e1 = (Some l, e2) \<longrightarrow> (\<exists>e0. e' = snd (ec_Revoke c l e0)))) \<and>
    (\<forall>y y' ey'. provider_stop c False y e = (y', ey') \<longrightarrow> ey' = e \<and> pv_stopping y' \<and> \<not> pv_client y')"
proof -
  let ?x0 = "publishNodesLocked (x\<lparr>pv_config := conf, pv_version := 1, pv_nodeMap := []\<rparr>)"
  obtain okN e1 where n: "ec_New c (cf_clusterUrls conf) (cf_etcdDialTimeout conf) e = (okN, e1)" by fastforce
  obtain gr e2 where g: "ec_Grant c (cf_etcdLeaseTTLSecond conf) e1 = (gr, e2)" by fastforce
  have stop: "provider_stop c False y e = (y', ey') \<longrightarrow> ey' = e \<and> pv_stopping y' \<and> \<not> pv_client y'" for y y' ey'
    by (auto simp: provider_stop_def releaseEtcd_def Let_def split: if_splits)
  have x0: "\<not> pv_client ?x0" "pv_leaseId ?x0 = 0" "\<not> pv_keepAlive ?x0" "pv_watchFrom ?x0 = None"
    using assms(2-5) by (simp_all add: publishNodesLocked_def)
  show ?thesis
  proof (cases okN)
    case False
    then show ?thesis using assms(1) n x0 stop by (auto simp: start_provider_def Let_def)
  next
    case okN: True
    show ?thesis
    proof (cases gr)
      case None
      then show ?thesis using assms(1) n g okN x0 stop release_handles [of c True "?x0\<lparr>pv_client := True\<rparr>" e2]
        by (auto simp: start_provider_def Let_def split: prod.splits)
    next
      case (Some l)
      then have l: "l \<noteq> 0" using assms(6) g by (metis fst_conv)
      have n': "ec_New c (cf_clusterUrls conf) (cf_etcdDialTimeout conf) e = (True, e1)" and g': "ec_Grant c (cf_etcdLeaseTTLSecond conf) e1 = (Some l, e2)"
        using n g okN Some by simp_all
      from assms(1) n' g' show ?thesis
      proof (cases rule: start_after_lease)
        case (good y revn i)
        then show ?thesis using l stop by (auto simp: same_handles_def leased_def)
      next
        case (bad y ey)
        then show ?thesis using release_handles [OF bad(3)] l n' g' x0 stop by (auto simp: same_handles_def leased_def)
      qed
    qed
  qed
qed

theorem start_all_or_nothing_witness:
  "\<exists>ok x' e'. start_provider (store_client\<lparr>ec_KeepAlive := (\<lambda>_ e. (False, e))\<rparr>) (\<lambda>_. ''S'') (\<lambda>_. None) (\<lambda>_ _. 0) (\<lambda>_. []) ''h:1''
      (default_config ''c'' ''v'' []) (fresh_provider (default_config ''c'' ''v'' [])) Map.empty = (ok, x', e') \<and>
     \<not> ok \<and> pv_leaseId x' = 0 \<and> \<not> pv_client x'"
proof -
  let ?c = "store_client\<lparr>ec_KeepAlive := (\<lambda>_ e. (False, e))\<rparr>"
  obtain ok x' e' where r: "start_provider ?c (\<lambda>_. ''S'') (\<lambda>_. None) (\<lambda>_ _. 0) (\<lambda>_. []) ''h:1''
      (default_config ''c'' ''v'' []) (fresh_provider (default_config ''c'' ''v'' [])) Map.empty = (ok, x', e')"
    by (metis prod_cases3)
  then have "\<not> ok" by (auto simp: start_provider_def store_client_def Let_def split: prod.splits)
  then show ?thesis using start_all_or_nothing [OF r] r by (auto simp: fresh_provider_def store_client_def)
qed

end
