(* ===== verification/Cluster_Lock.thy ===== *)
theory Cluster_Lock
  imports Provider_Etcd
begin

section \<open>The single-activation lock: kind_opts.go\<close>

text \<open>
  A cluster actor registers under its id in etcd before its \<open>Started\<close> runs; the key is created only
  when it does not exist, and deleted only when it still holds this node's address. The first part is the
  code. The second is a step relation over all nodes of a cluster: activations try up to three times,
  run while they hold the key, and release it; nodes crash, and leases end for nodes on which no
  activation is running. A lease that ends under a running activation is outside the model: the provider
  then stops the system, but nothing holds the lock any more.
\<close>

text \<open>One attempt; the sleep between attempts lets time pass and other nodes act.\<close>

definition register_attempt :: "'e etcd_client \<Rightarrow> int \<Rightarrow> config \<Rightarrow> actor_ref \<Rightarrow> 'e \<Rightarrow> bool \<times> 'e" where
  "register_attempt c lease conf ref e = setTxn c lease (getActorRegisterName conf ref) (ns_Address (cf_state conf)) e"

fun register_attempts :: "'e etcd_client \<Rightarrow> int \<Rightarrow> config \<Rightarrow> actor_ref \<Rightarrow> (nat \<Rightarrow> 'e \<Rightarrow> 'e) \<Rightarrow> nat \<Rightarrow> nat \<Rightarrow> 'e \<Rightarrow> bool \<times> 'e" where
  "register_attempts c lease conf ref sleep i 0 e = (False, e)"
| "register_attempts c lease conf ref sleep i (Suc left) e =
     (let e = (if 0 < i then sleep (100 * 2 ^ (i - 1)) e else e);
          (ok, e) = register_attempt c lease conf ref e
      in if ok then (True, e) else register_attempts c lease conf ref sleep (Suc i) left e)"

definition defaultRegisterToCluster ::
  "'e etcd_client \<Rightarrow> int \<Rightarrow> config \<Rightarrow> actor_ref \<Rightarrow> (nat \<Rightarrow> 'e \<Rightarrow> 'e) \<Rightarrow> 'e \<Rightarrow> bool \<times> 'e" where
  "defaultRegisterToCluster c lease conf ref sleep e =
     (if GetKind ref \<in> set (ns_Kinds (cf_state conf))
      then register_attempts c lease conf ref sleep 0 defaultRegisterTimes e else (True, e))"

definition defaultUnregisterFromCluster :: "'e etcd_client \<Rightarrow> config \<Rightarrow> actor_ref \<Rightarrow> 'e \<Rightarrow> bool \<times> 'e" where
  "defaultUnregisterFromCluster c conf ref e =
     (if GetKind ref \<in> set (ns_Kinds (cf_state conf))
      then removeTxn c (getActorRegisterName conf ref) (ns_Address (cf_state conf)) e else (True, e))"

subsection \<open>Activations on all nodes\<close>

datatype lock_pc = Trying nat | Holding | GaveUp | Released

record activation =
  ac_node :: nat
  ac_ref :: actor_ref
  ac_pc :: lock_pc

record 'e cluster =
  cl_client :: "'e etcd_client"
  cl_view :: "'e \<Rightarrow> kv_view"
  cl_conf :: "nat \<Rightarrow> config"
  cl_lease :: "nat \<Rightarrow> int"

definition ac_key :: "'e cluster \<Rightarrow> activation \<Rightarrow> string" where
  "ac_key C a = getActorRegisterName (cl_conf C (ac_node a)) (ac_ref a)"

definition ac_addr :: "'e cluster \<Rightarrow> nat \<Rightarrow> string" where
  "ac_addr C n = ns_Address (cf_state (cl_conf C n))"

definition hosts :: "'e cluster \<Rightarrow> nat \<Rightarrow> actor_ref \<Rightarrow> bool" where
  "hosts C n r \<longleftrightarrow> GetKind r \<in> set (ns_Kinds (cf_state (cl_conf C n)))"

definition drop_lease :: "int \<Rightarrow> kv_view \<Rightarrow> kv_view" where
  "drop_lease l v = (\<lambda>k. case v k of Some (x, l') \<Rightarrow> if l' = l then None else Some (x, l') | None \<Rightarrow> None)"

inductive lstep :: "'e cluster \<Rightarrow> 'e \<times> activation list \<Rightarrow> 'e \<times> activation list \<Rightarrow> bool" for C where
  arrive: "hosts C n r \<Longrightarrow> lstep C (e, as) (e, as @ [\<lparr>ac_node = n, ac_ref = r, ac_pc = Trying 0\<rparr>])"
| attempt: "j < length as \<Longrightarrow> ac_pc (as ! j) = Trying i \<Longrightarrow>
    register_attempt (cl_client C) (cl_lease C (ac_node (as ! j))) (cl_conf C (ac_node (as ! j))) (ac_ref (as ! j)) e = (ok, e') \<Longrightarrow>
    lstep C (e, as) (e', as[j := (as ! j)\<lparr>ac_pc :=
      (if ok then Holding else if Suc i < defaultRegisterTimes then Trying (Suc i) else GaveUp)\<rparr>])"
| release: "j < length as \<Longrightarrow> ac_pc (as ! j) = Holding \<Longrightarrow>
    defaultUnregisterFromCluster (cl_client C) (cl_conf C (ac_node (as ! j))) (ac_ref (as ! j)) e = (ok, e') \<Longrightarrow>
    lstep C (e, as) (e', as[j := (as ! j)\<lparr>ac_pc := Released\<rparr>])"
| stray: "\<forall>a \<in> set as. ac_node a = n \<longrightarrow> ac_pc a = Holding \<longrightarrow> GetId (ac_ref a) \<noteq> GetId r \<Longrightarrow>
    defaultUnregisterFromCluster (cl_client C) (cl_conf C n) r e = (ok, e') \<Longrightarrow> lstep C (e, as) (e', as)"
| crash: "lstep C (e, as) (e, map (\<lambda>a. if ac_node a = n then a\<lparr>ac_pc := Released\<rparr> else a) as)"
| lease_end: "\<forall>a \<in> set as. ac_node a = n \<longrightarrow> ac_pc a \<noteq> Holding \<Longrightarrow> cl_view C e' = drop_lease (cl_lease C n) (cl_view C e) \<Longrightarrow>
    lstep C (e, as) (e', as)"

inductive lreach :: "'e cluster \<Rightarrow> 'e \<times> activation list \<Rightarrow> bool" for C where
  init: "lreach C (e, [])"
| step: "lreach C p \<Longrightarrow> lstep C p p' \<Longrightarrow> lreach C p'"

text \<open>One cluster: etcd honours transactions, and addresses and leases tell the nodes apart.\<close>

definition cluster_ok :: "'e cluster \<Rightarrow> bool" where
  "cluster_ok C \<longleftrightarrow> etcd_ok (cl_view C) (cl_client C) \<and> inj (ac_addr C) \<and> inj (cl_lease C) \<and>
     (\<forall>n m. cf_clusterName (cl_conf C n) = cf_clusterName (cl_conf C m))"

definition lock_inv :: "'e cluster \<Rightarrow> 'e \<times> activation list \<Rightarrow> bool" where
  "lock_inv C p \<longleftrightarrow>
     (\<forall>a \<in> set (snd p). ac_pc a = Holding \<longrightarrow>
        cl_view C (fst p) (ac_key C a) = Some (ac_addr C (ac_node a), cl_lease C (ac_node a))) \<and>
     (\<forall>j m. j < length (snd p) \<longrightarrow> m < length (snd p) \<longrightarrow> ac_pc (snd p ! j) = Holding \<longrightarrow> ac_pc (snd p ! m) = Holding \<longrightarrow>
        ac_key C (snd p ! j) = ac_key C (snd p ! m) \<longrightarrow> j = m)"

lemma lock_invD:
  assumes "lock_inv C (e, as)"
  shows "a \<in> set as \<Longrightarrow> ac_pc a = Holding \<Longrightarrow> cl_view C e (ac_key C a) = Some (ac_addr C (ac_node a), cl_lease C (ac_node a))"
    and "j < length as \<Longrightarrow> m < length as \<Longrightarrow> ac_pc (as ! j) = Holding \<Longrightarrow> ac_pc (as ! m) = Holding \<Longrightarrow>
       ac_key C (as ! j) = ac_key C (as ! m) \<Longrightarrow> j = m"
  using assms by (auto simp: lock_inv_def)

text \<open>A change of the store that no running activation depends on.\<close>

lemma lock_inv_frame:
  assumes "lock_inv C (e, as)" and "\<And>a. a \<in> set as \<Longrightarrow> ac_pc a = Holding \<Longrightarrow> cl_view C e' (ac_key C a) = cl_view C e (ac_key C a)"
  shows "lock_inv C (e', as)"
  using assms by (auto simp: lock_inv_def)

text \<open>An activation that stops running, or never was.\<close>

lemma lock_inv_idle:
  assumes "lock_inv C (e, as)" and j: "j < length as" and "ac_pc a' \<noteq> Holding"
  shows "lock_inv C (e, as[j := a'])"
proof -
  have "ac_pc (as[j := a'] ! m) = Holding \<Longrightarrow> as[j := a'] ! m = as ! m" for m
    using assms(3) j by (cases "m = j") auto
  moreover have "a \<in> set (as[j := a']) \<Longrightarrow> ac_pc a = Holding \<Longrightarrow> a \<in> set as" for a
    using set_update_subset_insert [of as j a'] assms(3) by auto
  ultimately show ?thesis using assms(1) unfolding lock_inv_def fst_conv snd_conv length_list_update by metis
qed

lemma attempt_inv:
  assumes C: "cluster_ok C" and I: "lock_inv C (e, as)" and j: "j < length as" and pc: "ac_pc (as ! j) = Trying i"
    and r: "register_attempt (cl_client C) (cl_lease C (ac_node (as ! j))) (cl_conf C (ac_node (as ! j))) (ac_ref (as ! j)) e = (ok, e')"
  shows "lock_inv C (e', as[j := (as ! j)\<lparr>ac_pc := (if ok then Holding else if Suc i < defaultRegisterTimes then Trying (Suc i) else GaveUp)\<rparr>])"
proof -
  let ?a = "as ! j" and ?V = "cl_view C"
  let ?put = "(?V e)(ac_key C ?a \<mapsto> (ac_addr C (ac_node ?a), cl_lease C (ac_node ?a)))"
  have txn: "setTxn (cl_client C) (cl_lease C (ac_node ?a)) (ac_key C ?a) (ac_addr C (ac_node ?a)) e = (ok, e')"
    using r by (simp add: register_attempt_def ac_key_def ac_addr_def)
  have etcd: "etcd_ok ?V (cl_client C)" using C by (simp add: cluster_ok_def)
  have free: "ac_key C a \<noteq> ac_key C ?a" if "?V e (ac_key C ?a) = None" "a \<in> set as" "ac_pc a = Holding" for a
    using lock_invD(1) [OF I that(2,3)] that(1) by auto
  show ?thesis
  proof (cases ok)
    case False
    then have f: "setTxn (cl_client C) (cl_lease C (ac_node ?a)) (ac_key C ?a) (ac_addr C (ac_node ?a)) e = (False, e')"
      using txn by simp
    have "?V e' = ?V e \<or> (?V e (ac_key C ?a) = None \<and> ?V e' = ?put)" by (rule setTxn_False [OF etcd f])
    then have "lock_inv C (e', as)" by (intro lock_inv_frame [OF I]) (auto dest: free)
    then show ?thesis using False by (auto intro!: lock_inv_idle [OF _ j])
  next
    case True
    then have t: "setTxn (cl_client C) (cl_lease C (ac_node ?a)) (ac_key C ?a) (ac_addr C (ac_node ?a)) e = (True, e')"
      using txn by simp
    note none = setTxn_True(1) [OF etcd t] and put = setTxn_True(2) [OF etcd t]
    let ?as = "as[j := ?a\<lparr>ac_pc := Holding\<rparr>]"
    have key: "ac_key C (?a\<lparr>ac_pc := Holding\<rparr>) = ac_key C ?a" by (simp add: ac_key_def)
    have own: "?V e' (ac_key C a) = Some (ac_addr C (ac_node a), cl_lease C (ac_node a))"
      if "a \<in> set ?as" "ac_pc a = Holding" for a
    proof -
      have "a = ?a\<lparr>ac_pc := Holding\<rparr> \<or> a \<in> set as" using that(1) set_update_subset_insert by fastforce
      then show ?thesis using put key lock_invD(1) [OF I _ that(2)] free [OF none _ that(2)] by auto
    qed
    have "k = m" if "k < length as" "m < length as" "ac_pc (?as ! k) = Holding" "ac_pc (?as ! m) = Holding" "ac_key C (?as ! k) = ac_key C (?as ! m)" for k m
    proof -
      have old: "ac_key C (as ! x) \<noteq> ac_key C ?a" if "x < length as" "x \<noteq> j" "ac_pc (?as ! x) = Holding" for x
        using free [OF none nth_mem [OF that(1)]] that by simp
      show ?thesis
        using that old [of k] old [of m] lock_invD(2) [OF I, of k m] key by (cases "k = j"; cases "m = j") auto
    qed
    then show ?thesis using True own by (simp add: lock_inv_def)
  qed
qed

lemma release_view:
  assumes "cluster_ok C" and "defaultUnregisterFromCluster (cl_client C) (cl_conf C n) r e = (ok, e')"
  defines "key \<equiv> getActorRegisterName (cl_conf C n) r"
  shows "cl_view C e' = cl_view C e \<or> e' = e \<or>
    ((\<exists>l. cl_view C e key = Some (ac_addr C n, l)) \<and> cl_view C e' = (cl_view C e)(key := None))"
proof (cases "GetKind r \<in> set (ns_Kinds (cf_state (cl_conf C n)))")
  case True
  then have r: "removeTxn (cl_client C) key (ac_addr C n) e = (ok, e')"
    using assms by (simp add: defaultUnregisterFromCluster_def ac_addr_def)
  have "etcd_ok (cl_view C) (cl_client C)" using assms(1) by (simp add: cluster_ok_def)
  from removeTxn_spec(1) [OF this r] show ?thesis by blast
qed (use assms in \<open>simp add: defaultUnregisterFromCluster_def\<close>)

lemma release_inv:
  assumes C: "cluster_ok C" and I: "lock_inv C (e, as)" and j: "j < length as" and pc: "ac_pc (as ! j) = Holding"
    and r: "defaultUnregisterFromCluster (cl_client C) (cl_conf C (ac_node (as ! j))) (ac_ref (as ! j)) e = (ok, e')"
  shows "lock_inv C (e', as[j := (as ! j)\<lparr>ac_pc := Released\<rparr>])"
proof (rule lock_inv_frame [OF lock_inv_idle [OF I j]])
  fix a assume a: "a \<in> set (as[j := (as ! j)\<lparr>ac_pc := Released\<rparr>])" "ac_pc a = Holding"
  then obtain m where i: "m < length as" "a = as[j := (as ! j)\<lparr>ac_pc := Released\<rparr>] ! m" by (auto simp: in_set_conv_nth)
  then have m: "m < length as" "m \<noteq> j" "a = as ! m" using a(2) j by (auto simp: nth_list_update split: if_splits)
  then have "ac_key C a \<noteq> ac_key C (as ! j)" using lock_invD(2) [OF I m(1) j _ pc] a(2) by blast
  then show "cl_view C e' (ac_key C a) = cl_view C e (ac_key C a)"
    using release_view [OF C r] by (auto simp: ac_key_def)
qed simp

lemma stray_inv:
  assumes C: "cluster_ok C" and I: "lock_inv C (e, as)"
    and no: "\<forall>a \<in> set as. ac_node a = n \<longrightarrow> ac_pc a = Holding \<longrightarrow> GetId (ac_ref a) \<noteq> GetId r"
    and r: "defaultUnregisterFromCluster (cl_client C) (cl_conf C n) r e = (ok, e')"
  shows "lock_inv C (e', as)"
proof (rule lock_inv_frame [OF I])
  fix a assume a: "a \<in> set as" "ac_pc a = Holding"
  have "ac_node a = n" if "cl_view C e (ac_key C a) = Some (ac_addr C n, l)" for l
    using lock_invD(1) [OF I a] that C unfolding cluster_ok_def by (auto dest: injD)
  moreover have "GetId (ac_ref a) = GetId r" if "ac_key C a = getActorRegisterName (cl_conf C n) r"
  proof -
    have "cf_clusterName (cl_conf C (ac_node a)) = cf_clusterName (cl_conf C n)" using C unfolding cluster_ok_def by blast
    then show ?thesis using that by (simp add: ac_key_def getActorRegisterName_def)
  qed
  ultimately show "cl_view C e' (ac_key C a) = cl_view C e (ac_key C a)"
    using release_view [OF C r] no a by auto
qed

lemma lease_end_inv:
  assumes C: "cluster_ok C" and I: "lock_inv C (e, as)" and no: "\<forall>a \<in> set as. ac_node a = n \<longrightarrow> ac_pc a \<noteq> Holding"
    and v: "cl_view C e' = drop_lease (cl_lease C n) (cl_view C e)"
  shows "lock_inv C (e', as)"
proof (rule lock_inv_frame [OF I])
  fix a assume a: "a \<in> set as" "ac_pc a = Holding"
  then have "cl_lease C (ac_node a) \<noteq> cl_lease C n" using no C unfolding cluster_ok_def by (auto dest: injD)
  then show "cl_view C e' (ac_key C a) = cl_view C e (ac_key C a)"
    using lock_invD(1) [OF I a] by (simp add: v drop_lease_def)
qed

lemma lock_invI:
  assumes "\<And>a. a \<in> set as \<Longrightarrow> ac_pc a = Holding \<Longrightarrow> cl_view C e (ac_key C a) = Some (ac_addr C (ac_node a), cl_lease C (ac_node a))"
    and "\<And>j m. j < length as \<Longrightarrow> m < length as \<Longrightarrow> ac_pc (as ! j) = Holding \<Longrightarrow> ac_pc (as ! m) = Holding \<Longrightarrow>
       ac_key C (as ! j) = ac_key C (as ! m) \<Longrightarrow> j = m"
  shows "lock_inv C (e, as)"
  using assms by (simp add: lock_inv_def)

lemma crash_inv:
  assumes "lock_inv C (e, as)"
  shows "lock_inv C (e, map (\<lambda>a. if ac_node a = n then a\<lparr>ac_pc := Released\<rparr> else a) as)"
proof (rule lock_invI)
  let ?g = "\<lambda>a. if ac_node a = n then a\<lparr>ac_pc := Released\<rparr> else a"
  have g: "ac_pc (?g a) = Holding \<Longrightarrow> ?g a = a" for a by (simp split: if_splits)
  fix a assume "a \<in> set (map ?g as)" "ac_pc a = Holding"
  then have "a \<in> set as" "ac_pc a = Holding" using g by auto
  then show "cl_view C e (ac_key C a) = Some (ac_addr C (ac_node a), cl_lease C (ac_node a))"
    by (rule lock_invD(1) [OF assms])
next
  let ?g = "\<lambda>a. if ac_node a = n then a\<lparr>ac_pc := Released\<rparr> else a"
  fix j m assume "j < length (map ?g as)" "m < length (map ?g as)" "ac_pc (map ?g as ! j) = Holding"
    "ac_pc (map ?g as ! m) = Holding" "ac_key C (map ?g as ! j) = ac_key C (map ?g as ! m)"
  then show "j = m" using lock_invD(2) [OF assms, of j m] by (simp split: if_splits)
qed

lemma arrive_inv:
  assumes "lock_inv C (e, as)" and "ac_pc a' \<noteq> Holding"
  shows "lock_inv C (e, as @ [a'])"
proof (rule lock_invI)
  fix a assume "a \<in> set (as @ [a'])" "ac_pc a = Holding"
  then show "cl_view C e (ac_key C a) = Some (ac_addr C (ac_node a), cl_lease C (ac_node a))"
    using lock_invD(1) [OF assms(1), of a] assms(2) by auto
next
  fix j m assume h: "j < length (as @ [a'])" "m < length (as @ [a'])" "ac_pc ((as @ [a']) ! j) = Holding"
    "ac_pc ((as @ [a']) ! m) = Holding" "ac_key C ((as @ [a']) ! j) = ac_key C ((as @ [a']) ! m)"
  then have "j < length as" "m < length as" using assms(2) by (auto simp: nth_append less_Suc_eq)
  then show "j = m" using lock_invD(2) [OF assms(1), of j m] h by (simp add: nth_append)
qed

lemma lreach_inv:
  assumes "cluster_ok C" and "lreach C p"
  shows "lock_inv C p"
  using assms(2)
proof (induction rule: lreach.induct)
  case (init e)
  then show ?case by (simp add: lock_inv_def)
next
  case (step p p')
  from step(2) show ?case
  proof cases
    case (arrive n r e as)
    then show ?thesis using arrive_inv step.IH by fastforce
  next
    case (attempt j as i e ok e')
    then have I: "lock_inv C (e, as)" using step.IH by simp
    show ?thesis unfolding attempt(2) by (rule attempt_inv [OF assms(1) I attempt(3-5)])
  next
    case (release j as e ok e')
    then have I: "lock_inv C (e, as)" using step.IH by simp
    show ?thesis unfolding release(2) by (rule release_inv [OF assms(1) I release(3-5)])
  next
    case (stray as n r e ok e')
    then have I: "lock_inv C (e, as)" using step.IH by simp
    show ?thesis unfolding stray(2) by (rule stray_inv [OF assms(1) I stray(3-4)])
  next
    case (crash e as n)
    then show ?thesis using crash_inv step.IH by simp
  next
    case (lease_end as n e' e)
    then have I: "lock_inv C (e, as)" using step.IH by simp
    show ?thesis unfolding lease_end(2) by (rule lease_end_inv [OF assms(1) I lease_end(3-4)])
  qed
qed

lemma register_attempts_lost:
  assumes "cluster_ok C" and "cl_view C e (getActorRegisterName (cl_conf C n) r) \<noteq> None"
  shows "\<not> fst (register_attempts (cl_client C) l (cl_conf C n) r (\<lambda>_ e. e) i left e)"
  using assms(2)
proof (induction left arbitrary: i e)
  case (Suc left)
  have etcd: "etcd_ok (cl_view C) (cl_client C)" using assms(1) by (simp add: cluster_ok_def)
  let ?set = "setTxn (cl_client C) l (getActorRegisterName (cl_conf C n) r) (ns_Address (cf_state (cl_conf C n))) e"
  obtain e2 where t: "?set = (False, e2)"
    using setTxn_True(1) [OF etcd] Suc.prems by (cases ?set; cases "fst ?set") fastforce+
  then have "cl_view C e2 = cl_view C e" using setTxn_False [OF etcd t] Suc.prems by fastforce
  then show ?case using t Suc by (simp add: register_attempt_def)
qed simp

text \<open>
  C1. A cluster actor is active on at most one node. In a cluster whose etcd honours transactions and
  whose nodes differ in address and lease, in every reachable state of activations that try, hold, release
  and crash and of leases that end without a running activation: two activations that hold the lock of one
  actor are the same activation; the key of a running activation holds its node's address under its node's
  lease; and registering an actor someone holds fails on every attempt.
\<close>

theorem single_activation:
  assumes "cluster_ok C" and "lreach C (e, as)"
  shows "(\<forall>j m. j < length as \<and> m < length as \<and> ac_pc (as ! j) = Holding \<and> ac_pc (as ! m) = Holding \<and>
        GetId (ac_ref (as ! j)) = GetId (ac_ref (as ! m)) \<longrightarrow> j = m) \<and>
    (\<forall>a \<in> set as. ac_pc a = Holding \<longrightarrow>
        cl_view C e (getActorRegisterName (cl_conf C (ac_node a)) (ac_ref a))
          = Some (ns_Address (cf_state (cl_conf C (ac_node a))), cl_lease C (ac_node a))) \<and>
    (\<forall>a n r. a \<in> set as \<and> ac_pc a = Holding \<and> GetId r = GetId (ac_ref a) \<and> hosts C n r \<longrightarrow>
        \<not> fst (defaultRegisterToCluster (cl_client C) (cl_lease C n) (cl_conf C n) r (\<lambda>_ e. e) e))"
proof -
  have I: "lock_inv C (e, as)" by (rule lreach_inv [OF assms])
  have cn: "cf_clusterName (cl_conf C n) = cf_clusterName (cl_conf C m)" for n m using assms(1) unfolding cluster_ok_def by blast
  have key: "ac_key C a = ac_key C b" if "GetId (ac_ref a) = GetId (ac_ref b)" for a b
    using that cn [of "ac_node a" "ac_node b"] by (simp add: ac_key_def getActorRegisterName_def)
  have fails: "\<not> fst (defaultRegisterToCluster (cl_client C) (cl_lease C n) (cl_conf C n) r (\<lambda>_ e. e) e)"
    if h: "a \<in> set as" "ac_pc a = Holding" "GetId r = GetId (ac_ref a)" "hosts C n r" for a n r
  proof -
    have "getActorRegisterName (cl_conf C n) r = ac_key C a"
      using h(3) cn [of n "ac_node a"] by (simp add: ac_key_def getActorRegisterName_def)
    then show ?thesis using register_attempts_lost [OF assms(1), of e n r] lock_invD(1) [OF I h(1,2)] h(4)
      by (simp add: defaultRegisterToCluster_def hosts_def)
  qed
  have uniq: "j = m" if "j < length as" "m < length as" "ac_pc (as ! j) = Holding" "ac_pc (as ! m) = Holding"
      "GetId (ac_ref (as ! j)) = GetId (ac_ref (as ! m))" for j m
    using lock_invD(2) [OF I that(1-4) key [OF that(5)]] .
  have held: "cl_view C e (getActorRegisterName (cl_conf C (ac_node a)) (ac_ref a))
      = Some (ns_Address (cf_state (cl_conf C (ac_node a))), cl_lease C (ac_node a))" if "a \<in> set as" "ac_pc a = Holding" for a
    using lock_invD(1) [OF I that] by (simp add: ac_key_def ac_addr_def)
  show ?thesis using uniq held fails by blast
qed

definition two_nodes :: "kv_view cluster" where
  "two_nodes = \<lparr>cl_client = store_client, cl_view = id,
     cl_conf = (\<lambda>n. (default_config ''c'' ''v'' [])\<lparr>cf_state :=
        \<lparr>ns_NodeId = 0, ns_Address = format_nat n, ns_Version = [], ns_Time = [], ns_Kinds = [''player'']\<rparr>\<rparr>),
     cl_lease = int\<rparr>"

theorem single_activation_witness:
  "\<exists>e. lreach two_nodes (e, [\<lparr>ac_node = 1, ac_ref = newClusterActorRef ''player'' ''p1'' 0 0, ac_pc = Holding\<rparr>]) \<and>
     \<not> fst (defaultRegisterToCluster store_client 2 (cl_conf two_nodes 2) (newClusterActorRef ''player'' ''p1'' 1 1) (\<lambda>_ e. e) e)"
proof -
  let ?r = "newClusterActorRef ''player'' ''p1'' 0 0"
  have ok: "cluster_ok two_nodes"
    using store_client_ok by (auto simp: cluster_ok_def two_nodes_def inj_def ac_addr_def)
  have kind: "GetKind (newClusterActorRef ''player'' ''p1'' s p) = ''player''" for s p
    using cluster_ref_parts(1) [of "''player''" "''p1''"] by simp
  have h: "hosts two_nodes n (newClusterActorRef ''player'' ''p1'' s p)" for n s p by (simp add: hosts_def two_nodes_def kind)
  have "lreach two_nodes (Map.empty, [\<lparr>ac_node = 1, ac_ref = ?r, ac_pc = Trying 0\<rparr>])"
    using lreach.step [OF lreach.init lstep.arrive [OF h]] by fastforce
  moreover have "register_attempt (cl_client two_nodes) (cl_lease two_nodes 1) (cl_conf two_nodes 1) ?r Map.empty
      = (True, [getActorRegisterName (cl_conf two_nodes 1) ?r \<mapsto> (format_nat 1, 1)])"
    by (simp add: register_attempt_def setTxn_def two_nodes_def store_client_def)
  ultimately have l: "lreach two_nodes ([getActorRegisterName (cl_conf two_nodes 1) ?r \<mapsto> (format_nat 1, 1)],
      [\<lparr>ac_node = 1, ac_ref = ?r, ac_pc = Holding\<rparr>])"
    using lreach.step [OF _ lstep.attempt [where j = 0 and C = two_nodes]] by fastforce
  have g: "GetId (newClusterActorRef ''player'' ''p1'' 1 1) = GetId ?r" by (simp add: newClusterActorRef_def Let_def)
  have "\<not> fst (defaultRegisterToCluster (cl_client two_nodes) (cl_lease two_nodes 2) (cl_conf two_nodes 2)
      (newClusterActorRef ''player'' ''p1'' 1 1) (\<lambda>_ e. e) [getActorRegisterName (cl_conf two_nodes 1) ?r \<mapsto> (format_nat 1, 1)])"
    using single_activation [OF ok l, THEN conjunct2, THEN conjunct2] g h [of 2 1 1] by simp
  moreover have "cl_client two_nodes = store_client" "cl_lease two_nodes 2 = 2" by (simp_all add: two_nodes_def)
  ultimately show ?thesis using l by (intro exI conjI) simp_all
qed

text \<open>
  An answer that gets lost. When etcd applied the first attempt but the client only saw an error, the
  later attempts find the key and the activation gives up, while the key stays, in this node's own name,
  for as long as the node lives: nobody can activate the actor.
\<close>

definition lossy_client :: "kv_view etcd_client" where
  "lossy_client = store_client\<lparr>ec_Txn := (\<lambda>cmp opn e. let (r, e') = ec_Txn store_client cmp opn e
     in (if r = Some True then None else r, e'))\<rparr>"

lemma lost_answer_blocks_actor:
  assumes "GetKind r \<in> set (ns_Kinds (cf_state conf))"
  shows "etcd_ok id lossy_client \<and>
    (\<exists>e'. defaultRegisterToCluster lossy_client 7 conf r (\<lambda>_ e. e) Map.empty = (False, e') \<and>
       e' (getActorRegisterName conf r) = Some (ns_Address (cf_state conf), 7))"
proof
  show "etcd_ok id lossy_client"
    by (auto simp: etcd_ok_def lossy_client_def store_client_def Let_def split: etcd_cmp.splits option.splits if_splits)
  show "\<exists>e'. defaultRegisterToCluster lossy_client 7 conf r (\<lambda>_ e. e) Map.empty = (False, e') \<and>
       e' (getActorRegisterName conf r) = Some (ns_Address (cf_state conf), 7)"
    using assms by (simp add: defaultRegisterToCluster_def defaultRegisterTimes_def numeral_eq_Suc register_attempt_def setTxn_def
        lossy_client_def store_client_def)
qed

end
