(* ===== verification/Routing.thy ===== *)
theory Routing
  imports Provider_Etcd
begin

section \<open>Routing with cached generations: routing_resolver.go\<close>

text \<open>
  A send resolves its target to an address and, for another node, to the stream actor that carries it there.
  The resolver keeps the latest generation (a membership snapshot with its streams), and every reference
  caches its last route with the version it was computed from. Senders race with each other and with the
  provider, so a call of \<open>resolve\<close> is a sequence of steps: reading the version, loading the generation,
  refreshing it (under its mutex), looking into the reference's cache, and computing the route on a miss
  (under the cache's mutex). Meanwhile the provider applies member changes and publishes snapshots, and other
  systems may overwrite the cache of a shared reference. \<open>rt_hist\<close> records the published snapshots, and
  \<open>rv_since\<close> the version that was published when a call began.
\<close>

type_synonym resolved_route = "string \<times> actor_ref option"

record generation =
  gn_version :: int
  gn_nodes :: "tNodeState list"
  gn_streams :: "string \<rightharpoonup> actor_ref"

record cached_route =
  cr_resolver :: nat
  cr_version :: int
  cr_route :: resolved_route

record routing =
  rt_self :: nat
  rt_addr :: string
  rt_provider :: provider
  rt_gens :: "generation list"
  rt_current :: "nat option"
  rt_cache :: "actor_id_wrapper \<Rightarrow> cached_route option"
  rt_nextPtr :: nat
  rt_hist :: "(int \<times> tNodeState list) set"

datatype resolve_pc = VStart | VLoad int | VRefresh int | VCheck nat | VMiss nat | VDone resolved_route

record resolver_call =
  rv_target :: actor_ref
  rv_pc :: resolve_pc
  rv_since :: int

definition published_version :: "routing \<Rightarrow> int" where
  "published_version r = snd (GetNodes (rt_provider r))"

definition current_generation :: "routing \<Rightarrow> generation option" where
  "current_generation r = map_option (\<lambda>g. rt_gens r ! g) (rt_current r)"

text \<open>\<open>currentGeneration\<close>: the two parts of the double-checked refresh. They return the generation in use.\<close>

definition load_generation :: "int \<Rightarrow> routing \<Rightarrow> nat option" where
  "load_generation version r = (case rt_current r of
      Some g \<Rightarrow> if gn_version (rt_gens r ! g) \<ge> version then Some g else None
    | None \<Rightarrow> None)"

definition refresh_generation :: "int \<Rightarrow> routing \<Rightarrow> nat \<times> routing" where
  "refresh_generation version r = (case load_generation version r of
      Some g \<Rightarrow> (g, r)
    | None \<Rightarrow>
       let (nodes, snapshotVersion) = GetNodes (rt_provider r) in
       (case load_generation snapshotVersion r of
          Some g \<Rightarrow> (g, r)
        | None \<Rightarrow> (length (rt_gens r),
            r\<lparr>rt_gens := rt_gens r @ [\<lparr>gn_version = snapshotVersion, gn_nodes = nodes, gn_streams = Map.empty\<rparr>],
              rt_current := Some (length (rt_gens r))\<rparr>)))"

definition streamRef :: "nat \<Rightarrow> string \<Rightarrow> routing \<Rightarrow> actor_ref \<times> routing" where
  "streamRef g address r = (case gn_streams (rt_gens r ! g) address of
      Some ref \<Rightarrow> (ref, r)
    | None \<Rightarrow>
       let ref = newDirectActorRef defaultWriteStreamKind address (rt_addr r) (rt_self r) (rt_nextPtr r);
           gen = rt_gens r ! g
       in (ref, r\<lparr>rt_gens := (rt_gens r)[g := gen\<lparr>gn_streams := (gn_streams gen)(address \<mapsto> ref)\<rparr>],
                  rt_nextPtr := Suc (rt_nextPtr r)\<rparr>))"

fun routeCache :: "actor_ref \<Rightarrow> actor_id_wrapper option" where
  "routeCache (ActorIdRef w) = Some w"
| "routeCache (ReplyRef r) = None"

definition cache_hit :: "routing \<Rightarrow> nat \<Rightarrow> actor_ref \<Rightarrow> resolved_route option" where
  "cache_hit r g target = (case routeCache target of None \<Rightarrow> None | Some w \<Rightarrow>
     (case rt_cache r w of None \<Rightarrow> None | Some entry \<Rightarrow>
        if cr_resolver entry = rt_self r \<and> cr_version entry = gn_version (rt_gens r ! g) then Some (cr_route entry) else None))"

definition store_route :: "nat \<Rightarrow> actor_ref \<Rightarrow> resolved_route \<Rightarrow> routing \<Rightarrow> routing" where
  "store_route g target route r = (case routeCache target of None \<Rightarrow> r | Some w \<Rightarrow>
     let fresh = \<lparr>cr_resolver = rt_self r, cr_version = gn_version (rt_gens r ! g), cr_route = route\<rparr> in
     if (case rt_cache r w of None \<Rightarrow> True | Some entry \<Rightarrow>
           cr_resolver entry \<noteq> rt_self r \<or> cr_version entry \<le> gn_version (rt_gens r ! g))
     then r\<lparr>rt_cache := (rt_cache r)(w \<mapsto> fresh)\<rparr> else r)"

definition resolveMiss :: "nat \<Rightarrow> actor_ref \<Rightarrow> routing \<Rightarrow> resolved_route \<times> routing" where
  "resolveMiss g target r = (case cache_hit r g target of Some route \<Rightarrow> (route, r) | None \<Rightarrow>
     if \<not> isDirect target \<and> \<not> isCluster target then (([], None), r)
     else
       let address = (if isDirect target then GetDirectAddr target
                      else CalcAddrByKind8Name (gn_nodes (rt_gens r ! g)) (GetKind target) (GetName target));
           (stream, r) = (if (isDirect target \<or> address \<noteq> []) \<and> address \<noteq> rt_addr r
                          then let (ref, r) = streamRef g address r in (Some ref, r) else (None, r));
           route = (address, stream)
       in (route, store_route g target route r))"

definition resolve_step :: "routing \<Rightarrow> resolver_call \<Rightarrow> routing \<times> resolver_call" where
  "resolve_step r c = (case rv_pc c of
      VStart \<Rightarrow> if isDirect (rv_target c) \<and> GetDirectAddr (rv_target c) = rt_addr r
                then (r, c\<lparr>rv_pc := VDone (GetDirectAddr (rv_target c), None), rv_since := published_version r\<rparr>)
                else (r, c\<lparr>rv_pc := VLoad (GetNodesVersion (rt_provider r)), rv_since := published_version r\<rparr>)
    | VLoad v \<Rightarrow> (r, c\<lparr>rv_pc := (case load_generation v r of Some g \<Rightarrow> VCheck g | None \<Rightarrow> VRefresh v)\<rparr>)
    | VRefresh v \<Rightarrow> (let (g, r') = refresh_generation v r in (r', c\<lparr>rv_pc := VCheck g\<rparr>))
    | VCheck g \<Rightarrow> (r, c\<lparr>rv_pc := (case cache_hit r g (rv_target c) of Some route \<Rightarrow> VDone route | None \<Rightarrow> VMiss g)\<rparr>)
    | VMiss g \<Rightarrow> (let (route, r') = resolveMiss g (rv_target c) r in (r', c\<lparr>rv_pc := VDone route\<rparr>))
    | VDone route \<Rightarrow> (r, c))"

text \<open>A call that nobody interferes with, in one go.\<close>

definition currentGeneration :: "routing \<Rightarrow> nat \<times> routing" where
  "currentGeneration r = (let version = GetNodesVersion (rt_provider r) in
     case load_generation version r of Some g \<Rightarrow> (g, r) | None \<Rightarrow> refresh_generation version r)"

definition resolve :: "actor_ref \<Rightarrow> routing \<Rightarrow> resolved_route \<times> routing" where
  "resolve target r = (if isDirect target \<and> GetDirectAddr target = rt_addr r then ((GetDirectAddr target, None), r)
     else let (g, r) = currentGeneration r in
       case cache_hit r g target of Some route \<Rightarrow> (route, r) | None \<Rightarrow> resolveMiss g target r)"

inductive rstep :: "routing \<times> resolver_call list \<Rightarrow> routing \<times> resolver_call list \<Rightarrow> bool" where
  call: "rstep (r, cs) (r, cs @ [\<lparr>rv_target = t, rv_pc = VStart, rv_since = published_version r\<rparr>])"
| run: "j < length cs \<Longrightarrow> resolve_step r (cs ! j) = (r', c') \<Longrightarrow> rstep (r, cs) (r', cs[j := c'])"
| member: "pv_version (rt_provider r) < 2 ^ 63 - 1 \<Longrightarrow>
    rstep (r, cs) (r\<lparr>rt_provider := applyMemberLocked um opn key val (rt_provider r)\<rparr>, cs)"
| publish: "p = publishNodesLocked (rt_provider r) \<Longrightarrow>
    rstep (r, cs) (r\<lparr>rt_provider := p, rt_hist := insert (pv_version p, map snd (pv_nodeMap p)) (rt_hist r)\<rparr>, cs)"
| foreign: "cr_resolver entry \<noteq> rt_self r \<Longrightarrow> rstep (r, cs) (r\<lparr>rt_cache := (rt_cache r)(w \<mapsto> entry)\<rparr>, cs)"

definition new_routing :: "nat \<Rightarrow> string \<Rightarrow> config \<Rightarrow> routing" where
  "new_routing self addr conf = \<lparr>rt_self = self, rt_addr = addr,
     rt_provider = publishNodesLocked ((fresh_provider conf)\<lparr>pv_version := 1\<rparr>), rt_gens = [], rt_current = None,
     rt_cache = (\<lambda>_. None), rt_nextPtr = 0, rt_hist = {(1, [])}\<rparr>"

inductive rreach :: "routing \<times> resolver_call list \<Rightarrow> bool" where
  init: "rreach (new_routing self addr conf, [])"
| step: "rreach p \<Longrightarrow> rstep p p' \<Longrightarrow> rreach p'"

subsection \<open>What a route should be\<close>

definition owner_address :: "tNodeState list \<Rightarrow> actor_ref \<Rightarrow> string" where
  "owner_address nodes t = (if isDirect t then GetDirectAddr t
     else if isCluster t then CalcAddrByKind8Name nodes (GetKind t) (GetName t) else [])"

definition stream_id :: "string \<Rightarrow> string \<Rightarrow> string" where
  "stream_id self address = defaultActDirect @ ''/'' @ defaultWriteStreamKind @ ''/'' @ address @ ''@'' @ self"

definition is_stream :: "string \<Rightarrow> string \<Rightarrow> actor_ref \<Rightarrow> bool" where
  "is_stream self address ref \<longleftrightarrow> (\<exists>sys ptr. ref = newDirectActorRef defaultWriteStreamKind address self sys ptr)"

definition route_ok :: "string \<Rightarrow> tNodeState list \<Rightarrow> actor_ref \<Rightarrow> resolved_route \<Rightarrow> bool" where
  "route_ok self nodes t route \<longleftrightarrow> fst route = owner_address nodes t \<and>
     (snd route = None \<longleftrightarrow> fst route = self \<or> (\<not> isDirect t \<and> fst route = [])) \<and>
     (\<forall>s. snd route = Some s \<longrightarrow> is_stream self (fst route) s)"

lemma is_stream_new: "is_stream self address (newDirectActorRef defaultWriteStreamKind address self sys ptr)"
  by (auto simp: is_stream_def)

lemma is_stream_id: "is_stream self address ref \<Longrightarrow> GetId ref = stream_id self address"
  by (auto simp: is_stream_def newDirectActorRef_def stream_id_def Let_def)

subsection \<open>Invariant\<close>

fun call_ok :: "routing \<Rightarrow> actor_ref \<Rightarrow> int \<Rightarrow> resolve_pc \<Rightarrow> bool" where
  "call_ok r t since VStart = True"
| "call_ok r t since (VLoad v) = (since \<le> v)"
| "call_ok r t since (VRefresh v) = (since \<le> v)"
| "call_ok r t since (VCheck g) = (g < length (rt_gens r) \<and> since \<le> gn_version (rt_gens r ! g))"
| "call_ok r t since (VMiss g) = (g < length (rt_gens r) \<and> since \<le> gn_version (rt_gens r ! g))"
| "call_ok r t since (VDone route) = (\<exists>v ns. (v, ns) \<in> rt_hist r \<and> since \<le> v \<and> route_ok (rt_addr r) ns t route)"

definition inv_gens :: "routing \<Rightarrow> bool" where
  "inv_gens r \<longleftrightarrow> (\<forall>g < length (rt_gens r). (gn_version (rt_gens r ! g), gn_nodes (rt_gens r ! g)) \<in> rt_hist r \<and>
       (\<forall>a s. gn_streams (rt_gens r ! g) a = Some s \<longrightarrow> is_stream (rt_addr r) a s)) \<and>
     (\<forall>g. rt_current r = Some g \<longrightarrow> g < length (rt_gens r))"

definition inv_published :: "routing \<Rightarrow> bool" where
  "inv_published r \<longleftrightarrow> (\<exists>v ns. pv_nodes (rt_provider r) = Some (v, ns) \<and> (v, ns) \<in> rt_hist r \<and> 0 \<le> v \<and> v \<le> pv_version (rt_provider r)) \<and>
     0 \<le> pv_version (rt_provider r) \<and> pv_version (rt_provider r) < 2 ^ 63"

definition inv_cache :: "routing \<Rightarrow> bool" where
  "inv_cache r \<longleftrightarrow> (\<forall>w e. rt_cache r w = Some e \<longrightarrow> cr_resolver e = rt_self r \<longrightarrow>
     (\<exists>ns. (cr_version e, ns) \<in> rt_hist r \<and> route_ok (rt_addr r) ns (ActorIdRef w) (cr_route e)))"

definition inv_calls :: "routing \<Rightarrow> resolver_call list \<Rightarrow> bool" where
  "inv_calls r cs \<longleftrightarrow> (\<forall>c \<in> set cs. rv_since c \<le> published_version r \<and> call_ok r (rv_target c) (rv_since c) (rv_pc c))"

text \<open>Generations and history only grow, and published versions do not go back.\<close>

definition rt_le :: "routing \<Rightarrow> routing \<Rightarrow> bool" where
  "rt_le r r' \<longleftrightarrow> rt_self r' = rt_self r \<and> rt_addr r' = rt_addr r \<and> rt_hist r \<subseteq> rt_hist r' \<and>
     length (rt_gens r) \<le> length (rt_gens r') \<and>
     (\<forall>g < length (rt_gens r). gn_version (rt_gens r' ! g) = gn_version (rt_gens r ! g)) \<and>
     published_version r \<le> published_version r'"

lemma call_ok_mono: "rt_le r r' \<Longrightarrow> call_ok r t since pc \<Longrightarrow> call_ok r' t since pc"
  by (cases pc) (auto simp: rt_le_def)

lemma inv_calls_mono:
  assumes le: "rt_le r r'" and I: "inv_calls r cs"
  shows "inv_calls r' cs"
  unfolding inv_calls_def
proof
  fix c assume c: "c \<in> set cs"
  have "published_version r \<le> published_version r'" using le by (simp add: rt_le_def)
  then have "rv_since c \<le> published_version r'" using I c by (auto simp: inv_calls_def)
  moreover have "call_ok r' (rv_target c) (rv_since c) (rv_pc c)"
    using I c by (intro call_ok_mono [OF le]) (simp add: inv_calls_def)
  ultimately show "rv_since c \<le> published_version r' \<and> call_ok r' (rv_target c) (rv_since c) (rv_pc c)" by blast
qed

lemma inv_calls_update:
  assumes "rt_le r r'" "inv_calls r cs" and "rv_since c' \<le> published_version r'" "call_ok r' (rv_target c') (rv_since c') (rv_pc c')"
  shows "inv_calls r' (cs[j := c'])"
  using inv_calls_mono [OF assms(1,2)] assms(3,4) set_update_subset_insert [of cs j c'] by (auto simp: inv_calls_def)

lemma load_generation_Some: "load_generation v r = Some g \<Longrightarrow> rt_current r = Some g \<and> v \<le> gn_version (rt_gens r ! g)"
  by (auto simp: load_generation_def split: option.splits if_splits)

lemma published_in_hist:
  assumes "inv_published r"
  shows "\<exists>ns. GetNodes (rt_provider r) = (ns, published_version r) \<and> (published_version r, ns) \<in> rt_hist r \<and>
    published_version r \<le> GetNodesVersion (rt_provider r)"
  using assms by (auto simp: inv_published_def published_version_def GetNodes_def GetNodesVersion_def)

lemma refresh_ok:
  assumes G: "inv_gens r" and P: "inv_published r" and f: "refresh_generation v r = (g, r')" and since: "s \<le> v" "s \<le> published_version r"
  shows "inv_gens r' \<and> rt_le r r' \<and> rt_cache r' = rt_cache r \<and> rt_provider r' = rt_provider r \<and> rt_hist r' = rt_hist r \<and>
    g < length (rt_gens r') \<and> s \<le> gn_version (rt_gens r' ! g)"
proof -
  obtain ns where ns: "GetNodes (rt_provider r) = (ns, published_version r)" "(published_version r, ns) \<in> rt_hist r"
    using published_in_hist [OF P] by blast
  show ?thesis
  proof (cases "load_generation v r")
    case (Some g0)
    then show ?thesis using f load_generation_Some [OF Some] G since(1)
      by (auto simp: refresh_generation_def rt_le_def inv_gens_def)
  next
    case n1: None
    show ?thesis
    proof (cases "load_generation (published_version r) r")
      case (Some g0)
      then show ?thesis using f n1 ns load_generation_Some [OF Some] G since(2)
        by (auto simp: refresh_generation_def rt_le_def inv_gens_def)
    next
      case None
      let ?gen = "\<lparr>gn_version = published_version r, gn_nodes = ns, gn_streams = Map.empty\<rparr>"
      have e: "g = length (rt_gens r)" "r' = r\<lparr>rt_gens := rt_gens r @ [?gen], rt_current := Some (length (rt_gens r))\<rparr>"
        using f n1 None ns by (auto simp: refresh_generation_def)
      have "published_version r' = published_version r" by (simp add: e published_version_def)
      then show ?thesis using G ns(2) since(2) by (auto simp: e inv_gens_def rt_le_def nth_append less_Suc_eq)
    qed
  qed
qed

lemma streamRef_ok:
  assumes G: "inv_gens r" and g: "g < length (rt_gens r)" and s: "streamRef g a r = (ref, r')"
  shows "inv_gens r' \<and> rt_le r r' \<and> rt_cache r' = rt_cache r \<and> rt_provider r' = rt_provider r \<and> rt_hist r' = rt_hist r \<and>
    is_stream (rt_addr r) a ref \<and> gn_nodes (rt_gens r' ! g) = gn_nodes (rt_gens r ! g) \<and>
    length (rt_gens r') = length (rt_gens r)"
proof (cases "gn_streams (rt_gens r ! g) a")
  case (Some x)
  then show ?thesis using s G g by (auto simp: streamRef_def inv_gens_def rt_le_def)
next
  case None
  let ?ref = "newDirectActorRef defaultWriteStreamKind a (rt_addr r) (rt_self r) (rt_nextPtr r)" and ?gen = "rt_gens r ! g"
  have e: "ref = ?ref" "r' = r\<lparr>rt_gens := (rt_gens r)[g := ?gen\<lparr>gn_streams := (gn_streams ?gen)(a \<mapsto> ?ref)\<rparr>], rt_nextPtr := Suc (rt_nextPtr r)\<rparr>"
    using s None by (auto simp: streamRef_def Let_def)
  have "published_version r' = published_version r" by (simp add: e published_version_def)
  then show ?thesis using G g by (auto simp: e inv_gens_def rt_le_def nth_list_update is_stream_new)
qed

lemma cache_hit_ok:
  assumes C: "inv_cache r" and h: "cache_hit r g t = Some route"
  shows "\<exists>ns. (gn_version (rt_gens r ! g), ns) \<in> rt_hist r \<and> route_ok (rt_addr r) ns t route"
proof (cases t)
  case (ActorIdRef w)
  obtain e where e: "rt_cache r w = Some e" "cr_resolver e = rt_self r" "cr_version e = gn_version (rt_gens r ! g)" "cr_route e = route"
    using h ActorIdRef by (auto simp: cache_hit_def split: option.splits if_splits)
  show ?thesis using C [unfolded inv_cache_def, rule_format, OF e(1,2)] unfolding e(3,4) ActorIdRef .
qed (use h in \<open>simp add: cache_hit_def\<close>)

lemma store_route_ok:
  assumes G: "inv_gens r" and C: "inv_cache r" and g: "g < length (rt_gens r)" and ok: "route_ok (rt_addr r) (gn_nodes (rt_gens r ! g)) t route"
  shows "inv_cache (store_route g t route r)"
proof (cases t)
  case (ActorIdRef w)
  have "(gn_version (rt_gens r ! g), gn_nodes (rt_gens r ! g)) \<in> rt_hist r" using G g by (simp add: inv_gens_def)
  then show ?thesis using C ok ActorIdRef by (auto simp: store_route_def inv_cache_def Let_def split: option.splits)
qed (use C in \<open>simp add: store_route_def\<close>)

lemma store_route_frame:
  "rt_gens (store_route g t route r) = rt_gens r" "rt_hist (store_route g t route r) = rt_hist r" "rt_addr (store_route g t route r) = rt_addr r"
  "rt_self (store_route g t route r) = rt_self r" "rt_provider (store_route g t route r) = rt_provider r" "rt_current (store_route g t route r) = rt_current r"
  by (auto simp: store_route_def Let_def split: option.splits)

lemma resolveMiss_ok:
  assumes G: "inv_gens r" and C: "inv_cache r" and g: "g < length (rt_gens r)" and m: "resolveMiss g t r = (route, r')"
  shows "inv_gens r' \<and> inv_cache r' \<and> rt_le r r' \<and> rt_provider r' = rt_provider r \<and> rt_hist r' = rt_hist r \<and>
    (\<exists>ns. (gn_version (rt_gens r ! g), ns) \<in> rt_hist r \<and> route_ok (rt_addr r) ns t route)"
proof (cases "cache_hit r g t")
  case (Some x)
  then show ?thesis using m G C cache_hit_ok [OF C Some] by (auto simp: resolveMiss_def rt_le_def)
next
  case None
  let ?gen = "rt_gens r ! g"
  have h: "(gn_version ?gen, gn_nodes ?gen) \<in> rt_hist r" using G g by (simp add: inv_gens_def)
  show ?thesis
  proof (cases "\<not> isDirect t \<and> \<not> isCluster t")
    case True
    then have "route = ([], None)" "r' = r" using m None by (auto simp: resolveMiss_def)
    moreover have "route_ok (rt_addr r) (gn_nodes ?gen) t ([], None)" using True by (simp add: route_ok_def owner_address_def)
    ultimately show ?thesis using G C h by (auto simp: rt_le_def)
  next
    case False
    let ?a = "owner_address (gn_nodes ?gen) t"
    let ?need = "(isDirect t \<or> ?a \<noteq> []) \<and> ?a \<noteq> rt_addr r"
    obtain stream r1 where sr: "(if ?need then let (ref, r) = streamRef g ?a r in (Some ref, r) else (None, r)) = (stream, r1)" by fastforce
    have a: "(if isDirect t then GetDirectAddr t else CalcAddrByKind8Name (gn_nodes ?gen) (GetKind t) (GetName t)) = ?a"
      using False by (auto simp: owner_address_def)
    have "resolveMiss g t r = ((?a, stream), store_route g t (?a, stream) r1)"
      unfolding resolveMiss_def None option.case if_not_P [OF False] a
      using sr by (simp only: Let_def prod.case)
    then have e: "route = (?a, stream)" "r' = store_route g t (?a, stream) r1" using m by simp_all
    have s1: "inv_gens r1 \<and> rt_le r r1 \<and> rt_cache r1 = rt_cache r \<and> rt_provider r1 = rt_provider r \<and> rt_hist r1 = rt_hist r \<and>
        gn_nodes (rt_gens r1 ! g) = gn_nodes ?gen \<and> g < length (rt_gens r1) \<and> (\<forall>s. stream = Some s \<longrightarrow> is_stream (rt_addr r) ?a s) \<and>
        (stream = None \<longleftrightarrow> \<not> ?need)"
    proof (cases ?need)
      case True
      obtain ref r2 where st: "streamRef g ?a r = (ref, r2)" by fastforce
      then have "stream = Some ref" "r1 = r2" using sr True by auto
      then show ?thesis using streamRef_ok [OF G g st] g True by simp
    next
      case False
      then show ?thesis using sr G g by (auto simp: rt_le_def)
    qed
    then have addr: "rt_addr r1 = rt_addr r" "rt_self r1 = rt_self r" by (simp_all add: rt_le_def)
    have ok: "route_ok (rt_addr r) (gn_nodes ?gen) t route" unfolding e(1) route_ok_def using s1 by auto
    have c1: "inv_cache r1" using C s1 addr unfolding inv_cache_def by simp
    have "inv_cache r'" unfolding e(2) using s1 ok addr e(1) by (intro store_route_ok [OF _ c1]) auto
    moreover have "inv_gens r1" using s1 by blast
    then have "inv_gens r'" by (simp add: e(2) inv_gens_def store_route_frame)
    moreover have "rt_le r r'" using s1 unfolding e(2) rt_le_def published_version_def store_route_frame by simp
    ultimately show ?thesis using s1 ok h unfolding e(2) store_route_frame by blast
  qed
qed

definition inv_routing :: "routing \<times> resolver_call list \<Rightarrow> bool" where
  "inv_routing p \<longleftrightarrow> inv_gens (fst p) \<and> inv_published (fst p) \<and> inv_cache (fst p) \<and> inv_calls (fst p) (snd p)"

lemma inv_published_same: "inv_published r \<Longrightarrow> rt_provider r' = rt_provider r \<Longrightarrow> rt_hist r' = rt_hist r \<Longrightarrow> inv_published r'"
  by (simp add: inv_published_def)

lemma inv_cache_same: "inv_cache r \<Longrightarrow> rt_cache r' = rt_cache r \<Longrightarrow> rt_hist r' = rt_hist r \<Longrightarrow> rt_le r r' \<Longrightarrow> inv_cache r'"
  by (simp add: inv_cache_def rt_le_def)

lemma rt_le_refl: "rt_le r r"
  by (simp add: rt_le_def)

lemma resolve_start_ok:
  assumes P: "inv_published r" and st: "resolve_step r c = (r', c')" and VStart: "rv_pc c = VStart"
  shows "r' = r \<and> rv_since c' \<le> published_version r \<and> call_ok r (rv_target c') (rv_since c') (rv_pc c')"
proof -
  obtain ns where ns: "(published_version r, ns) \<in> rt_hist r" "published_version r \<le> GetNodesVersion (rt_provider r)"
    using published_in_hist [OF P] by blast
  show ?thesis
  proof (cases "isDirect (rv_target c) \<and> GetDirectAddr (rv_target c) = rt_addr r")
    case True
    then have "route_ok (rt_addr r) ns (rv_target c) (GetDirectAddr (rv_target c), None)" by (simp add: route_ok_def owner_address_def)
    then have ok: "call_ok r (rv_target c) (published_version r) (VDone (GetDirectAddr (rv_target c), None))"
      using ns(1) by (auto simp only: call_ok.simps)
    have e: "r' = r" "c' = c\<lparr>rv_pc := VDone (GetDirectAddr (rv_target c), None), rv_since := published_version r\<rparr>"
      using st VStart True by (auto simp: resolve_step_def)
    show ?thesis unfolding e by (use ok in \<open>simp del: call_ok.simps\<close>)
  next
    case False
    have e: "r' = r" "c' = c\<lparr>rv_pc := VLoad (GetNodesVersion (rt_provider r)), rv_since := published_version r\<rparr>"
      using st [unfolded resolve_step_def VStart resolve_pc.case if_not_P [OF False]] by auto
    show ?thesis unfolding e by (simp add: ns(2))
  qed
qed

lemma resolve_step_inv:
  assumes I: "inv_routing (r, cs)" and j: "j < length cs" and st: "resolve_step r (cs ! j) = (r', c')"
  shows "inv_routing (r', cs[j := c'])"
proof -
  have G: "inv_gens r" and P: "inv_published r" and C: "inv_cache r" and K: "inv_calls r cs" using I by (simp_all add: inv_routing_def)
  let ?c = "cs ! j"
  have c: "rv_since ?c \<le> published_version r" "call_ok r (rv_target ?c) (rv_since ?c) (rv_pc ?c)" using K nth_mem [OF j] by (auto simp: inv_calls_def)
  have same: "inv_routing (r, cs[j := c])" if "rv_since c \<le> published_version r" "call_ok r (rv_target c) (rv_since c) (rv_pc c)" for c
    using inv_calls_update [OF rt_le_refl K that] G P C by (simp add: inv_routing_def)
  show ?thesis
  proof (cases "rv_pc ?c")
    case VStart
    then show ?thesis using resolve_start_ok [OF P st VStart] same [of c'] by simp
  next
    case (VLoad v)
    let ?pc = "case load_generation v r of Some g \<Rightarrow> VCheck g | None \<Rightarrow> VRefresh v"
    have ok: "call_ok r (rv_target ?c) (rv_since ?c) ?pc"
      using c(2) VLoad load_generation_Some [of v r] G by (fastforce simp: inv_gens_def split: option.splits)
    have e: "r' = r" "c' = ?c\<lparr>rv_pc := ?pc\<rparr>" using st VLoad by (auto simp: resolve_step_def)
    show ?thesis unfolding e by (rule same) (use ok c(1) in \<open>simp_all del: call_ok.simps\<close>)
  next
    case (VRefresh v)
    obtain g r1 where f: "refresh_generation v r = (g, r1)" by fastforce
    then have e: "r' = r1" "c' = ?c\<lparr>rv_pc := VCheck g\<rparr>" using st VRefresh by (auto simp: resolve_step_def)
    have s: "rv_since ?c \<le> v" using c(2) VRefresh by simp
    note R = refresh_ok [OF G P f s c(1)]
    have "inv_calls r' (cs[j := c'])" using R c(1) K e by (intro inv_calls_update [of r]) (auto simp: rt_le_def)
    then show ?thesis using R e inv_published_same [OF P] inv_cache_same [OF C] by (simp add: inv_routing_def)
  next
    case (VCheck g)
    let ?pc = "case cache_hit r g (rv_target ?c) of Some route \<Rightarrow> VDone route | None \<Rightarrow> VMiss g"
    have ok: "call_ok r (rv_target ?c) (rv_since ?c) ?pc"
      using c(2) VCheck cache_hit_ok [OF C, of g "rv_target ?c"] by (cases "cache_hit r g (rv_target ?c)") auto
    have e: "r' = r" "c' = ?c\<lparr>rv_pc := ?pc\<rparr>" using st VCheck by (auto simp: resolve_step_def)
    show ?thesis unfolding e by (rule same) (use ok c(1) in \<open>simp_all del: call_ok.simps\<close>)
  next
    case (VMiss g)
    obtain route r1 where f: "resolveMiss g (rv_target ?c) r = (route, r1)" by fastforce
    then have e: "r' = r1" "c' = ?c\<lparr>rv_pc := VDone route\<rparr>" using st VMiss by (auto simp: resolve_step_def)
    have g: "g < length (rt_gens r)" "rv_since ?c \<le> gn_version (rt_gens r ! g)" using c(2) VMiss by simp_all
    note M = resolveMiss_ok [OF G C g(1) f]
    have "inv_calls r' (cs[j := c'])" using M c(1) K e g(2) by (intro inv_calls_update [of r]) (auto simp: rt_le_def)
    then show ?thesis using M e inv_published_same [OF P] by (simp add: inv_routing_def)
  next
    case (VDone route)
    then have "r' = r" "c' = cs ! j" using st by (auto simp: resolve_step_def)
    then show ?thesis using I by simp
  qed
qed

lemma applyMember_published: "pv_nodes (applyMemberLocked um opn key val p) = pv_nodes p"
  "pv_version (applyMemberLocked um opn key val p) = wrap_int64 (pv_version p + 1)"
  by (auto simp: applyMemberLocked_def Let_def split: option.splits)

lemma member_inv:
  assumes I: "inv_routing (r, cs)" and v: "pv_version (rt_provider r) < 2 ^ 63 - 1"
  shows "inv_routing (r\<lparr>rt_provider := applyMemberLocked um opn key val (rt_provider r)\<rparr>, cs)"
proof -
  let ?p = "applyMemberLocked um opn key val (rt_provider r)" and ?r = "r\<lparr>rt_provider := applyMemberLocked um opn key val (rt_provider r)\<rparr>"
  have G: "inv_gens r" and P: "inv_published r" and C: "inv_cache r" and K: "inv_calls r cs" using I by (simp_all add: inv_routing_def)
  have w: "pv_version ?p = pv_version (rt_provider r) + 1"
    using P v unfolding applyMember_published(2) by (intro wrap_int64_id) (simp_all add: inv_published_def)
  obtain ver ns where pub: "pv_nodes (rt_provider r) = Some (ver, ns)" using P by (auto simp: inv_published_def)
  have "published_version ?r = published_version r" by (simp add: published_version_def GetNodes_def applyMember_published(1) pub)
  then have le: "rt_le r ?r" by (simp add: rt_le_def)
  have "inv_published ?r" using P v w by (auto simp: inv_published_def applyMember_published(1))
  moreover have "inv_gens ?r" using G by (simp add: inv_gens_def)
  moreover have "inv_cache ?r" using C by (simp add: inv_cache_def)
  ultimately show ?thesis using inv_calls_mono [OF le K] by (simp add: inv_routing_def)
qed

lemma publish_inv:
  assumes I: "inv_routing (r, cs)" and p: "p = publishNodesLocked (rt_provider r)"
  shows "inv_routing (r\<lparr>rt_provider := p, rt_hist := insert (pv_version p, map snd (pv_nodeMap p)) (rt_hist r)\<rparr>, cs)" (is "inv_routing (?r, cs)")
proof -
  have G: "inv_gens r" and P: "inv_published r" and C: "inv_cache r" and K: "inv_calls r cs" using I by (simp_all add: inv_routing_def)
  have pp: "pv_nodes p = Some (pv_version p, map snd (pv_nodeMap p))" "pv_version p = pv_version (rt_provider r)" by (simp_all add: p publishNodesLocked_def)
  have "published_version r \<le> published_version ?r" using P by (auto simp: published_version_def GetNodes_def pp inv_published_def)
  then have le: "rt_le r ?r" by (auto simp: rt_le_def)
  have "inv_published ?r" using P by (simp add: inv_published_def pp)
  moreover have "inv_gens ?r" using G by (auto simp: inv_gens_def)
  moreover have "inv_cache ?r" using C unfolding inv_cache_def by fastforce
  ultimately show ?thesis using inv_calls_mono [OF le K] by (simp add: inv_routing_def)
qed

lemma foreign_inv:
  assumes I: "inv_routing (r, cs)" and e: "cr_resolver entry \<noteq> rt_self r"
  shows "inv_routing (r\<lparr>rt_cache := (rt_cache r)(w \<mapsto> entry)\<rparr>, cs)" (is "inv_routing (?r, cs)")
proof -
  have le: "rt_le r ?r" by (simp add: rt_le_def published_version_def)
  have "inv_calls ?r cs" using I by (intro inv_calls_mono [OF le]) (simp add: inv_routing_def)
  then show ?thesis using I e by (auto simp: inv_routing_def inv_gens_def inv_published_def inv_cache_def)
qed

lemma call_inv:
  assumes I: "inv_routing (r, cs)"
  shows "inv_routing (r, cs @ [\<lparr>rv_target = t, rv_pc = VStart, rv_since = published_version r\<rparr>])"
  using I by (auto simp: inv_routing_def inv_calls_def)

lemma rreach_inv: "rreach p \<Longrightarrow> inv_routing p"
proof (induction rule: rreach.induct)
  case (init self addr conf)
  show ?case by (simp add: inv_routing_def inv_gens_def inv_published_def inv_cache_def inv_calls_def new_routing_def publishNodesLocked_def fresh_provider_def)
next
  case (step p p')
  from step.hyps(2) step.IH show ?case
    by cases (blast intro: call_inv resolve_step_inv member_inv publish_inv foreign_inv)+
qed

subsection \<open>A call without interference\<close>

lemma currentGeneration_ok:
  assumes G: "inv_gens r" and P: "inv_published r" and c: "currentGeneration r = (g, r')"
  shows "inv_gens r' \<and> rt_le r r' \<and> rt_cache r' = rt_cache r \<and> rt_provider r' = rt_provider r \<and> rt_hist r' = rt_hist r \<and>
    g < length (rt_gens r') \<and> published_version r \<le> gn_version (rt_gens r' ! g)"
proof -
  let ?v = "GetNodesVersion (rt_provider r)"
  have v: "published_version r \<le> ?v" using published_in_hist [OF P] by blast
  show ?thesis
  proof (cases "load_generation ?v r")
    case None
    then have "refresh_generation ?v r = (g, r')" using c by (simp add: currentGeneration_def)
    then show ?thesis using refresh_ok [OF G P _ v order_refl] by blast
  next
    case (Some g0)
    then have "g0 = g" "r' = r" using c by (simp_all add: currentGeneration_def)
    then show ?thesis using load_generation_Some [OF Some] G v by (auto simp: rt_le_def inv_gens_def)
  qed
qed

lemma resolve_ok:
  assumes G: "inv_gens r" and P: "inv_published r" and C: "inv_cache r" and res: "resolve t r = (route, r')"
  shows "inv_gens r' \<and> inv_published r' \<and> inv_cache r' \<and> rt_le r r' \<and> rt_provider r' = rt_provider r \<and>
    (\<exists>v ns. (v, ns) \<in> rt_hist r \<and> published_version r \<le> v \<and> route_ok (rt_addr r) ns t route)"
proof (cases "isDirect t \<and> GetDirectAddr t = rt_addr r")
  case True
  then have "route = (rt_addr r, None)" "r' = r" using res by (auto simp: resolve_def)
  moreover have "route_ok (rt_addr r) ns t (rt_addr r, None)" for ns using True by (simp add: route_ok_def owner_address_def)
  ultimately show ?thesis using G P C published_in_hist [OF P] rt_le_refl by blast
next
  case False
  obtain g r1 where c: "currentGeneration r = (g, r1)" by fastforce
  note K = currentGeneration_ok [OF G P c]
  have a: "rt_addr r1 = rt_addr r" "rt_self r1 = rt_self r" using K by (simp_all add: rt_le_def)
  have C1: "inv_cache r1" using C K a by (simp add: inv_cache_def)
  have P1: "inv_published r1" using inv_published_same [OF P] K by simp
  show ?thesis
  proof (cases "cache_hit r1 g t")
    case (Some x)
    then have "route = x" "r' = r1" using res c False by (auto simp: resolve_def)
    then show ?thesis using K C1 P1 cache_hit_ok [OF C1 Some] a by auto
  next
    case None
    then have m: "resolveMiss g t r1 = (route, r')" using res c False by (auto simp: resolve_def)
    have "inv_gens r1" "g < length (rt_gens r1)" using K by simp_all
    note M = resolveMiss_ok [OF this(1) C1 this(2) m]
    have "rt_le r r'" using K M by (auto simp: rt_le_def)
    then show ?thesis using K M a inv_published_same [OF P1] by auto
  qed
qed

definition solo :: "routing \<times> resolver_call \<Rightarrow> routing \<times> resolver_call" where
  "solo p = resolve_step (fst p) (snd p)"

lemma solo_done: "rv_pc c = VDone route \<Longrightarrow> (solo ^^ n) (r, c) = (r, c)"
  by (induction n) (simp_all add: solo_def resolve_step_def)

lemma solo_check:
  assumes "rv_pc c = VCheck g" and "rv_target c = t"
    and "(case cache_hit r g t of Some route \<Rightarrow> (route, r) | None \<Rightarrow> resolveMiss g t r) = (route, r')"
  shows "(solo ^^ 2) (r, c) = (r', c\<lparr>rv_pc := VDone route\<rparr>)"
  using assms by (cases "cache_hit r g t") (auto simp: eval_nat_numeral solo_def resolve_step_def split: prod.splits)

text \<open>Five steps of a call that runs alone compute \<open>resolve\<close>.\<close>

lemma resolve_is_steps:
  assumes "rv_pc c = VStart"
  shows "\<exists>c'. (solo ^^ 5) (r, c) = (snd (resolve (rv_target c) r), c') \<and> rv_pc c' = VDone (fst (resolve (rv_target c) r))"
proof (cases "isDirect (rv_target c) \<and> GetDirectAddr (rv_target c) = rt_addr r")
  case True
  let ?c = "c\<lparr>rv_pc := VDone (GetDirectAddr (rv_target c), None), rv_since := published_version r\<rparr>"
  have "solo (r, c) = (r, ?c)" using assms True by (simp add: solo_def resolve_step_def)
  then have "(solo ^^ 5) (r, c) = (r, ?c)"
    using solo_done [of ?c _ 4 r] by (simp add: numeral_eq_Suc funpow_swap1)
  then show ?thesis using True by (simp add: resolve_def)
next
  case False
  let ?v = "GetNodesVersion (rt_provider r)"
  let ?c = "c\<lparr>rv_pc := VLoad ?v, rv_since := published_version r\<rparr>"
  have 1: "solo (r, c) = (r, ?c)" using assms False by (auto simp: solo_def resolve_step_def)
  obtain g r1 where cg: "currentGeneration r = (g, r1)" by fastforce
  obtain route r2 where res: "(case cache_hit r1 g (rv_target c) of Some route \<Rightarrow> (route, r1) | None \<Rightarrow> resolveMiss g (rv_target c) r1) = (route, r2)"
    by fastforce
  have fin: "resolve (rv_target c) r = (route, r2)" using False cg res by (auto simp: resolve_def)
  let ?k = "c\<lparr>rv_pc := VCheck g, rv_since := published_version r\<rparr>" and ?d = "c\<lparr>rv_pc := VDone route, rv_since := published_version r\<rparr>"
  have two: "(solo ^^ 2) (r1, ?k) = (r2, ?d)" using solo_check [OF _ _ res, of ?k] by simp
  show ?thesis
  proof (cases "load_generation ?v r")
    case None
    then have "solo (r, ?c) = (r, ?c\<lparr>rv_pc := VRefresh ?v\<rparr>)" "solo (r, ?c\<lparr>rv_pc := VRefresh ?v\<rparr>) = (r1, ?k)"
      using cg by (simp_all add: solo_def resolve_step_def currentGeneration_def)
    then have "(solo ^^ 5) (r, c) = (r2, ?d)" using 1 two by (simp add: numeral_eq_Suc funpow_swap1)
    then show ?thesis using fin by simp
  next
    case (Some g0)
    then have "solo (r, ?c) = (r1, ?k)" using cg by (auto simp: solo_def resolve_step_def currentGeneration_def)
    then have "(solo ^^ 4) (r, c) = (r2, ?d)" using 1 two by (simp add: numeral_eq_Suc funpow_swap1)
    moreover have "solo (r2, ?d) = (r2, ?d)" using solo_done [of ?d route 1 r2] by simp
    ultimately have "(solo ^^ 5) (r, c) = (r2, ?d)" by (simp add: numeral_eq_Suc)
    then show ?thesis using fin by simp
  qed
qed

subsection \<open>Nothing is rolled back\<close>

definition generation_version :: "routing \<Rightarrow> int" where
  "generation_version r = (case rt_current r of Some g \<Rightarrow> gn_version (rt_gens r ! g) | None \<Rightarrow> - (2 ^ 63))"

definition own_entry :: "routing \<Rightarrow> actor_id_wrapper \<Rightarrow> cached_route \<Rightarrow> bool" where
  "own_entry r w e \<longleftrightarrow> rt_cache r w = Some e \<and> cr_resolver e = rt_self r"

lemma load_generation_None: "load_generation v r = None \<Longrightarrow> rt_current r = None \<or> generation_version r < v"
  by (auto simp: load_generation_def generation_version_def split: option.splits if_splits)

lemma refresh_monotone:
  assumes P: "inv_published r" and f: "refresh_generation v r = (g, r')" and low: "- (2 ^ 63) \<le> published_version r"
  shows "generation_version r \<le> generation_version r' \<and> rt_cache r' = rt_cache r"
proof -
  obtain ns where ns: "GetNodes (rt_provider r) = (ns, published_version r)" using published_in_hist [OF P] by blast
  show ?thesis
  proof (cases "load_generation v r = None \<and> load_generation (published_version r) r = None")
    case True
    then have "generation_version r \<le> published_version r"
      using load_generation_None [of "published_version r" r] low by (auto simp: generation_version_def)
    then show ?thesis using f True ns by (auto simp: refresh_generation_def generation_version_def)
  next
    case False
    then show ?thesis using f ns by (auto simp: refresh_generation_def split: option.splits)
  qed
qed

definition same_versions :: "routing \<Rightarrow> routing \<Rightarrow> bool" where
  "same_versions r y \<longleftrightarrow> rt_cache y = rt_cache r \<and> rt_self y = rt_self r \<and> rt_current y = rt_current r \<and>
     map gn_version (rt_gens y) = map gn_version (rt_gens r)"

lemma streamRef_frame:
  assumes "streamRef g a r = (ref, r')"
  shows "same_versions r r'"
proof -
  have "map gn_version ((rt_gens r)[g := (rt_gens r ! g)\<lparr>gn_streams := m\<rparr>]) = map gn_version (rt_gens r)" for m
    by (cases "g < length (rt_gens r)") (simp_all add: map_update list_update_same_conv list_update_beyond)
  then show ?thesis using assms by (auto simp: same_versions_def streamRef_def Let_def split: option.splits)
qed

lemma same_versions_nth: "same_versions r y \<Longrightarrow> g < length (rt_gens r) \<Longrightarrow> gn_version (rt_gens y ! g) = gn_version (rt_gens r ! g)"
  unfolding same_versions_def by (metis length_map nth_map)

lemma resolveMiss_stores:
  assumes m: "resolveMiss g t r = (route, r')" and n: "r' \<noteq> r"
  shows "\<exists>y. r' = store_route g t route y \<and> same_versions r y"
proof -
  have refl: "same_versions r r" by (simp add: same_versions_def)
  have c: "cache_hit r g t = None" "\<not> (\<not> isDirect t \<and> \<not> isCluster t)" 
    using m n by (auto simp: resolveMiss_def split: option.splits if_splits)
  let ?a = "if isDirect t then GetDirectAddr t else CalcAddrByKind8Name (gn_nodes (rt_gens r ! g)) (GetKind t) (GetName t)"
  obtain ref y where st: "streamRef g ?a r = (ref, y)" by fastforce
  show ?thesis
    using m [unfolded resolveMiss_def c(1) option.case if_not_P [OF c(2)]] streamRef_frame [OF st] refl st
    by (cases "(isDirect t \<or> ?a \<noteq> []) \<and> ?a \<noteq> rt_addr r") (simp_all only: Let_def prod.case simp_thms if_True if_False prod.inject, blast+)
qed

lemma store_route_keeps:
  assumes y: "same_versions r y" and e: "own_entry r w e"
  shows "\<exists>e'. own_entry (store_route g t route y) w e' \<and> cr_version e \<le> cr_version e'"
  using assms by (cases t) (auto simp: store_route_def own_entry_def same_versions_def Let_def split: option.splits)

lemma store_route_generation:
  assumes G: "inv_gens r" and y: "same_versions r y"
  shows "generation_version (store_route g t route y) = generation_version r"
proof -
  have "rt_current y = rt_current r" using y by (simp add: same_versions_def)
  then show ?thesis using G same_versions_nth [OF y]
    by (auto simp: generation_version_def store_route_frame inv_gens_def split: option.splits)
qed

lemma resolve_step_monotone:
  assumes I: "inv_routing (r, cs)" and j: "j < length cs" and low: "- (2 ^ 63) \<le> published_version r"
    and st: "resolve_step r (cs ! j) = (r', c')"
  shows "generation_version r \<le> generation_version r' \<and> (\<forall>w e. own_entry r w e \<longrightarrow> (\<exists>e'. own_entry r' w e' \<and> cr_version e \<le> cr_version e'))"
proof -
  have G: "inv_gens r" and P: "inv_published r" using I by (simp_all add: inv_routing_def)
  consider (same) "r' = r" | (refresh) v g where "refresh_generation v r = (g, r')" | (miss) g route where "resolveMiss g (rv_target (cs ! j)) r = (route, r')"
    using st by (cases "rv_pc (cs ! j)") (auto simp: resolve_step_def split: prod.splits if_splits)
  then show ?thesis
  proof cases
    case same then show ?thesis by auto
  next
    case refresh
    have "rt_self r' = rt_self r" using refresh by (auto simp: refresh_generation_def split: option.splits prod.splits)
    then show ?thesis using refresh_monotone [OF P refresh low] by (auto simp: own_entry_def)
  next
    case miss
    show ?thesis
    proof (cases "r' = r")
      case False
      obtain y where y: "r' = store_route g (rv_target (cs ! j)) route y" "same_versions r y" using resolveMiss_stores [OF miss False] by blast
      show ?thesis unfolding y(1) using store_route_generation [OF G y(2)] store_route_keeps [OF y(2)] by simp
    qed auto
  qed
qed

lemma rstep_monotone:
  assumes I: "inv_routing (r, cs)" and st: "rstep (r, cs) (r', cs')"
  shows "generation_version r \<le> generation_version r' \<and>
    (\<forall>w e e'. own_entry r w e \<longrightarrow> own_entry r' w e' \<longrightarrow> cr_version e \<le> cr_version e')"
proof -
  have "0 \<le> published_version r" using I by (auto simp: inv_routing_def inv_published_def published_version_def GetNodes_def)
  then have low: "- (2 ^ 63) \<le> published_version r" by simp
  from st show ?thesis
  proof cases
    case (run j c')
    have "\<exists>e'. own_entry r' w e' \<and> cr_version e \<le> cr_version e'" if "own_entry r w e" for w e
      using resolve_step_monotone [OF I run(2) low run(3)] that by blast
    then have "cr_version e \<le> cr_version e'" if "own_entry r w e" "own_entry r' w e'" for w e e'
      using that by (fastforce simp: own_entry_def)
    then show ?thesis using resolve_step_monotone [OF I run(2) low run(3)] by blast
  next
    case (foreign entry w)
    then show ?thesis by (auto simp: generation_version_def own_entry_def split: option.splits if_splits)
  qed (auto simp: generation_version_def own_entry_def split: option.splits)
qed

text \<open>C14. Routing never works from a membership older than the one published when the send began, and nothing a
  resolver has learnt is rolled back. In every reachable state, a finished \<open>resolve\<close> returned the right route
  (owner address, and a stream exactly when the owner is another node, named for that owner) for a snapshot
  that the provider published and that is at least as new as the one published when the call started, under
  every interleaving with other sends, membership changes and other systems writing the reference's cache; and
  every step keeps the version of the current generation and of the resolver's own cache entries from
  decreasing.\<close>

theorem routing_never_stale:
  assumes reach: "rreach (r, cs)"
  shows "(\<forall>c \<in> set cs. \<forall>route. rv_pc c = VDone route \<longrightarrow>
        (\<exists>v ns. (v, ns) \<in> rt_hist r \<and> rv_since c \<le> v \<and> route_ok (rt_addr r) ns (rv_target c) route)) \<and>
    (\<forall>r' cs'. rstep (r, cs) (r', cs') \<longrightarrow> generation_version r \<le> generation_version r' \<and>
        (\<forall>w e e'. own_entry r w e \<longrightarrow> own_entry r' w e' \<longrightarrow> cr_version e \<le> cr_version e'))"
proof -
  note I = rreach_inv [OF reach]
  have "call_ok r (rv_target c) (rv_since c) (rv_pc c)" if "c \<in> set cs" for c
    using I that by (auto simp: inv_routing_def inv_calls_def)
  then show ?thesis using rstep_monotone [OF I] by fastforce
qed

definition run_first :: "routing \<times> resolver_call list \<Rightarrow> routing \<times> resolver_call list" where
  "run_first p = (let (r', c') = resolve_step (fst p) (snd p ! 0) in (r', (snd p)[0 := c']))"

lemma rreach_run_first: "rreach p \<Longrightarrow> snd p \<noteq> [] \<Longrightarrow> rreach (run_first p) \<and> snd (run_first p) \<noteq> []"
  using rreach.step [OF _ rstep.run [of 0 "snd p" "fst p"]] by (auto simp: run_first_def split: prod.splits)

lemma rreach_runs: "rreach p \<Longrightarrow> snd p \<noteq> [] \<Longrightarrow> rreach ((run_first ^^ n) p) \<and> snd ((run_first ^^ n) p) \<noteq> []"
  by (induction n) (use rreach_run_first in auto)

lemma direct_run:
  fixes t :: actor_ref and conf :: config
  assumes d: "isDirect t" "GetDirectAddr t = ''b''" "routeCache t = Some w"
  defines "p \<equiv> (run_first ^^ 5) (new_routing 0 ''a'' conf, [\<lparr>rv_target = t, rv_pc = VStart, rv_since = 1\<rparr>])"
  shows "rv_pc (snd p ! 0) = VDone (''b'', Some (newDirectActorRef defaultWriteStreamKind ''b'' ''a'' 0 0)) \<and> rv_since (snd p ! 0) = 1 \<and>
    rv_target (snd p ! 0) = t \<and> rt_addr (fst p) = ''a''"
proof -
  let ?r0 = "new_routing 0 ''a'' conf" and ?c = "\<lambda>pc. \<lparr>rv_target = t, rv_pc = pc, rv_since = 1\<rparr>"
  let ?r1 = "?r0\<lparr>rt_gens := [\<lparr>gn_version = 1, gn_nodes = [], gn_streams = Map.empty\<rparr>], rt_current := Some 0\<rparr>"
  have v: "GetNodes (rt_provider ?r0) = ([], 1)" "GetNodesVersion (rt_provider ?r0) = 1" "published_version ?r0 = 1"
    by (simp_all add: new_routing_def published_version_def GetNodes_def GetNodesVersion_def publishNodesLocked_def fresh_provider_def)
  have a: "rt_addr ?r0 = ''a''" "rt_gens ?r0 = []" "rt_current ?r0 = None" "rt_self ?r0 = 0" "rt_nextPtr ?r0 = 0" "rt_cache ?r0 = (\<lambda>_. None)"
    by (simp_all add: new_routing_def)
  have n: "load_generation 1 ?r0 = None" by (simp add: load_generation_def a)
  have 1: "run_first (?r0, [?c VStart]) = (?r0, [?c (VLoad 1)])" by (simp add: run_first_def resolve_step_def d v a)
  have 2: "run_first (?r0, [?c (VLoad 1)]) = (?r0, [?c (VRefresh 1)])" by (simp add: run_first_def resolve_step_def n)
  have 3: "run_first (?r0, [?c (VRefresh 1)]) = (?r1, [?c (VCheck 0)])" by (simp add: run_first_def resolve_step_def refresh_generation_def n v a)
  have 4: "run_first (?r1, [?c (VCheck 0)]) = (?r1, [?c (VMiss 0)])" by (simp add: run_first_def resolve_step_def cache_hit_def d a)
  obtain r2 where m: "resolveMiss 0 t ?r1 = ((''b'', Some (newDirectActorRef defaultWriteStreamKind ''b'' ''a'' 0 0)), r2)" "rt_addr r2 = ''a''"
    by (simp add: resolveMiss_def cache_hit_def d a streamRef_def store_route_frame Let_def)
  have 5: "run_first (?r1, [?c (VMiss 0)]) = (r2, [?c (VDone (''b'', Some (newDirectActorRef defaultWriteStreamKind ''b'' ''a'' 0 0)))])"
    by (simp add: run_first_def resolve_step_def m)
  show ?thesis unfolding p_def by (simp add: eval_nat_numeral 1 2 3 4 5 m(2))
qed

theorem routing_never_stale_witness:
  "let t = newDirectActorRef ''k'' ''n'' ''b'' 0 7; r0 = new_routing 0 ''a'' (default_config [] ''c'' []);
       p = (run_first ^^ 5) (r0, [\<lparr>rv_target = t, rv_pc = VStart, rv_since = 1\<rparr>])
   in rv_since (snd p ! 0) = 1 \<and> (\<exists>route. rv_pc (snd p ! 0) = VDone route \<and> fst route = ''b'' \<and>
        (\<exists>v ns. (v, ns) \<in> rt_hist (fst p) \<and> 1 \<le> v \<and> route_ok ''a'' ns t route))"
proof -
  let ?t = "newDirectActorRef ''k'' ''n'' ''b'' 0 7" and ?r0 = "new_routing 0 ''a'' (default_config [] ''c'' [])"
  let ?p = "(run_first ^^ 5) (?r0, [\<lparr>rv_target = ?t, rv_pc = VStart, rv_since = 1\<rparr>])"
  let ?route = "(''b'', Some (newDirectActorRef defaultWriteStreamKind ''b'' ''a'' 0 0))"
  have d: "isDirect ?t" "GetDirectAddr ?t = ''b''" using direct_ref_parts(3,4) [of "''k''" "''n''" "''b''" 0 7] by simp_all
  have "\<exists>w. routeCache ?t = Some w" by (simp add: newDirectActorRef_def Let_def)
  then obtain w where w: "routeCache ?t = Some w" by blast
  note e = direct_run [OF d(1,2) w, of "default_config [] ''c'' []"]
  have v: "published_version ?r0 = 1" by (simp add: new_routing_def published_version_def GetNodes_def publishNodesLocked_def fresh_provider_def)
  have "rreach (?r0, [] @ [\<lparr>rv_target = ?t, rv_pc = VStart, rv_since = published_version ?r0\<rparr>])"
    by (rule rreach.step [OF rreach.init rstep.call])
  then have R: "rreach ?p" "snd ?p \<noteq> []" using rreach_runs [of "(?r0, [\<lparr>rv_target = ?t, rv_pc = VStart, rv_since = 1\<rparr>])" 5] v by simp_all
  have h: "snd ?p ! 0 \<in> set (snd ?p)" using R(2) by simp
  have "rreach (fst ?p, snd ?p)" using R(1) by simp
  from routing_never_stale [OF this, THEN conjunct1, rule_format, OF h, of ?route]
  have "\<exists>v ns. (v, ns) \<in> rt_hist (fst ?p) \<and> 1 \<le> v \<and> route_ok ''a'' ns ?t ?route" using e by simp
  then show ?thesis unfolding Let_def using e by (intro conjI exI [of _ ?route]) simp_all
qed

end
