(* ===== verification/Ask_Table.thy ===== *)
theory Ask_Table
  imports Message_Context Safe_Map
begin

section \<open>Pending asks: request_helper.go, system.go, system_life.go\<close>

text \<open>
  An \<open>Ask\<close> draws a number, registers a channel for one reply under it, sends, and waits for the reply or
  the timeout; a reply finds the channel by the number, so it needs no actor. Shutdown closes the
  registration and wakes everyone who still waits. The table is the sharded map of \<open>Safe_Map\<close>, a channel
  is a buffer of one message. Askers, repliers and the shutdown are goroutines: the model is a step
  relation whose steps are the single accesses to the table, to a shard, to a channel or to the counter.
  The admission lock is a flag that the shutdown holds from closing the registration to the end of its
  walk over the shards. \<open>as_delivered\<close> and \<open>as_owner\<close> record what happened and decide nothing.
\<close>

record ask_state =
  as_askId :: u64
  as_count :: nat
  as_closed :: bool
  as_locked :: bool
  as_pending :: "(u64, nat) concurrent_map"
  as_chans :: "proto_message option list"
  as_owner :: "u64 list"
  as_delivered :: "(u64 \<times> proto_message) set"

subsection \<open>Operations\<close>

definition nextSnId :: "ask_state \<Rightarrow> u64 \<times> ask_state" where
  "nextSnId x = (as_askId x + 1, x\<lparr>as_askId := as_askId x + 1, as_count := as_count x + 1\<rparr>)"

definition registerAsk :: "u64 \<Rightarrow> ask_state \<Rightarrow> nat option \<times> ask_state" where
  "registerAsk snId x = (if as_closed x then (None, x) else
     let ch = length (as_chans x)
     in (Some ch, x\<lparr>as_chans := as_chans x @ [None], as_owner := as_owner x @ [snId],
                    as_pending := snd (cm_Set (as_pending x) snId ch)\<rparr>))"

text \<open>A send that does not block: the message is dropped when the buffer is full.\<close>

definition chan_send :: "nat \<Rightarrow> proto_message \<Rightarrow> ask_state \<Rightarrow> ask_state" where
  "chan_send ch msg x = (if as_chans x ! ch = None then x\<lparr>as_chans := (as_chans x)[ch := Some msg]\<rparr> else x)"

definition reply_pop :: "u64 \<Rightarrow> proto_message \<Rightarrow> ask_state \<Rightarrow> nat option \<times> ask_state" where
  "reply_pop snId msg x = (case cm_Pop (as_pending x) snId of
      (Some ch, m) \<Rightarrow> (Some ch, x\<lparr>as_pending := m, as_delivered := insert (snId, msg) (as_delivered x)\<rparr>)
    | (None, m) \<Rightarrow> (None, x\<lparr>as_pending := m\<rparr>))"

definition deliverReply :: "u64 \<Rightarrow> proto_message \<Rightarrow> ask_state \<Rightarrow> ask_state" where
  "deliverReply snId msg x = (case reply_pop snId msg x of
      (Some ch, x') \<Rightarrow> chan_send ch msg x' | (None, x') \<Rightarrow> x')"

definition cancelAsk :: "u64 \<Rightarrow> ask_state \<Rightarrow> ask_state" where
  "cancelAsk snId x = x\<lparr>as_pending := cm_Remove (as_pending x) snId\<rparr>"

text \<open>\<open>wakePendingAsks\<close> in one go; the steps below take it apart.\<close>

definition wakePendingAsks :: "ask_state \<Rightarrow> ask_state" where
  "wakePendingAsks x =
     (let x = x\<lparr>as_closed := True\<rparr>;
          replies = cm_IterCb (\<lambda>_ reply rs. rs @ [reply]) (as_pending x) []
      in fold (\<lambda>ch. chan_send ch (ErrCodeMsg errSystemStopping)) replies x)"

text \<open>
  The answer of \<open>awaitReply\<close> for a requested type: \<open>None\<close> is the timeout. \<open>isT\<close> tells the messages of the
  type, \<open>as_error\<close> the text of a message that is a Go error, \<open>nameT\<close> the name of the type.
\<close>

fun awaitReply :: "(proto_message \<Rightarrow> bool) \<Rightarrow> (proto_message \<Rightarrow> string option) \<Rightarrow> string \<Rightarrow> proto_message option \<Rightarrow>
    err_code + proto_message" where
  "awaitReply isT as_error nameT None = Inl (WithErr ''ask reply timeout'')"
| "awaitReply isT as_error nameT (Some Poison) = Inl (WithErr ''ask reply poisoned'')"
| "awaitReply isT as_error nameT (Some (ErrCodeMsg e)) = Inl e"
| "awaitReply isT as_error nameT (Some msg) = (if isT msg then Inr msg else case as_error msg of
      Some t \<Rightarrow> Inl (WithErr t)
    | None \<Rightarrow> Inl (WithErr (''msg type err, need:'' @ nameT @ '', now:'' @ MessageName msg)))"

subsection \<open>Goroutines\<close>

datatype ask_end = Refused | Received "proto_message option"

datatype ask_pc = AStart | ANumbered | ASend | AWait | ACancel "proto_message option" | ADone ask_end

record asker =
  aq_id :: u64
  aq_ch :: nat
  aq_pc :: ask_pc

datatype reply_pc = RPop u64 proto_message | RSend nat proto_message | RDone

datatype wake_pc = WIdle | WSnap nat "nat list" | WSend "nat list" | WDone

text \<open>The result of \<open>askImpl\<close> for a target that exists.\<close>

fun ask_result :: "(proto_message \<Rightarrow> bool) \<Rightarrow> (proto_message \<Rightarrow> string option) \<Rightarrow> string \<Rightarrow> ask_end \<Rightarrow> err_code + proto_message" where
  "ask_result isT as_error nameT Refused = Inl errSystemStopping"
| "ask_result isT as_error nameT (Received r) = awaitReply isT as_error nameT r"

text \<open>One step of \<open>askImpl\<close>; \<open>timeout\<close>: the timer fired before a reply was taken.\<close>

definition askImpl :: "bool \<Rightarrow> ask_state \<Rightarrow> asker \<Rightarrow> (ask_state \<times> asker) option" where
  "askImpl timeout x a = (case aq_pc a of
      AStart \<Rightarrow> (let (i, x') = nextSnId x in Some (x', a\<lparr>aq_id := i, aq_pc := ANumbered\<rparr>))
    | ANumbered \<Rightarrow> if as_locked x then None else
        (case registerAsk (aq_id a) x of
           (None, x') \<Rightarrow> Some (x', a\<lparr>aq_pc := ADone Refused\<rparr>)
         | (Some ch, x') \<Rightarrow> Some (x', a\<lparr>aq_ch := ch, aq_pc := ASend\<rparr>))
    | ASend \<Rightarrow> Some (x, a\<lparr>aq_pc := AWait\<rparr>)
    | AWait \<Rightarrow> if timeout then Some (x, a\<lparr>aq_pc := ACancel None\<rparr>) else
        (case as_chans x ! aq_ch a of None \<Rightarrow> None
         | Some m \<Rightarrow> Some (x\<lparr>as_chans := (as_chans x)[aq_ch a := None]\<rparr>, a\<lparr>aq_pc := ACancel (Some m)\<rparr>))
    | ACancel r \<Rightarrow> Some (cancelAsk (aq_id a) x, a\<lparr>aq_pc := ADone (Received r)\<rparr>)
    | ADone r \<Rightarrow> None)"

definition reply_step :: "ask_state \<Rightarrow> reply_pc \<Rightarrow> ask_state \<times> reply_pc" where
  "reply_step x r = (case r of
      RPop i m \<Rightarrow> (case reply_pop i m x of (Some ch, x') \<Rightarrow> (x', RSend ch m) | (None, x') \<Rightarrow> (x', RDone))
    | RSend ch m \<Rightarrow> (chan_send ch m x, RDone)
    | RDone \<Rightarrow> (x, RDone))"

definition wake_step :: "ask_state \<Rightarrow> wake_pc \<Rightarrow> ask_state \<times> wake_pc" where
  "wake_step x w = (case w of
      WIdle \<Rightarrow> (x\<lparr>as_closed := True, as_locked := True\<rparr>, WSnap 0 [])
    | WSnap i rs \<Rightarrow> if i < ShardCount then (x, WSnap (Suc i) (rs @ map snd (cm_shards (as_pending x) ! i)))
                    else (x\<lparr>as_locked := False\<rparr>, WSend rs)
    | WSend [] \<Rightarrow> (x, WDone)
    | WSend (ch # rs) \<Rightarrow> (chan_send ch (ErrCodeMsg errSystemStopping) x, WSend rs)
    | WDone \<Rightarrow> (x, WDone))"

type_synonym asks = "ask_state \<times> asker list \<times> reply_pc list \<times> wake_pc"

text \<open>Numbers are drawn for every send, not only for asks; the counter is 64 bits and is not exhausted.\<close>

inductive tstep :: "asks \<Rightarrow> asks \<Rightarrow> bool" where
  new_ask: "tstep (x, as, rs, w) (x, as @ [\<lparr>aq_id = 0, aq_ch = 0, aq_pc = AStart\<rparr>], rs, w)"
| ask: "j < length as \<Longrightarrow> as_count x < 2 ^ 64 - 1 \<Longrightarrow> askImpl timeout x (as ! j) = Some (x', a') \<Longrightarrow>
    tstep (x, as, rs, w) (x', as[j := a'], rs, w)"
| new_reply: "tstep (x, as, rs, w) (x, as, rs @ [RPop i m], w)"
| reply: "j < length rs \<Longrightarrow> reply_step x (rs ! j) = (x', r') \<Longrightarrow> tstep (x, as, rs, w) (x', as, rs[j := r'], w)"
| wake: "wake_step x w = (x', w') \<Longrightarrow> tstep (x, as, rs, w) (x', as, rs, w')"
| other_send: "as_count x < 2 ^ 64 - 1 \<Longrightarrow> tstep (x, as, rs, w) (snd (nextSnId x), as, rs, w)"

definition new_table :: "u64 \<Rightarrow> ask_state" where
  "new_table start = \<lparr>as_askId = start, as_count = 0, as_closed = False, as_locked = False, as_pending = NewIntC,
     as_chans = [], as_owner = [], as_delivered = {}\<rparr>"

inductive treach :: "u64 \<Rightarrow> asks \<Rightarrow> bool" for start where
  init: "treach start (new_table start, [], [], WIdle)"
| step: "treach start p \<Longrightarrow> tstep p p' \<Longrightarrow> treach start p'"

subsection \<open>The table\<close>

lemma pending_Set:
  assumes "cm_wf m"
  shows "cm_wf (snd (cm_Set m k v))" "cm_Get (snd (cm_Set m k v)) = (cm_Get m)(k \<mapsto> v)"
    "shard_index (snd (cm_Set m k v)) = shard_index m"
  using cm_exec_refines [OF assms, of "OSet k v"] by (simp_all add: cm_Set_def Let_def)

lemma pending_Pop:
  assumes "cm_wf m" and "cm_Pop m k = (r, m')"
  shows "cm_wf m'" "cm_Get m' = (cm_Get m)(k := None)" "r = cm_Get m k" "shard_index m' = shard_index m"
  using cm_exec_refines [OF assms(1), of "OPop k"] assms(2) by (auto simp: cm_Pop_def Let_def)

lemma pending_Remove:
  assumes "cm_wf m"
  shows "cm_wf (cm_Remove m k)" "cm_Get (cm_Remove m k) = (cm_Get m)(k := None)" "shard_index (cm_Remove m k) = shard_index m"
  using cm_exec_refines [OF assms, of "ORemove k"] by (simp_all add: cm_Remove_def)

lemma in_shard: "cm_Get m k = Some v \<Longrightarrow> v \<in> set (map snd (cm_shards m ! shard_index m k))"
  by (auto simp: cm_Get_def GetShard_def dest!: map_of_SomeD intro!: image_eqI [of _ snd "(k, v)"])

subsection \<open>Invariants\<close>

fun pc_waiting :: "ask_pc \<Rightarrow> bool" where
  "pc_waiting ASend = True" | "pc_waiting AWait = True" | "pc_waiting _ = False"

fun pc_registered :: "ask_pc \<Rightarrow> bool" where
  "pc_registered ASend = True" | "pc_registered AWait = True" | "pc_registered (ACancel r) = True" | "pc_registered _ = False"

fun got :: "ask_pc \<Rightarrow> proto_message option" where
  "got (ACancel r) = r" | "got (ADone (Received r)) = r" | "got _ = None"

fun wake_list :: "wake_pc \<Rightarrow> nat list" where
  "wake_list (WSnap i rs) = rs" | "wake_list (WSend rs) = rs" | "wake_list _ = []"

abbreviation stopping_msg :: proto_message where "stopping_msg \<equiv> ErrCodeMsg errSystemStopping"

definition legit :: "ask_state \<Rightarrow> u64 \<Rightarrow> proto_message \<Rightarrow> bool" where
  "legit x i m \<longleftrightarrow> m = stopping_msg \<or> (i, m) \<in> as_delivered x"

lemma legit_flags [simp]: "legit (x\<lparr>as_closed := c\<rparr>) = legit x" "legit (x\<lparr>as_locked := l\<rparr>) = legit x"
  by (simp_all add: legit_def fun_eq_iff)

text \<open>Channels belong to one number, and what is in them was meant for it.\<close>

definition inv_chan :: "asks \<Rightarrow> bool" where
  "inv_chan p \<longleftrightarrow> (case p of (x, as, rs, w) \<Rightarrow>
     cm_wf (as_pending x) \<and> length (as_owner x) = length (as_chans x) \<and>
     (\<forall>i ch. cm_Get (as_pending x) i = Some ch \<longrightarrow> ch < length (as_chans x) \<and> as_owner x ! ch = i) \<and>
     (\<forall>a \<in> set as. pc_registered (aq_pc a) \<longrightarrow> aq_ch a < length (as_chans x) \<and> as_owner x ! aq_ch a = aq_id a) \<and>
     (\<forall>ch m. RSend ch m \<in> set rs \<longrightarrow> ch < length (as_chans x) \<and> legit x (as_owner x ! ch) m) \<and>
     (\<forall>ch < length (as_chans x). \<forall>m. as_chans x ! ch = Some m \<longrightarrow> legit x (as_owner x ! ch) m) \<and>
     (\<forall>a \<in> set as. \<forall>m. got (aq_pc a) = Some m \<longrightarrow> legit x (aq_id a) m) \<and>
     (\<forall>ch \<in> set (wake_list w). ch < length (as_chans x)))"

text \<open>Numbers are drawn once.\<close>

definition inv_ids :: "u64 \<Rightarrow> asks \<Rightarrow> bool" where
  "inv_ids start p \<longleftrightarrow> (case p of (x, as, rs, w) \<Rightarrow>
     as_askId x = start + of_nat (as_count x) \<and> as_count x < 2 ^ 64 \<and>
     (\<forall>a \<in> set as. aq_pc a \<noteq> AStart \<longrightarrow> (\<exists>k. 1 \<le> k \<and> k \<le> as_count x \<and> aq_id a = start + of_nat k)) \<and>
     (\<forall>j k. j < length as \<longrightarrow> k < length as \<longrightarrow> aq_pc (as ! j) \<noteq> AStart \<longrightarrow> aq_pc (as ! k) \<noteq> AStart \<longrightarrow>
        aq_id (as ! j) = aq_id (as ! k) \<longrightarrow> j = k))"

text \<open>An entry of the table belongs to an ask that has not ended.\<close>

definition inv_leak :: "asks \<Rightarrow> bool" where
  "inv_leak p \<longleftrightarrow> (case p of (x, as, rs, w) \<Rightarrow>
     (\<forall>i ch. cm_Get (as_pending x) i = Some ch \<longrightarrow> (\<exists>a \<in> set as. pc_registered (aq_pc a) \<and> aq_id a = i \<and> aq_ch a = ch)))"

text \<open>Whoever waits is in the table, has a message, or is about to get one; and the shutdown misses nobody.\<close>

definition served :: "ask_state \<Rightarrow> reply_pc list \<Rightarrow> nat \<Rightarrow> bool" where
  "served x rs ch \<longleftrightarrow> as_chans x ! ch \<noteq> None \<or> (\<exists>m. RSend ch m \<in> set rs)"

definition woken :: "ask_state \<Rightarrow> reply_pc list \<Rightarrow> wake_pc \<Rightarrow> asker \<Rightarrow> bool" where
  "woken x rs w a \<longleftrightarrow> served x rs (aq_ch a) \<or> (case w of
      WIdle \<Rightarrow> cm_Get (as_pending x) (aq_id a) = Some (aq_ch a)
    | WSnap i l \<Rightarrow> cm_Get (as_pending x) (aq_id a) = Some (aq_ch a) \<and>
        (shard_index (as_pending x) (aq_id a) < i \<longrightarrow> aq_ch a \<in> set l)
    | WSend l \<Rightarrow> aq_ch a \<in> set l
    | WDone \<Rightarrow> False)"

definition inv_wake :: "asks \<Rightarrow> bool" where
  "inv_wake p \<longleftrightarrow> (case p of (x, as, rs, w) \<Rightarrow>
     as_locked x = (\<exists>i l. w = WSnap i l) \<and> (w \<noteq> WIdle \<longrightarrow> as_closed x) \<and>
     (\<forall>a \<in> set as. pc_waiting (aq_pc a) \<longrightarrow> woken x rs w a))"

lemma waiting_registered: "pc_waiting pc \<Longrightarrow> pc_registered pc"
  by (cases pc) auto

lemma registered_numbered: "pc_registered pc \<Longrightarrow> pc \<noteq> AStart"
  by (cases pc) auto

lemma set_updateD: "a \<in> set (as[j := a']) \<Longrightarrow> a = a' \<or> a \<in> set as"
  using set_update_subset_insert by fastforce

subsection \<open>Channels\<close>

lemma inv_chan_asker:
  assumes "inv_chan (x, as, rs, w)"
    and "pc_registered (aq_pc a') \<Longrightarrow> aq_ch a' < length (as_chans x) \<and> as_owner x ! aq_ch a' = aq_id a'"
    and "\<And>m. got (aq_pc a') = Some m \<Longrightarrow> legit x (aq_id a') m"
  shows "inv_chan (x, as[j := a'], rs, w)"
  using assms by (auto simp: inv_chan_def dest!: set_updateD)

lemma inv_chan_next: "inv_chan (x, as, rs, w) \<Longrightarrow> inv_chan (snd (nextSnId x), as, rs, w)"
  by (simp add: inv_chan_def nextSnId_def legit_def)

lemma inv_chan_register:
  assumes I: "inv_chan (x, as, rs, w)" and r: "registerAsk i x = (Some ch, x')"
  shows "inv_chan (x', as, rs, w)" "ch < length (as_chans x')" "as_owner x' ! ch = i"
proof -
  have x': "x' = x\<lparr>as_chans := as_chans x @ [None], as_owner := as_owner x @ [i], as_pending := snd (cm_Set (as_pending x) i ch)\<rparr>"
      and ch: "ch = length (as_chans x)"
    using r by (auto simp: registerAsk_def Let_def split: if_splits)
  have wf: "cm_wf (as_pending x)" and len: "length (as_owner x) = length (as_chans x)" using I by (simp_all add: inv_chan_def)
  show "ch < length (as_chans x')" "as_owner x' ! ch = i" using x' ch len by (simp_all add: nth_append)
  have leg: "legit x' = legit x" by (simp add: legit_def x' fun_eq_iff)
  show "inv_chan (x', as, rs, w)"
    using I pending_Set [OF wf, of i ch] len ch unfolding inv_chan_def prod.case leg
    by (auto simp: x' nth_append less_Suc_eq split: if_splits)
qed

lemma inv_chan_send:
  assumes I: "inv_chan (x, as, rs, w)" and "ch < length (as_chans x)" and "legit x (as_owner x ! ch) m"
  shows "inv_chan (chan_send ch m x, as, rs, w)"
proof -
  have "legit (chan_send ch m x) = legit x" by (simp add: legit_def chan_send_def fun_eq_iff)
  then show ?thesis using assms unfolding inv_chan_def prod.case
    by (auto simp: chan_send_def nth_list_update split: if_splits)
qed

lemma inv_chan_take:
  assumes "inv_chan (x, as, rs, w)"
  shows "inv_chan (x\<lparr>as_chans := (as_chans x)[ch := None]\<rparr>, as, rs, w)"
proof -
  have "legit (x\<lparr>as_chans := (as_chans x)[ch := None]\<rparr>) = legit x" by (simp add: legit_def fun_eq_iff)
  moreover have "as_chans x ! c = Some m" if "(as_chans x)[ch := None] ! c = Some m" "c < length (as_chans x)" for c m
    using that by (cases "ch = c") simp_all
  ultimately show ?thesis using assms unfolding inv_chan_def prod.case by auto
qed

lemma inv_chan_cancel:
  assumes "inv_chan (x, as, rs, w)"
  shows "inv_chan (cancelAsk i x, as, rs, w)"
proof -
  have "cm_wf (as_pending x)" using assms by (simp add: inv_chan_def)
  note P = pending_Remove [OF this, of i]
  have "legit (cancelAsk i x) = legit x" by (simp add: legit_def cancelAsk_def fun_eq_iff)
  then show ?thesis using assms P unfolding inv_chan_def prod.case by (auto simp: cancelAsk_def split: if_splits)
qed

lemma inv_chan_pop:
  assumes I: "inv_chan (x, as, rs, w)" and p: "reply_pop i m x = (r, x')"
  shows "inv_chan (x', as, rs, w)" "r = Some ch \<Longrightarrow> ch < length (as_chans x') \<and> legit x' (as_owner x' ! ch) m"
proof -
  obtain r0 m' where q: "cm_Pop (as_pending x) i = (r0, m')" by fastforce
  have wf: "cm_wf (as_pending x)" using I by (simp add: inv_chan_def)
  note P = pending_Pop [OF wf q]
  have x': "r = r0" "x' = (case r0 of Some ch \<Rightarrow> x\<lparr>as_pending := m', as_delivered := insert (i, m) (as_delivered x)\<rparr> | None \<Rightarrow> x\<lparr>as_pending := m'\<rparr>)"
    using p q by (auto simp: reply_pop_def split: option.splits)
  have leg: "legit x j k \<Longrightarrow> legit x' j k" for j k by (auto simp: legit_def x' split: option.splits)
  have sh: "as_chans x' = as_chans x" "as_owner x' = as_owner x" "as_pending x' = m'" by (auto simp: x' split: option.splits)
  show "inv_chan (x', as, rs, w)" using I P(1,2) leg unfolding inv_chan_def prod.case sh by (auto split: if_splits)
  show "ch < length (as_chans x') \<and> legit x' (as_owner x' ! ch) m" if "r = Some ch"
  proof -
    have g: "cm_Get (as_pending x) i = Some ch" using that P(3) x'(1) by simp
    then have "ch < length (as_chans x) \<and> as_owner x ! ch = i" using I by (simp add: inv_chan_def)
    then show ?thesis using that x' unfolding sh by (simp add: legit_def)
  qed
qed

lemma inv_chan_replier:
  assumes "inv_chan (x, as, rs, w)" and "\<And>ch m. r' = RSend ch m \<Longrightarrow> ch < length (as_chans x) \<and> legit x (as_owner x ! ch) m"
  shows "inv_chan (x, as, rs[j := r'], w)"
  using assms by (auto simp: inv_chan_def dest!: set_updateD)

lemma inv_chanD:
  assumes "inv_chan (x, as, rs, w)"
  shows "cm_wf (as_pending x)"
    and "cm_Get (as_pending x) i = Some ch \<Longrightarrow> ch < length (as_chans x)" "cm_Get (as_pending x) i = Some ch \<Longrightarrow> as_owner x ! ch = i"
    and "a \<in> set as \<Longrightarrow> pc_registered (aq_pc a) \<Longrightarrow> aq_ch a < length (as_chans x)"
    and "a \<in> set as \<Longrightarrow> pc_registered (aq_pc a) \<Longrightarrow> as_owner x ! aq_ch a = aq_id a"
    and "RSend ch m \<in> set rs \<Longrightarrow> ch < length (as_chans x) \<and> legit x (as_owner x ! ch) m"
    and "ch < length (as_chans x) \<Longrightarrow> as_chans x ! ch = Some m \<Longrightarrow> legit x (as_owner x ! ch) m"
    and "a \<in> set as \<Longrightarrow> got (aq_pc a) = Some m \<Longrightarrow> legit x (aq_id a) m"
    and "ch \<in> set (wake_list w) \<Longrightarrow> ch < length (as_chans x)"
  using assms by (auto simp: inv_chan_def)

lemma inv_chan_ask_step:
  assumes I: "inv_chan (x, as, rs, w)" and j: "j < length as" and st: "askImpl timeout x (as ! j) = Some (x', a')"
  shows "inv_chan (x', as[j := a'], rs, w)"
proof (cases "aq_pc (as ! j)")
  case AStart
  then show ?thesis using st inv_chan_asker [OF inv_chan_next [OF I], of a'] by (auto simp: askImpl_def nextSnId_def)
next
  case ANumbered
  obtain r x1 where g: "registerAsk (aq_id (as ! j)) x = (r, x1)" by fastforce
  show ?thesis
  proof (cases r)
    case None
    then have "x' = x" "a' = (as ! j)\<lparr>aq_pc := ADone Refused\<rparr>"
      using st g ANumbered by (auto simp: askImpl_def registerAsk_def Let_def split: if_splits)
    then show ?thesis using inv_chan_asker [OF I, of a'] by simp
  next
    case (Some ch)
    then have e: "x' = x1" "a' = (as ! j)\<lparr>aq_ch := ch, aq_pc := ASend\<rparr>"
      using st g ANumbered by (auto simp: askImpl_def split: if_splits)
    note R = inv_chan_register [OF I g [unfolded Some]]
    show ?thesis unfolding e(1) by (rule inv_chan_asker [OF R(1)]) (use R(2,3) e(2) in auto)
  qed
next
  case ASend
  then show ?thesis using st inv_chan_asker [OF I, of a'] inv_chanD(4,5) [OF I nth_mem [OF j]] by (auto simp: askImpl_def)
next
  case AWait
  note R = inv_chanD(4,5) [OF I nth_mem [OF j]]
  show ?thesis
  proof (cases timeout)
    case True
    then show ?thesis using st AWait R inv_chan_asker [OF I, of a'] by (auto simp: askImpl_def)
  next
    case False
    then obtain m where m: "as_chans x ! aq_ch (as ! j) = Some m" "x' = x\<lparr>as_chans := (as_chans x)[aq_ch (as ! j) := None]\<rparr>"
        "a' = (as ! j)\<lparr>aq_pc := ACancel (Some m)\<rparr>"
      using st AWait by (auto simp: askImpl_def split: option.splits)
    have "legit x (aq_id (as ! j)) m" using inv_chanD(7) [OF I _ m(1)] R AWait by simp
    then show ?thesis unfolding m(2) using R AWait m(3)
      by (intro inv_chan_asker [OF inv_chan_take [OF I]]) (auto simp: legit_def)
  qed
next
  case (ACancel r)
  then have e: "x' = cancelAsk (aq_id (as ! j)) x" "a' = (as ! j)\<lparr>aq_pc := ADone (Received r)\<rparr>" using st by (auto simp: askImpl_def)
  show ?thesis unfolding e(1)
    by (rule inv_chan_asker [OF inv_chan_cancel [OF I]])
      (use e(2) inv_chanD(8) [OF I nth_mem [OF j]] ACancel in \<open>auto simp: legit_def cancelAsk_def\<close>)
next
  case (ADone r)
  then show ?thesis using st by (simp add: askImpl_def)
qed

lemma inv_chan_reply_step:
  assumes I: "inv_chan (x, as, rs, w)" and j: "j < length rs" and st: "reply_step x (rs ! j) = (x', r')"
  shows "inv_chan (x', as, rs[j := r'], w)"
proof (cases "rs ! j")
  case (RPop i m)
  obtain r x1 where p: "reply_pop i m x = (r, x1)" by fastforce
  then show ?thesis using st j RPop inv_chan_replier [OF inv_chan_pop(1) [OF I p]] inv_chan_pop(2) [OF I p]
    by (auto simp: reply_step_def split: option.splits)
next
  case (RSend ch m)
  then have "RSend ch m \<in> set rs" using nth_mem [OF j] by simp
  from inv_chanD(6) [OF I this] show ?thesis
    using st j RSend inv_chan_replier [OF inv_chan_send [OF I, of ch m], of r'] by (auto simp: reply_step_def)
next
  case RDone
  then show ?thesis using st j inv_chan_replier [OF I, of r'] by (auto simp: reply_step_def)
qed

lemma inv_chan_wake_step:
  assumes I: "inv_chan (x, as, rs, w)" and st: "wake_step x w = (x', w')"
  shows "inv_chan (x', as, rs, w')"
proof (cases w)
  case WIdle
  then show ?thesis using st I by (auto simp: wake_step_def inv_chan_def)
next
  case (WSnap i l)
  have "ch < length (as_chans x)" if c: "i < ShardCount" "ch \<in> set (map snd (cm_shards (as_pending x) ! i))" for ch
  proof -
    obtain k where "(k, ch) \<in> set (cm_shards (as_pending x) ! i)" using c(2) by auto
    then have "cm_Get (as_pending x) k = Some ch"
      using inv_chanD(1) [OF I] c(1) by (force simp: cm_wf_def cm_Get_def GetShard_def)
    then show ?thesis by (rule inv_chanD(2) [OF I])
  qed
  then show ?thesis using st I WSnap by (auto simp: wake_step_def inv_chan_def split: if_splits)
next
  case (WSend l)
  show ?thesis
  proof (cases l)
    case Nil
    then show ?thesis using st I WSend by (auto simp: wake_step_def inv_chan_def)
  next
    case (Cons ch l')
    have "inv_chan (chan_send ch stopping_msg x, as, rs, w)"
      using inv_chan_send [OF I] inv_chanD(9) [OF I, of ch] WSend Cons by (simp add: legit_def)
    then show ?thesis using st WSend Cons by (auto simp: wake_step_def inv_chan_def)
  qed
next
  case WDone
  then show ?thesis using st I by (auto simp: wake_step_def)
qed

lemma inv_chan_step:
  assumes "tstep p p'" and "inv_chan p"
  shows "inv_chan p'"
  using assms(1)
proof cases
  case (new_ask x as rs w)
  then show ?thesis using assms(2) by (auto simp: inv_chan_def)
next
  case (ask j as x timeout x' a' rs w)
  then show ?thesis using inv_chan_ask_step assms(2) by blast
next
  case (new_reply x as rs w i m)
  then show ?thesis using assms(2) by (auto simp: inv_chan_def)
next
  case (reply j rs x x' r' as w)
  have I: "inv_chan (x, as, rs, w)" using assms(2) reply(1) by simp
  show ?thesis unfolding reply(2) by (rule inv_chan_reply_step [OF I reply(3,4)])
next
  case (wake x w x' w' as rs)
  have I: "inv_chan (x, as, rs, w)" using assms(2) wake(1) by simp
  show ?thesis unfolding wake(2) by (rule inv_chan_wake_step [OF I wake(3)])
next
  case (other_send x as rs w)
  then show ?thesis using inv_chan_next assms(2) by blast
qed

subsection \<open>Numbers and entries\<close>

lemma number_fresh:
  assumes "1 \<le> k" "k \<le> n" "n + 1 < 2 ^ 64"
  shows "start + of_nat k \<noteq> start + of_nat n + (1 :: u64)"
proof
  assume "start + of_nat k = start + of_nat n + (1 :: u64)"
  then have "(of_nat k :: u64) = of_nat (n + 1)" by (simp add: ac_simps)
  then have "unat (of_nat k :: u64) = unat (of_nat (n + 1) :: u64)" by simp
  moreover have u: "unat (of_nat c :: u64) = c" if "c < 2 ^ 64" for c
    using that by (simp add: unsigned_of_nat take_bit_nat_eq_self)
  have "k < 2 ^ 64" using assms by linarith
  ultimately have "k = n + 1" using u [of k] u [OF assms(3)] by argo
  then show False using assms(2) by simp
qed

lemma inv_ids_ask_step:
  assumes I: "inv_ids start (x, as, rs, w)" and j: "j < length as" and cnt: "as_count x < 2 ^ 64 - 1" and st: "askImpl timeout x (as ! j) = Some (x', a')"
  shows "inv_ids start (x', as[j := a'], rs, w)"
proof (cases "aq_pc (as ! j) = AStart")
  case True
  have e: "as_askId x' = start + of_nat (as_count x) + 1" "as_count x' = as_count x + 1" "aq_id a' = start + of_nat (as_count x) + 1" "aq_pc a' = ANumbered"
    using st True I by (auto simp: askImpl_def nextSnId_def inv_ids_def)
  have "aq_id (as ! k) \<noteq> aq_id a'" if k: "k < length as" "aq_pc (as ! k) \<noteq> AStart" for k
  proof -
    obtain c where "1 \<le> c" "c \<le> as_count x" "aq_id (as ! k) = start + of_nat c"
      using I k nth_mem [OF k(1)] unfolding inv_ids_def prod.case by blast
    then show ?thesis using number_fresh [of c "as_count x" start] cnt e(3) by simp
  qed
  moreover have "\<exists>k. 1 \<le> k \<and> k \<le> as_count x' \<and> aq_id a = start + of_nat k" if a: "a \<in> set (as[j := a'])" "aq_pc a \<noteq> AStart" for a
  proof -
    consider "a = a'" | "a \<in> set as" using set_updateD [OF a(1)] by blast
    then show ?thesis
    proof cases
      case 1
      then show ?thesis using e by (intro exI [of _ "as_count x + 1"]) (simp add: ac_simps)
    next
      case 2
      then obtain k where "1 \<le> k" "k \<le> as_count x" "aq_id a = start + of_nat k" using I a(2) unfolding inv_ids_def by auto
      then show ?thesis using e(2) by (intro exI [of _ k]) simp
    qed
  qed
  ultimately show ?thesis using I e j cnt by (auto simp: inv_ids_def nth_list_update ac_simps)
next
  case False
  then have "aq_id a' = aq_id (as ! j)" "as_askId x' = as_askId x" "as_count x' = as_count x" "aq_pc a' \<noteq> AStart"
    using st by (auto simp: askImpl_def registerAsk_def cancelAsk_def Let_def split: ask_pc.splits if_splits option.splits)
  then show ?thesis using I j False nth_mem [OF j]
    by (auto simp: inv_ids_def nth_list_update dest!: set_updateD)
qed

lemma inv_ids_step:
  assumes "tstep p p'" and "inv_ids start p"
  shows "inv_ids start p'"
  using assms(1)
proof cases
  case (new_ask x as rs w)
  then show ?thesis using assms(2) by (auto simp: inv_ids_def nth_append less_Suc_eq)
next
  case (ask j as x timeout x' a' rs w)
  have I: "inv_ids start (x, as, rs, w)" using assms(2) ask(1) by simp
  show ?thesis unfolding ask(2) by (rule inv_ids_ask_step [OF I ask(3-5)])
next
  case (new_reply x as rs w i m)
  then show ?thesis using assms(2) by (simp add: inv_ids_def)
next
  case (reply j rs x x' r' as w)
  then have "as_askId x' = as_askId x \<and> as_count x' = as_count x"
    by (auto simp: reply_step_def reply_pop_def chan_send_def split: reply_pc.splits prod.splits option.splits if_splits)
  then show ?thesis using assms(2) reply by (simp add: inv_ids_def)
next
  case (wake x w x' w' as rs)
  then have "as_askId x' = as_askId x \<and> as_count x' = as_count x"
    by (auto simp: wake_step_def chan_send_def split: wake_pc.splits list.splits if_splits)
  then show ?thesis using assms(2) wake by (simp add: inv_ids_def)
next
  case (other_send x as rs w)
  have "1 \<le> k \<and> k \<le> n \<Longrightarrow> k \<le> Suc n" for k n :: nat by simp
  then show ?thesis using assms(2) other_send by (auto simp: inv_ids_def nextSnId_def ac_simps) (metis le_SucI)
qed

lemma inv_leak_asker:
  assumes "inv_leak (x, as, rs, w)" and j: "j < length as"
    and "pc_registered (aq_pc (as ! j)) \<Longrightarrow> cm_Get (as_pending x') (aq_id (as ! j)) = None \<or>
       pc_registered (aq_pc a') \<and> aq_id a' = aq_id (as ! j) \<and> aq_ch a' = aq_ch (as ! j)"
    and "\<And>i ch. cm_Get (as_pending x') i = Some ch \<Longrightarrow> cm_Get (as_pending x) i = Some ch \<or>
       pc_registered (aq_pc a') \<and> aq_id a' = i \<and> aq_ch a' = ch"
  shows "inv_leak (x', as[j := a'], rs, w)"
  unfolding inv_leak_def prod.case
proof (intro allI impI)
  fix i ch assume g: "cm_Get (as_pending x') i = Some ch"
  have new: "a' \<in> set (as[j := a'])" using j by (simp add: set_update_memI)
  show "\<exists>a \<in> set (as[j := a']). pc_registered (aq_pc a) \<and> aq_id a = i \<and> aq_ch a = ch"
  proof (cases "pc_registered (aq_pc a') \<and> aq_id a' = i \<and> aq_ch a' = ch")
    case True
    then show ?thesis using new by blast
  next
    case False
    then obtain b where b: "b \<in> set as" "pc_registered (aq_pc b)" "aq_id b = i" "aq_ch b = ch"
      using assms(1,4) g unfolding inv_leak_def prod.case by blast
    then obtain k where k: "k < length as" "b = as ! k" by (auto simp: in_set_conv_nth)
    have "k \<noteq> j" using assms(3) b k g False by auto
    then have "b \<in> set (as[j := a'])" using k by (metis length_list_update nth_list_update_neq nth_mem)
    then show ?thesis using b by blast
  qed
qed

lemma inv_leak_ask_step:
  assumes L: "inv_leak (x, as, rs, w)" and wf: "cm_wf (as_pending x)" and j: "j < length as"
    and st: "askImpl timeout x (as ! j) = Some (x', a')"
  shows "inv_leak (x', as[j := a'], rs, w)"
proof (cases "aq_pc (as ! j)")
  case ANumbered
  show ?thesis using st ANumbered pending_Set [OF wf]
    by (intro inv_leak_asker [OF L j]) (auto simp: askImpl_def registerAsk_def Let_def split: if_splits)
next
  case (ACancel r)
  show ?thesis using st ACancel pending_Remove [OF wf]
    by (intro inv_leak_asker [OF L j]) (auto simp: askImpl_def cancelAsk_def split: if_splits)
qed (use st in \<open>auto simp: askImpl_def nextSnId_def split: if_splits option.splits intro!: inv_leak_asker [OF L j]\<close>)

lemma inv_leak_step:
  assumes "tstep p p'" and "inv_leak p" and "inv_chan p"
  shows "inv_leak p'"
  using assms(1)
proof cases
  case (new_ask x as rs w)
  then show ?thesis using assms(2) by (fastforce simp: inv_leak_def)
next
  case (ask j as x timeout x' a' rs w)
  then show ?thesis using inv_leak_ask_step [of x as rs w j timeout x' a'] assms(2,3) by (simp add: inv_chan_def)
next
  case (new_reply x as rs w i m)
  then show ?thesis using assms(2) by (simp add: inv_leak_def)
next
  case (reply j rs x x' r' as w)
  have wf: "cm_wf (as_pending x)" using assms(3) reply(1) by (simp add: inv_chan_def)
  have "cm_Get (as_pending x') i = Some ch \<Longrightarrow> cm_Get (as_pending x) i = Some ch" for i ch
    using reply(4) pending_Pop [OF wf]
    by (auto simp: reply_step_def reply_pop_def chan_send_def split: reply_pc.splits prod.splits option.splits if_splits)
  then show ?thesis using assms(2) reply by (auto simp: inv_leak_def)
next
  case (wake x w x' w' as rs)
  then have "as_pending x' = as_pending x"
    by (auto simp: wake_step_def chan_send_def split: wake_pc.splits list.splits if_splits)
  then show ?thesis using assms(2) wake by (simp add: inv_leak_def)
next
  case (other_send x as rs w)
  then show ?thesis using assms(2) by (simp add: inv_leak_def nextSnId_def)
qed

subsection \<open>Waiters\<close>

text \<open>A waiter keeps its place when its channel stays filled and its entry is kept.\<close>

lemma woken_keep:
  assumes "woken x rs w a" and "served x rs (aq_ch a) \<Longrightarrow> served x' rs' (aq_ch a)"
    and "cm_Get (as_pending x) (aq_id a) = Some (aq_ch a) \<Longrightarrow>
       served x' rs' (aq_ch a) \<or> cm_Get (as_pending x') (aq_id a) = Some (aq_ch a)"
    and "shard_index (as_pending x') = shard_index (as_pending x)"
  shows "woken x' rs' w a"
  using assms by (auto simp: woken_def split: wake_pc.splits)

lemma woken_pc [simp]: "woken x rs w (a\<lparr>aq_pc := pc\<rparr>) = woken x rs w a"
  by (cases w) (simp_all add: woken_def)

lemma others_differ:
  assumes C: "inv_chan (x, as, rs, w)" and D: "inv_ids start (x, as, rs, w)" and j: "j < length as" and k: "k < length as" "k \<noteq> j"
    and pc: "aq_pc (as ! j) \<noteq> AStart" "pc_waiting (aq_pc (as ! k))"
  shows "aq_id (as ! k) \<noteq> aq_id (as ! j)" "pc_registered (aq_pc (as ! j)) \<Longrightarrow> aq_ch (as ! k) \<noteq> aq_ch (as ! j)"
proof -
  have "aq_pc (as ! k) \<noteq> AStart" using pc(2) by auto
  then show n: "aq_id (as ! k) \<noteq> aq_id (as ! j)" using D j k pc(1) unfolding inv_ids_def prod.case by blast
  show "aq_ch (as ! k) \<noteq> aq_ch (as ! j)" if "pc_registered (aq_pc (as ! j))"
    using n inv_chanD(5) [OF C nth_mem [OF j] that] inv_chanD(5) [OF C nth_mem [OF k(1)] waiting_registered [OF pc(2)]] by auto
qed

lemma inv_wake_asker:
  assumes W: "inv_wake (x, as, rs, w)" and f: "as_locked x' = as_locked x" "as_closed x' = as_closed x"
    and own: "pc_waiting (aq_pc a') \<Longrightarrow> woken x' rs w a'"
    and others: "\<And>k. k < length as \<Longrightarrow> k \<noteq> j \<Longrightarrow> pc_waiting (aq_pc (as ! k)) \<Longrightarrow> woken x rs w (as ! k) \<Longrightarrow> woken x' rs w (as ! k)"
  shows "inv_wake (x', as[j := a'], rs, w)"
proof -
  have "woken x' rs w a" if a: "a \<in> set (as[j := a'])" "pc_waiting (aq_pc a)" for a
  proof -
    obtain k where k: "k < length as" "a = as[j := a'] ! k" using a(1) by (auto simp: in_set_conv_nth)
    then show ?thesis using own others [OF k(1)] a(2) W nth_mem [OF k(1)]
      by (cases "k = j") (auto simp: inv_wake_def)
  qed
  then show ?thesis using W f by (simp add: inv_wake_def)
qed

lemma inv_wake_register:
  assumes W: "inv_wake (x, as, rs, w)" and C: "inv_chan (x, as, rs, w)" and D: "inv_ids start (x, as, rs, w)"
    and j: "j < length as" and st: "askImpl timeout x (as ! j) = Some (x', a')" and ANumbered: "aq_pc (as ! j) = ANumbered"
  shows "inv_wake (x', as[j := a'], rs, w)"
proof (cases "as_closed x")
  case True
  then show ?thesis using st ANumbered by (intro inv_wake_asker [OF W]) (auto simp: askImpl_def registerAsk_def split: if_splits)
next
  case False
  then have w: "w = WIdle" using W by (auto simp: inv_wake_def)
  let ?i = "aq_id (as ! j)" and ?ch = "length (as_chans x)"
  have e: "x' = x\<lparr>as_chans := as_chans x @ [None], as_owner := as_owner x @ [?i], as_pending := snd (cm_Set (as_pending x) ?i ?ch)\<rparr>"
      "a' = (as ! j)\<lparr>aq_ch := ?ch, aq_pc := ASend\<rparr>"
    using st ANumbered False by (auto simp: askImpl_def registerAsk_def Let_def split: if_splits)
  note P = pending_Set [OF inv_chanD(1) [OF C], of ?i ?ch]
  show ?thesis
  proof (rule inv_wake_asker [OF W])
    fix k assume k: "k < length as" "k \<noteq> j" "pc_waiting (aq_pc (as ! k))" "woken x rs w (as ! k)"
    have "aq_id (as ! k) \<noteq> ?i" using others_differ(1) [OF C D j k(1,2) _ k(3)] ANumbered by simp
    moreover have "aq_ch (as ! k) < ?ch" using inv_chanD(4) [OF C nth_mem [OF k(1)] waiting_registered [OF k(3)]] .
    ultimately show "woken x' rs w (as ! k)"
      by (intro woken_keep [OF k(4)]) (auto simp: e P served_def nth_append)
  qed (use e P w in \<open>auto simp: woken_def\<close>)
qed

lemma inv_wake_ask_step:
  assumes W: "inv_wake (x, as, rs, w)" and C: "inv_chan (x, as, rs, w)" and D: "inv_ids start (x, as, rs, w)"
    and j: "j < length as" and st: "askImpl timeout x (as ! j) = Some (x', a')"
  shows "inv_wake (x', as[j := a'], rs, w)"
proof (cases "aq_pc (as ! j)")
  case AStart
  then have e: "x' = x\<lparr>as_askId := as_askId x + 1, as_count := as_count x + 1\<rparr>" "aq_pc a' = ANumbered"
    using st by (auto simp: askImpl_def nextSnId_def)
  show ?thesis
  proof (rule inv_wake_asker [OF W])
    fix k assume "woken x rs w (as ! k)"
    then show "woken x' rs w (as ! k)" by (rule woken_keep) (simp_all add: e served_def)
  qed (simp_all add: e)
next
  case ANumbered
  then show ?thesis by (rule inv_wake_register [OF W C D j st])
next
  case ASend
  have "woken x rs w (as ! j)" using W nth_mem [OF j] ASend unfolding inv_wake_def by simp
  then show ?thesis using st ASend by (intro inv_wake_asker [OF W]) (auto simp: askImpl_def)
next
  case AWait
  show ?thesis
  proof (rule inv_wake_asker [OF W])
    fix k assume k: "k < length as" "k \<noteq> j" "pc_waiting (aq_pc (as ! k))" "woken x rs w (as ! k)"
    have "aq_ch (as ! k) \<noteq> aq_ch (as ! j)" using others_differ(2) [OF C D j k(1,2) _ k(3)] AWait by simp
    then show "woken x' rs w (as ! k)" using st AWait
      by (intro woken_keep [OF k(4)]) (auto simp: askImpl_def served_def split: if_splits option.splits)
  qed (use st AWait in \<open>auto simp: askImpl_def split: if_splits option.splits\<close>)
next
  case (ACancel r)
  note P = pending_Remove [OF inv_chanD(1) [OF C], of "aq_id (as ! j)"]
  show ?thesis
  proof (rule inv_wake_asker [OF W])
    fix k assume k: "k < length as" "k \<noteq> j" "pc_waiting (aq_pc (as ! k))" "woken x rs w (as ! k)"
    have "aq_id (as ! k) \<noteq> aq_id (as ! j)" using others_differ(1) [OF C D j k(1,2) _ k(3)] ACancel by simp
    then show "woken x' rs w (as ! k)" using st ACancel P
      by (intro woken_keep [OF k(4)]) (auto simp: askImpl_def cancelAsk_def served_def)
  qed (use st ACancel in \<open>auto simp: askImpl_def cancelAsk_def\<close>)
next
  case (ADone r)
  then show ?thesis using st by (simp add: askImpl_def)
qed

lemma inv_wake_rest:
  assumes "inv_wake (x, as, rs, w)" "as_locked x' = as_locked x" "as_closed x' = as_closed x"
    and "\<And>a. a \<in> set as \<Longrightarrow> pc_waiting (aq_pc a) \<Longrightarrow> woken x rs w a \<Longrightarrow> woken x' rs' w a"
  shows "inv_wake (x', as, rs', w)"
  using assms by (auto simp: inv_wake_def)

lemma chan_send_served:
  assumes "ch < length (as_chans x)"
  shows "served (chan_send ch m x) rs ch" "served x rs c \<Longrightarrow> served (chan_send ch m x) rs c"
  using assms by (auto simp: served_def chan_send_def nth_list_update)

lemma chan_send_frame [simp]: "as_pending (chan_send ch m x) = as_pending x" "as_locked (chan_send ch m x) = as_locked x"
    "as_closed (chan_send ch m x) = as_closed x"
  by (simp_all add: chan_send_def)

lemma inv_wake_pop:
  assumes W: "inv_wake (x, as, rs, w)" and C: "inv_chan (x, as, rs, w)" and j: "j < length rs"
    and st: "reply_step x (rs ! j) = (x', r')" and RPop: "rs ! j = RPop i m"
  shows "inv_wake (x', as, rs[j := r'], w)"
proof -
  obtain r0 m' where q: "cm_Pop (as_pending x) i = (r0, m')" by fastforce
  note P = pending_Pop [OF inv_chanD(1) [OF C] q]
  have x': "as_chans x' = as_chans x" "as_pending x' = m'" "as_locked x' = as_locked x" "as_closed x' = as_closed x"
      "r' = (case r0 of Some ch \<Rightarrow> RSend ch m | None \<Rightarrow> RDone)"
    using st RPop q by (auto simp: reply_step_def reply_pop_def split: option.splits)
  have keep: "RSend c k \<in> set rs \<Longrightarrow> RSend c k \<in> set (rs[j := r'])" for c k
    using RPop j by (metis in_set_conv_nth length_list_update nth_list_update_neq reply_pc.distinct(1))
  have new: "r' \<in> set (rs[j := r'])" using j by (simp add: set_update_memI)
  show ?thesis
  proof (rule inv_wake_rest [OF W x'(3,4)])
    fix a assume a: "woken x rs w a"
    show "woken x' (rs[j := r']) w a"
    proof (rule woken_keep [OF a])
      show "served x' (rs[j := r']) (aq_ch a)" if "served x rs (aq_ch a)" using that keep x'(1) by (auto simp: served_def)
      show "served x' (rs[j := r']) (aq_ch a) \<or> cm_Get (as_pending x') (aq_id a) = Some (aq_ch a)"
        if g: "cm_Get (as_pending x) (aq_id a) = Some (aq_ch a)"
      proof (cases "aq_id a = i")
        case True
        then have "r' = RSend (aq_ch a) m" using g P(3) x'(5) by simp
        then show ?thesis using new by (auto simp: served_def)
      next
        case False
        then show ?thesis using g P(2) x'(2) by simp
      qed
    qed (use P(4) x'(2) in simp)
  qed
qed

lemma inv_wake_send:
  assumes W: "inv_wake (x, as, rs, w)" and C: "inv_chan (x, as, rs, w)" and j: "j < length rs"
    and st: "reply_step x (rs ! j) = (x', r')" and RSend: "rs ! j = RSend ch m"
  shows "inv_wake (x', as, rs[j := r'], w)"
proof -
  have ch: "ch < length (as_chans x)" using inv_chanD(6) [OF C, of ch m] nth_mem [OF j] RSend by simp
  have e: "x' = chan_send ch m x" "r' = RDone" using st RSend by (simp_all add: reply_step_def)
  have s: "served x' (rs[j := r']) c" if c: "served x rs c" for c
  proof (cases "c = ch")
    case True
    then show ?thesis using chan_send_served(1) [OF ch] e by simp
  next
    case False
    then have "RSend c k \<in> set rs \<Longrightarrow> RSend c k \<in> set (rs[j := r'])" for k
      using RSend by (metis in_set_conv_nth length_list_update nth_list_update_neq reply_pc.inject(2))
    moreover have "served x' rs c" using chan_send_served(2) [OF ch c] e(1) by simp
    ultimately show ?thesis by (auto simp: served_def)
  qed
  show ?thesis
  proof (rule inv_wake_rest [OF W])
    fix a assume "woken x rs w a"
    then show "woken x' (rs[j := r']) w a" by (rule woken_keep) (use s e(1) in simp_all)
  qed (simp_all add: e(1))
qed

lemma inv_wake_reply_step:
  assumes W: "inv_wake (x, as, rs, w)" and C: "inv_chan (x, as, rs, w)" and j: "j < length rs"
    and st: "reply_step x (rs ! j) = (x', r')"
  shows "inv_wake (x', as, rs[j := r'], w)"
proof (cases "rs ! j")
  case (RPop i m)
  then show ?thesis by (rule inv_wake_pop [OF W C j st])
next
  case (RSend ch m)
  then show ?thesis by (rule inv_wake_send [OF W C j st])
next
  case RDone
  then have "x' = x" "r' = rs ! j" using st by (simp_all add: reply_step_def)
  then show ?thesis using W by simp
qed

lemma inv_wake_wake_step:
  assumes W: "inv_wake (x, as, rs, w)" and C: "inv_chan (x, as, rs, w)" and st: "wake_step x w = (x', w')"
  shows "inv_wake (x', as, rs, w')"
proof (cases w)
  case WIdle
  then show ?thesis using st W by (auto simp: wake_step_def inv_wake_def woken_def served_def)
next
  case (WSnap i l)
  show ?thesis
  proof (cases "i < ShardCount")
    case True
    then have e: "x' = x" "w' = WSnap (Suc i) (l @ map snd (cm_shards (as_pending x) ! i))"
      using st WSnap by (auto simp: wake_step_def)
    have "woken x' rs w' a" if "woken x rs w a" for a
      using that WSnap in_shard [of "as_pending x" "aq_id a" "aq_ch a"] unfolding e by (auto simp: woken_def less_Suc_eq)
    then show ?thesis using W e WSnap by (auto simp: inv_wake_def)
  next
    case False
    then have e: "x' = x\<lparr>as_locked := False\<rparr>" "w' = WSend l" using st WSnap by (auto simp: wake_step_def)
    have "woken x' rs w' a" if "woken x rs w a" for a
    proof -
      have "shard_index (as_pending x) (aq_id a) < i" using shard_index_less [of "as_pending x" "aq_id a"] False by linarith
      then show ?thesis using that WSnap unfolding e by (auto simp: woken_def served_def)
    qed
    then show ?thesis using W e WSnap by (auto simp: inv_wake_def)
  qed
next
  case (WSend l)
  show ?thesis
  proof (cases l)
    case Nil
    then show ?thesis using st WSend W by (auto simp: wake_step_def inv_wake_def woken_def)
  next
    case (Cons ch l')
    have ch: "ch < length (as_chans x)" using inv_chanD(9) [OF C, of ch] WSend Cons by simp
    have e: "x' = chan_send ch stopping_msg x" "w' = WSend l'" using st WSend Cons by (auto simp: wake_step_def)
    have "woken x' rs w' a" if "woken x rs w a" for a
      using that WSend Cons chan_send_served(1) [OF ch, of stopping_msg rs] chan_send_served(2) [OF ch, of rs "aq_ch a" stopping_msg]
      unfolding e by (auto simp: woken_def)
    then show ?thesis using W e WSend by (auto simp: inv_wake_def)
  qed
next
  case WDone
  then show ?thesis using st W by (auto simp: wake_step_def)
qed

lemma inv_wake_step:
  assumes "tstep p p'" and "inv_wake p" and "inv_chan p" and "inv_ids start p"
  shows "inv_wake p'"
  using assms(1)
proof cases
  case (new_ask x as rs w)
  then show ?thesis using assms(2) by (auto simp: inv_wake_def)
next
  case (ask j as x timeout x' a' rs w)
  then show ?thesis using inv_wake_ask_step [of x as rs w start j timeout x' a'] assms(2-4) by simp
next
  case (new_reply x as rs w i m)
  have "woken x (rs @ [RPop i m]) w a" if "woken x rs w a" for a
    using that by (rule woken_keep) (auto simp: served_def)
  then show ?thesis using assms(2) new_reply by (auto simp: inv_wake_def)
next
  case (reply j rs x x' r' as w)
  then show ?thesis using inv_wake_reply_step [of x as rs w j x' r'] assms(2,3) by simp
next
  case (wake x w x' w' as rs)
  then show ?thesis using inv_wake_wake_step [of x as rs w x' w'] assms(2,3) by simp
next
  case (other_send x as rs w)
  have "woken (snd (nextSnId x)) rs w a" if "woken x rs w a" for a
    using that by (rule woken_keep) (simp_all add: nextSnId_def served_def)
  then show ?thesis using assms(2) other_send by (auto simp: inv_wake_def nextSnId_def)
qed

lemma treach_inv:
  assumes "treach start p"
  shows "inv_chan p \<and> inv_ids start p \<and> inv_leak p \<and> inv_wake p"
  using assms
proof (induction rule: treach.induct)
  case init
  have "cm_wf NewIntC" "\<forall>i. cm_Get NewIntC i = None" by (simp_all add: NewIntC_def cm_create_wf)
  then show ?case by (simp add: new_table_def inv_chan_def inv_ids_def inv_leak_def inv_wake_def)
next
  case (step p p')
  then show ?case using inv_chan_step inv_ids_step inv_leak_step inv_wake_step by blast
qed

subsection \<open>The operations in one go\<close>

lemma deliverReply_steps:
  "reply_step x (RPop i m) = (x1, r1) \<Longrightarrow> reply_step x1 r1 = (deliverReply i m x, RDone)"
  by (auto simp: reply_step_def deliverReply_def split: prod.splits option.splits)

fun wake_n :: "nat \<Rightarrow> ask_state \<Rightarrow> wake_pc \<Rightarrow> ask_state \<times> wake_pc" where
  "wake_n 0 x w = (x, w)"
| "wake_n (Suc n) x w = (let (x', w') = wake_step x w in wake_n n x' w')"

lemma wake_n_add: "wake_n (m + n) x w = (let (x', w') = wake_n m x w in wake_n n x' w')"
  by (induction m arbitrary: x w) (auto simp: Let_def case_prod_beta)

lemma wake_snap:
  assumes "i \<le> ShardCount" and "length (cm_shards (as_pending x)) = ShardCount"
  shows "wake_n (ShardCount - i) x (WSnap i l) = (x, WSnap ShardCount (l @ concat (map (map snd) (drop i (cm_shards (as_pending x))))))"
  using assms(1)
proof (induction "ShardCount - i" arbitrary: i l)
  case (Suc n)
  then have i: "i < ShardCount" and n: "n = ShardCount - Suc i" by simp_all
  have "wake_n (ShardCount - i) x (WSnap i l) = wake_n (ShardCount - Suc i) x (WSnap (Suc i) (l @ map snd (cm_shards (as_pending x) ! i)))"
    using i by (simp add: wake_step_def flip: Suc.hyps(2) n)
  also have "\<dots> = (x, WSnap ShardCount (l @ concat (map (map snd) (drop i (cm_shards (as_pending x))))))"
    using Suc.hyps(1) [OF n] i assms(2) by (simp flip: Cons_nth_drop_Suc)
  finally show ?case .
qed (use assms(2) in simp)

lemma wake_sends: "wake_n (Suc (length l)) x (WSend l) = (fold (\<lambda>ch. chan_send ch stopping_msg) l x, WDone)"
  by (induction l arbitrary: x) (simp_all add: wake_step_def)

lemma snapshot_values:
  fixes m :: "('k, 'v) concurrent_map"
  shows "cm_IterCb (\<lambda>_ reply rs. rs @ [reply]) m rs0 = rs0 @ concat (map (map snd) (cm_shards m))"
proof -
  have "fold (\<lambda>(k, v) rs. rs @ [v]) es rs0 = rs0 @ map snd es" for es :: "('k \<times> 'v) list" and rs0
    by (induction es arbitrary: rs0) auto
  then show ?thesis by (simp add: IterCb_fold cm_IterBuffered_def map_concat)
qed

text \<open>The steps of the shutdown, undisturbed, are \<open>wakePendingAsks\<close>.\<close>

lemma wake_run:
  assumes "cm_wf (as_pending x)" and "\<not> as_locked x"
  shows "\<exists>n. wake_n n x WIdle = (wakePendingAsks x, WDone)"
proof -
  let ?l = "concat (map (map snd) (cm_shards (as_pending x)))"
  let ?x1 = "x\<lparr>as_closed := True, as_locked := True\<rparr>" and ?x2 = "x\<lparr>as_closed := True\<rparr>"
  have len: "length (cm_shards (as_pending x)) = ShardCount" using assms(1) by (simp add: cm_wf_def)
  have "wake_n ShardCount ?x1 (WSnap 0 []) = (?x1, WSnap ShardCount ?l)" using wake_snap [of 0 ?x1 "[]"] len by simp
  moreover have "wake_step x WIdle = (?x1, WSnap 0 [])" by (simp add: wake_step_def)
  moreover have "wake_step ?x1 (WSnap ShardCount ?l) = (?x2, WSend ?l)" using assms(2) by (simp add: wake_step_def)
  moreover have "wake_n (Suc (length ?l)) ?x2 (WSend ?l) = (wakePendingAsks x, WDone)"
    using wake_sends [of ?l ?x2] by (simp add: wakePendingAsks_def Let_def snapshot_values)
  ultimately have "wake_n (Suc (ShardCount + Suc (Suc (length ?l)))) x WIdle = (wakePendingAsks x, WDone)"
    by (simp only: wake_n.simps wake_n_add Let_def prod.case)
  then show ?thesis by blast
qed

lemma treach_wake:
  assumes "treach start (x, as, rs, w)" and "wake_n n x w = (x', w')"
  shows "treach start (x', as, rs, w')"
  using assms
proof (induction n arbitrary: x w)
  case (Suc n)
  obtain x1 w1 where s: "wake_step x w = (x1, w1)" by fastforce
  show ?case using Suc.IH [OF treach.step [OF Suc.prems(1) tstep.wake [OF s]]] Suc.prems(2) s by simp
qed simp

subsection \<open>Properties\<close>

text \<open>
  C6. An ask gets its own reply. In every reachable state of concurrent asks, replies (also late, doubled or
  for numbers nobody waits for), timeouts and a shutdown: what an ask received was delivered under its own
  number or is the stop error of the shutdown; no two asks share a number; every entry of the table belongs to
  an ask that has not ended, so the table does not grow; an ask that was refused reports the stop error.
\<close>

theorem ask_gets_own_reply:
  assumes "treach start (x, as, rs, w)"
  shows "(\<forall>a \<in> set as. \<forall>m. aq_pc a = ADone (Received (Some m)) \<longrightarrow> m = ErrCodeMsg errSystemStopping \<or> (aq_id a, m) \<in> as_delivered x) \<and>
    (\<forall>j k. j < length as \<and> k < length as \<and> aq_pc (as ! j) \<noteq> AStart \<and> aq_pc (as ! k) \<noteq> AStart \<and>
       aq_id (as ! j) = aq_id (as ! k) \<longrightarrow> j = k) \<and>
    (\<forall>i ch. cm_Get (as_pending x) i = Some ch \<longrightarrow> (\<exists>a \<in> set as. aq_id a = i \<and> aq_ch a = ch \<and> (\<forall>r. aq_pc a \<noteq> ADone r))) \<and>
    ask_result isT as_error nameT Refused = Inl errSystemStopping \<and>
    (\<forall>r. (\<exists>m. ask_result isT as_error nameT (Received r) = Inr m) \<longrightarrow> (\<exists>m. r = Some m \<and> isT m \<and> ask_result isT as_error nameT (Received r) = Inr m))"
proof -
  have I: "inv_chan (x, as, rs, w)" "inv_ids start (x, as, rs, w)" "inv_leak (x, as, rs, w)"
    using treach_inv [OF assms] by simp_all
  have "m = ErrCodeMsg errSystemStopping \<or> (aq_id a, m) \<in> as_delivered x"
    if "a \<in> set as" "aq_pc a = ADone (Received (Some m))" for a m
    using inv_chanD(8) [OF I(1) that(1), of m] that(2) by (simp add: legit_def)
  moreover have "\<exists>a \<in> set as. aq_id a = i \<and> aq_ch a = ch \<and> (\<forall>r. aq_pc a \<noteq> ADone r)" if "cm_Get (as_pending x) i = Some ch" for i ch
    using I(3) that unfolding inv_leak_def prod.case by (metis pc_registered.simps(6))
  moreover have "\<exists>m. r = Some m \<and> isT m \<and> ask_result isT as_error nameT (Received r) = Inr m"
    if "ask_result isT as_error nameT (Received r) = Inr m" for r m
    using that by (cases "(isT, as_error, nameT, r)" rule: awaitReply.cases) (auto split: if_splits option.splits)
  moreover have "j = k" if "j < length as \<and> k < length as \<and> aq_pc (as ! j) \<noteq> AStart \<and> aq_pc (as ! k) \<noteq> AStart \<and> aq_id (as ! j) = aq_id (as ! k)" for j k
    using I(2) that unfolding inv_ids_def prod.case by blast
  ultimately show ?thesis by auto
qed

text \<open>The replies that have left the table make their next step, in the order of the list; none can block.\<close>

definition settle :: "reply_pc list \<Rightarrow> ask_state \<Rightarrow> ask_state" where
  "settle rs x = fold (\<lambda>r y. fst (reply_step y r)) rs x"

lemma reply_step_chans:
  "length (as_chans (fst (reply_step x r))) = length (as_chans x)"
  "as_chans x ! ch = Some m \<Longrightarrow> as_chans (fst (reply_step x r)) ! ch = Some m"
proof -
  have pop: "as_chans (snd (reply_pop i m x)) = as_chans x" for i m
    by (simp add: reply_pop_def split: prod.split option.split)
  have popped: "fst (reply_step x (RPop i m)) = snd (reply_pop i m x)" for i m
    by (simp add: reply_step_def split: prod.split option.split)
  show "length (as_chans (fst (reply_step x r))) = length (as_chans x)"
    by (cases r) (simp_all add: pop popped, simp_all add: reply_step_def chan_send_def)
  show "as_chans (fst (reply_step x r)) ! ch = Some m" if "as_chans x ! ch = Some m"
  proof (cases r)
    case (RSend c k)
    then show ?thesis using that by (cases "c = ch") (simp_all add: reply_step_def chan_send_def)
  qed (use that pop popped in \<open>simp_all add: reply_step_def\<close>)
qed

lemma settle_fills:
  assumes "ch < length (as_chans x)" and "as_chans x ! ch \<noteq> None \<or> (\<exists>m. RSend ch m \<in> set rs)"
  shows "as_chans (settle rs x) ! ch \<noteq> None"
  using assms
proof (induction rs arbitrary: x)
  case (Cons r rs)
  let ?y = "fst (reply_step x r)"
  have "as_chans ?y ! ch \<noteq> None \<or> (\<exists>m. RSend ch m \<in> set rs)"
  proof (cases "as_chans x ! ch")
    case None
    then consider m where "r = RSend ch m" | m where "RSend ch m \<in> set rs" using Cons.prems(2) by auto
    then show ?thesis using None Cons.prems(1) by cases (auto simp: reply_step_def chan_send_def)
  qed (use reply_step_chans(2) in auto)
  then show ?case using Cons.IH [of ?y] Cons.prems(1) reply_step_chans(1) [of x r] by (simp add: settle_def)
qed (simp add: settle_def)

lemma settle_reachable:
  assumes "treach start (x, as, us @ rs, w)"
  shows "\<exists>vs. treach start (settle rs x, as, us @ vs, w) \<and> length vs = length rs"
  using assms
proof (induction rs arbitrary: x us)
  case (Cons r rs)
  obtain y r' where st: "reply_step x r = (y, r')" by fastforce
  have "treach start (y, as, (us @ [r']) @ rs, w)"
    using treach.step [OF Cons.prems tstep.reply [of "length us" "us @ r # rs" x y r']] st by simp
  then obtain vs where "treach start (settle rs y, as, (us @ [r']) @ vs, w)" "length vs = length rs" using Cons.IH by blast
  then show ?case using st by (intro exI [of _ "r' # vs"]) (simp add: settle_def)
qed (simp add: settle_def)

text \<open>
  C12. Shutdown wakes every ask. Take any state in which the shutdown has gone through the table. An ask that
  still waits has a message in its channel, unless a reply that was taken from the table before is about to
  put one there. As soon as the replies in flight have made their next step, in whatever order (none
  of these steps can block, and they lead to a reachable state), every ask that still waits has a message in its
  channel, and one that has come to wait takes it in its next step, without its timeout. An ask that comes to
  register after the closing is refused. When nothing else runs, the steps of the shutdown are exactly
  \<open>wakePendingAsks\<close>, and a reply is exactly \<open>deliverReply\<close>.
\<close>

theorem shutdown_wakes_every_ask:
  assumes "treach start (x, as, rs, WDone)"
  shows "(\<forall>a \<in> set as. pc_waiting (aq_pc a) \<longrightarrow> as_chans x ! aq_ch a \<noteq> None \<or> (\<exists>m. RSend (aq_ch a) m \<in> set rs)) \<and>
    (\<forall>order a. set order = set rs \<and> a \<in> set as \<and> pc_waiting (aq_pc a) \<longrightarrow>
       (\<exists>m. as_chans (settle order x) ! aq_ch a = Some m \<and>
          (aq_pc a = AWait \<longrightarrow> (\<exists>y. askImpl False (settle order x) a = Some (y, a\<lparr>aq_pc := ACancel (Some m)\<rparr>))))) \<and>
    (\<exists>vs. treach start (settle rs x, as, vs, WDone) \<and> length vs = length rs) \<and>
    (\<forall>a. aq_pc a = ANumbered \<longrightarrow> askImpl False x a = Some (x, a\<lparr>aq_pc := ADone Refused\<rparr>)) \<and>
    (\<forall>y. cm_wf (as_pending y) \<and> \<not> as_locked y \<longrightarrow>
       (\<exists>n. wake_n n y WIdle = (wakePendingAsks y, WDone))) \<and>
    (\<forall>y i m. reply_step (fst (reply_step y (RPop i m))) (snd (reply_step y (RPop i m))) = (deliverReply i m y, RDone))"
proof -
  have W: "inv_wake (x, as, rs, WDone)" and C: "inv_chan (x, as, rs, WDone)" using treach_inv [OF assms] by simp_all
  have now: "as_chans x ! aq_ch a \<noteq> None \<or> (\<exists>m. RSend (aq_ch a) m \<in> set rs)" if "a \<in> set as" "pc_waiting (aq_pc a)" for a
    using W that by (auto simp: inv_wake_def woken_def served_def)
  have "\<exists>m. as_chans (settle order x) ! aq_ch a = Some m \<and>
      (aq_pc a = AWait \<longrightarrow> (\<exists>y. askImpl False (settle order x) a = Some (y, a\<lparr>aq_pc := ACancel (Some m)\<rparr>)))"
    if a: "set order = set rs" "a \<in> set as" "pc_waiting (aq_pc a)" for order a
  proof -
    have "aq_ch a < length (as_chans x)" using C a(2) waiting_registered [OF a(3)] by (auto simp: inv_chan_def)
    then have "as_chans (settle order x) ! aq_ch a \<noteq> None" using settle_fills now [OF a(2,3)] a(1) by blast
    then show ?thesis by (auto simp: askImpl_def)
  qed
  moreover have "askImpl False x a = Some (x, a\<lparr>aq_pc := ADone Refused\<rparr>)" if "aq_pc a = ANumbered" for a
    using W that by (simp add: inv_wake_def askImpl_def registerAsk_def)
  moreover have "\<exists>vs. treach start (settle rs x, as, vs, WDone) \<and> length vs = length rs"
    using settle_reachable [of start x as "[]" rs WDone] assms by simp
  ultimately show ?thesis using now wake_run deliverReply_steps by (auto simp: prod_eq_iff)
qed

text \<open>For the witnesses: one ask that waits while the shutdown runs.\<close>

definition waiting_table :: ask_state where
  "waiting_table = (new_table 5)\<lparr>as_askId := 6, as_count := 1, as_chans := [None], as_owner := [6], as_pending := snd (cm_Set NewIntC 6 0)\<rparr>"

definition waiting_ask :: asker where "waiting_ask = \<lparr>aq_id = 6, aq_ch = 0, aq_pc = AWait\<rparr>"

lemma waiting_reachable: "treach 5 (waiting_table, [waiting_ask], [], WIdle)"
proof -
  have ask: "treach 5 (x', [a'], [], WIdle)" if "treach 5 (x, [a], [], WIdle)" "as_count x < 2 ^ 64 - 1" "askImpl False x a = Some (x', a')" for x a x' a'
    using treach.step [OF that(1) tstep.ask [of 0 "[a]" x False x' a' "[]" WIdle]] that(2,3) by simp
  have d: "new_table 5 = \<lparr>as_askId = 5, as_count = 0, as_closed = False, as_locked = False, as_pending = NewIntC,
     as_chans = [], as_owner = [], as_delivered = {}\<rparr>" by (simp add: new_table_def)
  let ?x1 = "(new_table 5)\<lparr>as_askId := 6, as_count := 1\<rparr>"
  have "treach 5 (new_table 5, [\<lparr>aq_id = 0, aq_ch = 0, aq_pc = AStart\<rparr>], [], WIdle)"
    using treach.step [OF treach.init tstep.new_ask] by simp
  from ask [OF this] have "treach 5 (?x1, [\<lparr>aq_id = 6, aq_ch = 0, aq_pc = ANumbered\<rparr>], [], WIdle)"
    by (simp add: askImpl_def nextSnId_def d)
  from ask [OF this] have "treach 5 (waiting_table, [\<lparr>aq_id = 6, aq_ch = 0, aq_pc = ASend\<rparr>], [], WIdle)"
    by (simp add: askImpl_def registerAsk_def d waiting_table_def Let_def)
  from ask [OF this] show ?thesis by (simp add: askImpl_def waiting_ask_def waiting_table_def)
qed

theorem ask_gets_own_reply_witness:
  "\<exists>x as rs w. treach 5 (x, as, rs, w) \<and> cm_Get (as_pending x) 6 = Some 0 \<and>
     (\<forall>i ch. cm_Get (as_pending x) i = Some ch \<longrightarrow> (\<exists>a \<in> set as. aq_id a = i \<and> aq_ch a = ch \<and> (\<forall>r. aq_pc a \<noteq> ADone r)))"
proof (intro exI conjI)
  show "treach 5 (waiting_table, [waiting_ask], [], WIdle)" by (rule waiting_reachable)
  have "cm_wf (NewIntC :: (u64, nat) concurrent_map)" by (simp add: NewIntC_def cm_create_wf)
  then show "cm_Get (as_pending waiting_table) 6 = Some 0" by (simp add: waiting_table_def pending_Set)
  show "\<forall>i ch. cm_Get (as_pending waiting_table) i = Some ch \<longrightarrow>
      (\<exists>a \<in> set [waiting_ask]. aq_id a = i \<and> aq_ch a = ch \<and> (\<forall>r. aq_pc a \<noteq> ADone r))"
    using ask_gets_own_reply [OF waiting_reachable, of "\<lambda>_. True" "\<lambda>_. None" "[]"] by blast
qed

theorem shutdown_wakes_every_ask_witness:
  "\<exists>x m y. treach 5 (x, [waiting_ask], [], WDone) \<and> as_chans x ! 0 = Some m \<and>
     askImpl False x waiting_ask = Some (y, waiting_ask\<lparr>aq_pc := ACancel (Some m)\<rparr>)"
proof -
  have "cm_wf (as_pending waiting_table)" "\<not> as_locked waiting_table"
    by (simp_all add: waiting_table_def new_table_def NewIntC_def pending_Set cm_create_wf)
  then obtain n where "wake_n n waiting_table WIdle = (wakePendingAsks waiting_table, WDone)"
    using wake_run by blast
  then have r: "treach 5 (wakePendingAsks waiting_table, [waiting_ask], [], WDone)"
    by (rule treach_wake [OF waiting_reachable])
  have "settle [] x = x" for x by (simp add: settle_def)
  moreover have "aq_pc waiting_ask = AWait" "aq_ch waiting_ask = 0" by (simp_all add: waiting_ask_def)
  ultimately show ?thesis using shutdown_wakes_every_ask [OF r] r by (metis list.set_intros(1) pc_waiting.simps(2))
qed

end
