(* ===== verification/System_Send.thy ===== *)
theory System_Send
  imports Routing Ask_Table Registry_Spawn Processor_Life
begin

section \<open>The send path of a node: system.go, system_cluster.go, context_impl.go\<close>

text \<open>
  A node (\<open>system\<close>) puts the parts together: a send looks up the registry, resolves the route, activates a
  cluster actor on demand, spawns the stream actor of another node, hands the message to a mailbox, or ends
  in a dead letter; replies go to the pending asks. Processors are numbered, \<open>nd_procs\<close> holds their states,
  and the registry maps ids to numbers. A send is modelled as one call without interference: the
  interleavings of the parts are the subject of their own theories. The processors run between the calls;
  a message that was accepted leaves the caller's \<open>schedule\<close> pending in \<open>sh_waking\<close>, as in
  \<open>Mailbox_Processor\<close>. \<open>nd_foreign\<close> collects what is told through another system of the same process,
  \<open>nd_panic\<close> says that a nil reference was used. Producers are assumed to return an actor.
\<close>

record process =
  pr_opts :: tOpts
  pr_state :: shared

record node =
  nd_self :: nat
  nd_addr :: string
  nd_config :: config
  nd_draining :: bool
  nd_registry :: registry
  nd_procs :: "process list"
  nd_asks :: ask_state
  nd_routing :: routing
  nd_nextPtr :: nat
  nd_deadLetters :: "dead_letter list"
  nd_foreign :: "(nat \<times> actor_ref \<times> proto_message) list"
  nd_panic :: bool

subsection \<open>Helpers\<close>

definition node_lookup :: "node \<Rightarrow> string \<Rightarrow> nat option" where
  "node_lookup x i = reg_lookup (nd_registry x) i"

definition proc_self :: "node \<Rightarrow> nat \<Rightarrow> actor_ref" where
  "proc_self x p = sh_self (pr_state (nd_procs x ! p))"

definition node_resolve :: "actor_ref \<Rightarrow> node \<Rightarrow> resolved_route \<times> node" where
  "node_resolve target x = (let (route, r) = resolve target (nd_routing x) in (route, x\<lparr>nd_routing := r\<rparr>))"

definition emitDeadLetter :: "dead_letter \<Rightarrow> node \<Rightarrow> node" where
  "emitDeadLetter dl x = x\<lparr>nd_deadLetters := nd_deadLetters x @ [dl]\<rparr>"

definition no_mailbox :: "actor_ref \<Rightarrow> proto_message \<Rightarrow> actor_ref option \<Rightarrow> u64 \<Rightarrow> dead_letter_reason \<Rightarrow> dead_letter" where
  "no_mailbox target msg sender sn reason = \<lparr>dl_Target = target, dl_Owner = None, dl_Sender = sender,
     dl_Message = msg, dl_MsgSnId = sn, dl_Reason = reason\<rparr>"

text \<open>
  \<open>getOrSpawnProcessor\<close> of a caller that runs alone: the published instance, or a new one under the id of
  its options. The startup message takes the next serial number.
\<close>

definition getOrSpawn :: "tOpts \<Rightarrow> node \<Rightarrow> nat \<times> node" where
  "getOrSpawn opts x = (case op_self opts of None \<Rightarrow> (0, x\<lparr>nd_panic := True\<rparr>) | Some self \<Rightarrow>
     (case node_lookup x (GetId self) of Some p \<Rightarrow> (p, x) | None \<Rightarrow>
        let (sn, asks) = nextSnId (nd_asks x) in
        (case buildProcessor self (op_mailboxInitSize opts) (op_mailboxMaxSize opts) True True sn of
           None \<Rightarrow> (0, x\<lparr>nd_panic := True\<rparr>)
         | Some sh \<Rightarrow>
            let p = length (nd_procs x); ((actual, inserted), reg) = reg_register (nd_registry x) (GetId self) p in
            (actual, x\<lparr>nd_asks := asks, nd_procs := nd_procs x @ [\<lparr>pr_opts = opts, pr_state = sh\<rparr>], nd_registry := reg\<rparr>))))"

definition ensureClusterKindActorExist :: "actor_ref \<Rightarrow> node \<Rightarrow> bool \<times> node" where
  "ensureClusterKindActorExist ref x = (if nd_draining x then (False, x)
     else case map_of (cf_kinds (nd_config x)) (GetKind ref) of None \<Rightarrow> (False, x)
     | Some kind \<Rightarrow> if node_lookup x (GetId ref) \<noteq> None then (True, x)
         else (True, snd (getOrSpawn (newOpts (tk_producer kind) (tk_opts kind @ [withOptsClusterSelf ref])) x)))"

text \<open>The options of the stream actor to another node.\<close>

definition stream_opts :: "actor_ref \<Rightarrow> node \<Rightarrow> tOpts" where
  "stream_opts w x = newOpts 0 [WithOptsKindName (GetKind w), WithOptsPoisonFirstOnQuit False,
     withOptsDirectSelf (GetName w) (nd_addr x) (nd_self x) (nd_nextPtr x)]"

definition get_stream :: "actor_ref \<Rightarrow> node \<Rightarrow> nat \<times> node" where
  "get_stream w x = (case node_lookup x (GetId w) of Some p \<Rightarrow> (p, x)
     | None \<Rightarrow> getOrSpawn (stream_opts w x) (x\<lparr>nd_nextPtr := nd_nextPtr x + 1\<rparr>))"

text \<open>
  \<open>processorMailBox.send\<close> on processor \<open>p\<close>: the new state, the error answer that \<open>toDeadLetter\<close> tells a waiting
  ask, and the dead letter it emits afterwards.
\<close>

definition push_to :: "nat \<Rightarrow> actor_context \<Rightarrow> node \<Rightarrow> node \<times> (actor_ref \<times> proto_message) option \<times> dead_letter list" where
  "push_to p ctx x = (let pr = nd_procs x ! p in case proc_send ctx (pr_state pr) of
      None \<Rightarrow> (x\<lparr>nd_panic := True\<rparr>, None, [])
    | Some sh \<Rightarrow> (x\<lparr>nd_procs := (nd_procs x)[p := pr\<lparr>pr_state := sh\<rparr>]\<rparr>,
        (case drop (length (sh_askReplies (pr_state pr))) (sh_askReplies sh) of [] \<Rightarrow> None | a # as \<Rightarrow> Some a),
        drop (length (sh_deadLetters (pr_state pr))) (sh_deadLetters sh)))"

lemma proc_send_replies:
  assumes "proc_send ctx sh = Some sh'"
  shows "(sh_askReplies sh' = sh_askReplies sh \<and> sh_deadLetters sh' = sh_deadLetters sh \<and>
      sh_accepted sh' = sh_accepted sh @ [ctx] \<and> sh_waking sh' = sh_waking sh + 1) \<or>
    (\<exists>reason. sh_askReplies sh' = sh_askReplies sh @ unavailable_reply reason (ctx_sender ctx) \<and>
      sh_deadLetters sh' = sh_deadLetters sh @ [ctx_dead_letter (Some (sh_self sh)) reason ctx] \<and> sh_accepted sh' = sh_accepted sh)"
  using assms by (fastforce simp: proc_send_def toDeadLetter_def split: option.splits prod.splits push_result.splits)

lemma push_to_reply: "fst (snd (push_to p ctx x)) = Some (s, m) \<Longrightarrow> ctx_sender ctx = Some s \<and> isAsk s"
  by (auto simp: push_to_def Let_def unavailable_reply_def split: option.splits list.splits if_splits dest!: proc_send_replies)

subsection \<open>Sending\<close>

text \<open>How many answers a send may still cause, for the termination of the functions below.\<close>

fun sender_rank :: "actor_ref option \<Rightarrow> nat" where
  "sender_rank None = 0"
| "sender_rank (Some s) = 5"

text \<open>
  The functions call each other: an undeliverable message of an ask is answered by telling the sender an
  error. That tell has no sender itself, so the recursion ends after one answer.
\<close>

function (sequential)
  tellWithSender :: "actor_ref option \<Rightarrow> proto_message \<Rightarrow> actor_ref option \<Rightarrow> u64 \<Rightarrow> node \<Rightarrow> node" and
  sendToLocal :: "actor_ref \<Rightarrow> proto_message \<Rightarrow> actor_ref option \<Rightarrow> u64 \<Rightarrow> node \<Rightarrow> node" and
  sendToRemote :: "resolved_route \<Rightarrow> actor_ref \<Rightarrow> proto_message \<Rightarrow> actor_ref option \<Rightarrow> u64 \<Rightarrow> node \<Rightarrow> node" and
  proc_deliver :: "nat \<Rightarrow> actor_context \<Rightarrow> node \<Rightarrow> node" and
  sys_tell :: "actor_ref \<Rightarrow> proto_message \<Rightarrow> node \<Rightarrow> node" and
  ref_Tell :: "actor_ref \<Rightarrow> proto_message \<Rightarrow> node \<Rightarrow> node"
where
  "tellWithSender target msg sender sn x = (case target of None \<Rightarrow> x | Some t \<Rightarrow>
     if isDirect t then
       (if GetDirectAddr t = nd_addr x then sendToLocal t msg sender sn x
        else sendToRemote (fst (node_resolve t x)) t msg sender sn (snd (node_resolve t x)))
     else case node_lookup x (GetId t) of
        Some p \<Rightarrow> proc_deliver p (newContext (proc_self x p) sender msg sn) x
      | None \<Rightarrow>
         if fst (fst (node_resolve t x)) = [] then
           emitDeadLetter (no_mailbox t msg sender sn ReasonNoOwner)
             (case sender of None \<Rightarrow> snd (node_resolve t x)
              | Some s \<Rightarrow> if isAsk s then ref_Tell s (ErrCodeMsg errKindNotInCluster) (snd (node_resolve t x))
                         else snd (node_resolve t x))
         else if fst (fst (node_resolve t x)) = nd_addr x then sendToLocal t msg sender sn (snd (node_resolve t x))
         else sendToRemote (fst (node_resolve t x)) t msg sender sn (snd (node_resolve t x)))"
| "sendToLocal t msg sender sn x =
     (if isAsk t then x\<lparr>nd_asks := deliverReply (askSnId t) msg (nd_asks x)\<rparr>
      else case node_lookup x (GetId t) of
        Some p \<Rightarrow> proc_deliver p (newContext (proc_self x p) sender msg sn) x
      | None \<Rightarrow>
         if msg = Poison then x
         else (let (ok, y) = (if isCluster t then ensureClusterKindActorExist t x else (False, x)) in
           case (if ok then node_lookup y (GetId t) else None) of
             Some p \<Rightarrow> proc_deliver p (newContext (proc_self y p) sender msg sn) y
           | None \<Rightarrow> emitDeadLetter (no_mailbox t msg sender sn ReasonNotFound)
               (case sender of None \<Rightarrow> y | Some s \<Rightarrow> if isAsk s then ref_Tell s (ErrCodeMsg errActorNotFound) y else y)))"
| "sendToRemote route t msg sender sn x = (case snd route of None \<Rightarrow> x\<lparr>nd_panic := True\<rparr>
     | Some w \<Rightarrow> let (p, y) = get_stream w x in proc_deliver p (newContext t sender msg sn) y)"
| "proc_deliver p ctx x = (let (y, reply, dls) = push_to p ctx x;
       z = (case fst (snd (push_to p ctx x)) of None \<Rightarrow> y | Some (s, m) \<Rightarrow> ref_Tell s m y)
     in z\<lparr>nd_deadLetters := nd_deadLetters z @ dls\<rparr>)"
| "sys_tell t msg x = tellWithSender (Some t) msg None (fst (nextSnId (nd_asks x))) (x\<lparr>nd_asks := snd (nextSnId (nd_asks x))\<rparr>)"
| "ref_Tell s msg x = (if GetSystem s = nd_self x then sys_tell s msg x
     else x\<lparr>nd_foreign := nd_foreign x @ [(GetSystem s, s, msg)]\<rparr>)"
  by pat_completeness auto

termination
proof (relation "measure (\<lambda>v. case v of
    Inl (Inl (t, msg, sender, sn, x)) \<Rightarrow> sender_rank sender + 2
  | Inl (Inr (Inl (t, msg, sender, sn, x))) \<Rightarrow> sender_rank sender + 1
  | Inl (Inr (Inr (route, t, msg, sender, sn, x))) \<Rightarrow> sender_rank sender + 1
  | Inr (Inl (p, ctx, x)) \<Rightarrow> sender_rank (ctx_sender ctx)
  | Inr (Inr (Inl (t, msg, x))) \<Rightarrow> 3
  | Inr (Inr (Inr (s, msg, x))) \<Rightarrow> 4)", goal_cases)
qed (auto simp: newContext_def dest: push_to_reply)

declare tellWithSender.simps [simp del] sendToLocal.simps [simp del] sendToRemote.simps [simp del]
  proc_deliver.simps [simp del] sys_tell.simps [simp del] ref_Tell.simps [simp del]

subsection \<open>Invariant of a node\<close>

text \<open>A processor state that the processor's own steps, sends and stop requests can lead to.\<close>

definition live :: "shared \<Rightarrow> bool" where "live sh \<longleftrightarrow> (\<exists>ds. preach (sh, ds))"

definition sizes_ok :: "tOpts \<Rightarrow> bool" where
  "sizes_ok opts \<longleftrightarrow> op_mailboxInitSize opts < 2 ^ 62 \<and> op_mailboxMaxSize opts < 2 ^ 62"

definition kinds_ok :: "config \<Rightarrow> bool" where
  "kinds_ok conf \<longleftrightarrow> (\<forall>k kind. map_of (cf_kinds conf) k = Some kind \<longrightarrow>
     (\<forall>ref. sizes_ok (newOpts (tk_producer kind) (tk_opts kind @ [withOptsClusterSelf ref]))))"

definition node_wf :: "node \<Rightarrow> bool" where
  "node_wf x \<longleftrightarrow> cm_wf (nd_registry x) \<and> cm_wf (as_pending (nd_asks x)) \<and> kinds_ok (nd_config x) \<and> \<not> nd_panic x \<and>
     (\<forall>i p. node_lookup x i = Some p \<longrightarrow> p < length (nd_procs x) \<and> GetId (proc_self x p) = i) \<and>
     (\<forall>pr \<in> set (nd_procs x). live (pr_state pr)) \<and>
     inv_gens (nd_routing x) \<and> inv_published (nd_routing x) \<and> inv_cache (nd_routing x) \<and>
     rt_addr (nd_routing x) = nd_addr x \<and> rt_self (nd_routing x) = nd_self x"

lemma live_send:
  assumes "live sh"
  shows "\<exists>sh'. proc_send ctx sh = Some sh' \<and> live sh' \<and> sh_self sh' = sh_self sh"
proof -
  obtain ds where ds: "preach (sh, ds)" using assms by (auto simp: live_def)
  have wf: "rb_wf nil_context (sh_mailbox sh)" using preach_inv_count [OF ds] by (simp add: inv_count_def inv_mailbox_def)
  obtain r mb where "rb_push nil_context ctx (sh_mailbox sh) = Some (r, mb)" using rbm.push_total [OF wf] by blast
  then obtain sh' where s: "proc_send ctx sh = Some sh'" by (cases r) (auto simp: proc_send_def)
  then have "live sh'" using preach.step [OF ds pstep.send [OF s]] by (auto simp: live_def)
  moreover have "sh_self sh' = sh_self sh" using s by (auto simp: proc_send_def toDeadLetter_def split: option.splits prod.splits push_result.splits)
  ultimately show ?thesis using s by blast
qed

lemma build_live:
  assumes "i < 2 ^ 62" "m < 2 ^ 62"
  shows "\<exists>sh. buildProcessor self i m reg unreg sn = Some sh \<and> live sh \<and> sh_self sh = self \<and>
    sh_accepted sh = [newContext self (Some self) Initialize sn] \<and> sh_deadLetters sh = [] \<and> sh_askReplies sh = [] \<and>
    \<not> sh_stopRequested sh \<and> rb_list (sh_mailbox sh) = sh_accepted sh \<and> rb_maxCap (sh_mailbox sh) = max (max 1 i) m \<and> \<not> rb_closed (sh_mailbox sh)"
proof -
  let ?c = "newContext self (Some self) Initialize sn"
  obtain mb0 where mb0: "rb_New nil_context i m = Some mb0" "rb_wf nil_context mb0" "rb_list mb0 = []"
      "rb_maxCap mb0 = max (max 1 i) m" "\<not> rb_closed mb0"
    using rb_New_wf [of i m nil_context] assms by auto
  obtain r mb where push: "rb_push nil_context ?c mb0 = Some (r, mb)"
    using rbm.push_total [OF mb0(2)] by blast
  have "r = PushOK"
    using rbm.push_closed_iff [OF mb0(2) push] rbm.push_overflow_iff [OF mb0(2) push] mb0(3-5) by (cases r) auto
  then have mb: "rb_list mb = [?c]" "rb_maxCap mb = max (max 1 i) m" "\<not> rb_closed mb"
    using rbm.push_ok [OF mb0(2)] rbm.push_keeps [OF mb0(2) push] push mb0(3-5) by auto
  obtain sh where sh: "buildProcessor self i m reg unreg sn = Some sh" "sh_self sh = self" "sh_mailbox sh = mb"
      "sh_accepted sh = [?c]" "sh_deadLetters sh = []" "sh_askReplies sh = []" "\<not> sh_stopRequested sh"
    using mb0(1) push by (simp add: buildProcessor_def)
  then show ?thesis using preach.start [OF assms sh(1)] mb by (auto simp: live_def)
qed

text \<open>A message for a processor whose mailbox holds one message and is open: accepted if two fit, an overflow otherwise.\<close>

lemma send_second:
  assumes "live sh" and "rb_list (sh_mailbox sh) = [c0]" and "\<not> rb_closed (sh_mailbox sh)"
  shows "\<exists>mb. proc_send ctx sh = Some (if 2 \<le> rb_maxCap (sh_mailbox sh)
    then sh\<lparr>sh_mailbox := mb, sh_waking := sh_waking sh + 1, sh_accepted := sh_accepted sh @ [ctx]\<rparr>
    else toDeadLetter ReasonOverflow ctx sh)"
proof -
  obtain ds where ds: "preach (sh, ds)" using assms(1) by (auto simp: live_def)
  have wf: "rb_wf nil_context (sh_mailbox sh)" using preach_inv_count [OF ds] by (simp add: inv_count_def inv_mailbox_def)
  obtain r mb where push: "rb_push nil_context ctx (sh_mailbox sh) = Some (r, mb)" using rbm.push_total [OF wf] by blast
  have "r = (if 2 \<le> rb_maxCap (sh_mailbox sh) then PushOK else PushOverflow)"
    using rbm.push_closed_iff [OF wf push] rbm.push_overflow_iff [OF wf push] assms(2,3) by (cases r) auto
  moreover have "r \<noteq> PushOK \<Longrightarrow> mb = sh_mailbox sh" using rbm.push_refused [OF wf push] .
  ultimately show ?thesis using push by (intro exI [of _ mb]) (simp add: proc_send_def)
qed

lemma push_to_spec:
  assumes wf: "node_wf x" and p: "p < length (nd_procs x)"
  obtains (accepted) sh where "push_to p ctx x = (x\<lparr>nd_procs := (nd_procs x)[p := (nd_procs x ! p)\<lparr>pr_state := sh\<rparr>]\<rparr>, None, [])"
      "live sh" "sh_self sh = proc_self x p" "sh_accepted sh = sh_accepted (pr_state (nd_procs x ! p)) @ [ctx]"
  | (refused) sh reason where "push_to p ctx x = (x\<lparr>nd_procs := (nd_procs x)[p := (nd_procs x ! p)\<lparr>pr_state := sh\<rparr>]\<rparr>,
        (case unavailable_reply reason (ctx_sender ctx) of [] \<Rightarrow> None | a # as \<Rightarrow> Some a), [ctx_dead_letter (Some (proc_self x p)) reason ctx])"
      "live sh" "sh_self sh = proc_self x p" "sh_accepted sh = sh_accepted (pr_state (nd_procs x ! p))"
proof -
  have "live (pr_state (nd_procs x ! p))" using wf p by (auto simp: node_wf_def)
  then obtain sh where sh: "proc_send ctx (pr_state (nd_procs x ! p)) = Some sh" "live sh" "sh_self sh = proc_self x p"
    using live_send [of "pr_state (nd_procs x ! p)" ctx] by (auto simp: proc_self_def)
  show ?thesis using proc_send_replies [OF sh(1)]
  proof (elim disjE conjE exE)
    assume "sh_askReplies sh = sh_askReplies (pr_state (nd_procs x ! p))" "sh_deadLetters sh = sh_deadLetters (pr_state (nd_procs x ! p))"
      "sh_accepted sh = sh_accepted (pr_state (nd_procs x ! p)) @ [ctx]"
    then show ?thesis using sh by (intro that(1) [where sh = sh]) (simp_all add: push_to_def Let_def)
  next
    fix reason assume "sh_askReplies sh = sh_askReplies (pr_state (nd_procs x ! p)) @ unavailable_reply reason (ctx_sender ctx)"
      "sh_deadLetters sh = sh_deadLetters (pr_state (nd_procs x ! p)) @ [ctx_dead_letter (Some (sh_self (pr_state (nd_procs x ! p)))) reason ctx]"
      "sh_accepted sh = sh_accepted (pr_state (nd_procs x ! p))"
    then show ?thesis using sh by (intro that(2) [where sh = sh and reason = reason]) (simp_all add: push_to_def Let_def proc_self_def)
  qed
qed

lemma update_proc_wf:
  assumes wf: "node_wf x" and p: "p < length (nd_procs x)" and sh: "live sh" "sh_self sh = proc_self x p"
  shows "node_wf (x\<lparr>nd_procs := (nd_procs x)[p := (nd_procs x ! p)\<lparr>pr_state := sh\<rparr>]\<rparr>)" (is "node_wf ?y")
proof -
  have self: "proc_self ?y q = proc_self x q" if "q < length (nd_procs x)" for q
    using that sh(2) by (cases "q = p") (simp_all add: proc_self_def)
  have "live (pr_state pr)" if "pr \<in> set (nd_procs ?y)" for pr
    using that set_update_subset_insert [of "nd_procs x" p] sh(1) wf by (fastforce simp: node_wf_def)
  then show ?thesis using wf self by (auto simp: node_wf_def node_lookup_def)
qed

lemma newOpts_last_self:
  "op_self (newOpts p (os @ [withOptsClusterSelf ref])) = Some ref"
  "op_self (stream_opts w x) = Some (newDirectActorRef (GetKind w) (GetName w) (nd_addr x) (nd_self x) (nd_nextPtr x))"
  by (simp_all add: newOpts_def stream_opts_def withOptsClusterSelf_def withOptsDirectSelf_def WithOptsKindName_def
      WithOptsPoisonFirstOnQuit_def Let_def)

lemma stream_sizes: "sizes_ok (stream_opts w x)"
  by (simp add: sizes_ok_def newOpts_def stream_opts_def withOptsDirectSelf_def WithOptsKindName_def
      WithOptsPoisonFirstOnQuit_def Let_def defaultMailboxInitSize_def defaultMailboxMaxSize_def)

text \<open>\<open>grown x y\<close>: only processors under fresh ids were added.\<close>

definition startup_only :: "process \<Rightarrow> bool" where
  "startup_only pr \<longleftrightarrow> (\<exists>c. sh_accepted (pr_state pr) = [c] \<and> ctx_message c = Initialize)"

definition grown :: "node \<Rightarrow> node \<Rightarrow> bool" where
  "grown x y \<longleftrightarrow> (\<exists>ps. nd_procs y = nd_procs x @ ps \<and> (\<forall>pr \<in> set ps. startup_only pr)) \<and>
     (\<forall>i p. node_lookup x i = Some p \<longrightarrow> node_lookup y i = Some p) \<and>
     nd_deadLetters y = nd_deadLetters x \<and> nd_self y = nd_self x \<and> nd_addr y = nd_addr x \<and> nd_config y = nd_config x \<and>
     as_pending (nd_asks y) = as_pending (nd_asks x) \<and> as_chans (nd_asks y) = as_chans (nd_asks x)"

lemma grown_refl: "grown x x"
  by (simp add: grown_def)

lemma getOrSpawn_new:
  assumes wf: "node_wf x" and self: "op_self opts = Some self" and sz: "sizes_ok opts" and n: "node_lookup x (GetId self) = None"
  obtains sn asks sh reg where "nextSnId (nd_asks x) = (sn, asks)"
    "buildProcessor self (op_mailboxInitSize opts) (op_mailboxMaxSize opts) True True sn = Some sh"
    "reg_register (nd_registry x) (GetId self) (length (nd_procs x)) = ((length (nd_procs x), True), reg)"
    "getOrSpawn opts x = (length (nd_procs x),
       x\<lparr>nd_asks := asks, nd_procs := nd_procs x @ [\<lparr>pr_opts = opts, pr_state = sh\<rparr>], nd_registry := reg\<rparr>)"
proof -
  obtain sn asks where sn: "nextSnId (nd_asks x) = (sn, asks)" by fastforce
  obtain sh where sh: "buildProcessor self (op_mailboxInitSize opts) (op_mailboxMaxSize opts) True True sn = Some sh"
    using build_live [of "op_mailboxInitSize opts" "op_mailboxMaxSize opts" self True True sn] sz by (auto simp: sizes_ok_def)
  have "cm_wf (nd_registry x)" using wf by (simp add: node_wf_def)
  then obtain reg where reg: "reg_register (nd_registry x) (GetId self) (length (nd_procs x)) = ((length (nd_procs x), True), reg)"
    using reg_register_spec(2) [of "nd_registry x" "GetId self" "length (nd_procs x)"] n
    by (cases "reg_register (nd_registry x) (GetId self) (length (nd_procs x))") (simp add: node_lookup_def reg_lookup_def)
  show ?thesis using that [OF sn sh reg] self n sn sh reg by (simp add: getOrSpawn_def)
qed

lemma getOrSpawn_spec:
  assumes wf: "node_wf x" and self: "op_self opts = Some self" and sz: "sizes_ok opts"
  obtains p y where "getOrSpawn opts x = (p, y)" "node_wf y" "grown x y" "node_lookup y (GetId self) = Some p" "nd_draining y = nd_draining x"
    "node_lookup x (GetId self) = None \<longrightarrow> p = length (nd_procs x) \<and> length (nd_procs y) = Suc p"
proof (cases "node_lookup x (GetId self)")
  case (Some p)
  then show ?thesis using self wf grown_refl by (intro that [of p x]) (simp_all add: getOrSpawn_def)
next
  case None
  let ?n = "length (nd_procs x)"
  obtain sn asks sh reg where sn: "nextSnId (nd_asks x) = (sn, asks)"
      and build: "buildProcessor self (op_mailboxInitSize opts) (op_mailboxMaxSize opts) True True sn = Some sh"
      and reg: "reg_register (nd_registry x) (GetId self) ?n = ((?n, True), reg)"
      and new: "getOrSpawn opts x = (?n, x\<lparr>nd_asks := asks, nd_procs := nd_procs x @ [\<lparr>pr_opts = opts, pr_state = sh\<rparr>], nd_registry := reg\<rparr>)"
    by (rule getOrSpawn_new [OF wf self sz None])
  have sh: "live sh" "sh_self sh = self" "sh_accepted sh = [newContext self (Some self) Initialize sn]"
    using build_live [of "op_mailboxInitSize opts" "op_mailboxMaxSize opts" self True True sn] sz build by (auto simp: sizes_ok_def)
  have cm: "cm_wf (nd_registry x)" using wf by (simp add: node_wf_def)
  note R = reg_register_spec [OF cm, of "GetId self" ?n]
  let ?y = "x\<lparr>nd_asks := asks, nd_procs := nd_procs x @ [\<lparr>pr_opts = opts, pr_state = sh\<rparr>], nd_registry := reg\<rparr>"
  have asks: "as_pending asks = as_pending (nd_asks x)" "as_chans asks = as_chans (nd_asks x)" using sn by (auto simp: nextSnId_def)
  have look: "node_lookup ?y i = (if i = GetId self then Some ?n else node_lookup x i)" for i
    using R(3) reg None by (simp add: node_lookup_def reg_lookup_def)
  have ps: "proc_self ?y p = (if p = ?n then self else proc_self x p)" if "p \<le> ?n" for p
    using that sh(2) by (auto simp: proc_self_def nth_append)
  have old: "node_lookup x i = Some p \<Longrightarrow> p < ?n \<and> GetId (proc_self x p) = i" for i p using wf by (simp add: node_wf_def)
  have "p < length (nd_procs ?y) \<and> GetId (proc_self ?y p) = i" if "node_lookup ?y i = Some p" for i p
    using that old [of i p] by (auto simp: look ps less_imp_le less_SucI split: if_splits)
  moreover have "cm_wf (nd_registry ?y)" using R(1) reg by simp
  ultimately have "node_wf ?y" using wf asks(1) sh(1) by (auto simp: node_wf_def)
  moreover have "grown x ?y" using asks sh(3) None look by (auto simp: grown_def startup_only_def newContext_def)
  ultimately show ?thesis using look new by (intro that [of ?n ?y]) simp_all
qed

lemma ensure_spec:
  assumes wf: "node_wf x"
  obtains ok y where "ensureClusterKindActorExist ref x = (ok, y)" "node_wf y" "grown x y" "nd_draining y = nd_draining x"
    "ok \<Longrightarrow> node_lookup y (GetId ref) \<noteq> None" "\<not> ok \<Longrightarrow> y = x"
    "ok \<longleftrightarrow> \<not> nd_draining x \<and> map_of (cf_kinds (nd_config x)) (GetKind ref) \<noteq> None"
    "ok \<and> node_lookup x (GetId ref) = None \<longrightarrow> node_lookup y (GetId ref) = Some (length (nd_procs x)) \<and> length (nd_procs y) = Suc (length (nd_procs x))"
proof (cases "nd_draining x \<or> map_of (cf_kinds (nd_config x)) (GetKind ref) = None")
  case True
  then show ?thesis using wf grown_refl by (intro that [of False x]) (auto simp: ensureClusterKindActorExist_def)
next
  case False
  then obtain kind where kind: "map_of (cf_kinds (nd_config x)) (GetKind ref) = Some kind" and d: "\<not> nd_draining x" by auto
  let ?o = "newOpts (tk_producer kind) (tk_opts kind @ [withOptsClusterSelf ref])"
  have sz: "sizes_ok ?o" using wf kind by (auto simp: node_wf_def kinds_ok_def)
  show ?thesis
  proof (cases "node_lookup x (GetId ref)")
    case None
    obtain p y where "getOrSpawn ?o x = (p, y)" "node_wf y" "grown x y" "node_lookup y (GetId ref) = Some p" "nd_draining y = nd_draining x"
        "node_lookup x (GetId ref) = None \<longrightarrow> p = length (nd_procs x) \<and> length (nd_procs y) = Suc p"
      using getOrSpawn_spec [OF wf newOpts_last_self(1) sz] by blast
    then show ?thesis using None kind d by (intro that [of True y]) (simp_all add: ensureClusterKindActorExist_def)
  next
    case (Some p)
    then show ?thesis using kind d wf grown_refl by (intro that [of True x]) (simp_all add: ensureClusterKindActorExist_def)
  qed
qed

lemma get_stream_spec:
  assumes wf: "node_wf x"
  obtains p y where "get_stream w x = (p, y)" "node_wf y" "grown x y" "p < length (nd_procs y)" "nd_draining y = nd_draining x"
    "GetId (proc_self y p) = GetId w \<or> GetId (proc_self y p) = GetId (newDirectActorRef (GetKind w) (GetName w) (nd_addr x) (nd_self x) (nd_nextPtr x))"
proof (cases "node_lookup x (GetId w)")
  case (Some p)
  then have "p < length (nd_procs x)" "GetId (proc_self x p) = GetId w" using wf by (auto simp: node_wf_def)
  then show ?thesis using wf grown_refl Some by (intro that [of p x]) (simp_all add: get_stream_def)
next
  case None
  let ?x = "x\<lparr>nd_nextPtr := nd_nextPtr x + 1\<rparr>" and ?ref = "newDirectActorRef (GetKind w) (GetName w) (nd_addr x) (nd_self x) (nd_nextPtr x)"
  have wf': "node_wf ?x" using wf by (simp add: node_wf_def node_lookup_def proc_self_def)
  obtain p y where y: "getOrSpawn (stream_opts w x) ?x = (p, y)" "node_wf y" "grown ?x y" "node_lookup y (GetId ?ref) = Some p" "nd_draining y = nd_draining ?x"
    using getOrSpawn_spec [OF wf' newOpts_last_self(2) stream_sizes] by blast
  have "grown x y" using y(3) by (simp add: grown_def node_lookup_def)
  moreover have "p < length (nd_procs y)" "GetId (proc_self y p) = GetId ?ref" using y(2,4) by (simp_all add: node_wf_def)
  ultimately show ?thesis using y None by (intro that [of p y]) (simp_all add: get_stream_def)
qed

lemma node_resolve_spec:
  assumes wf: "node_wf x"
  obtains route r ns v where "node_resolve t x = (route, x\<lparr>nd_routing := r\<rparr>)" "node_wf (x\<lparr>nd_routing := r\<rparr>)"
    "grown x (x\<lparr>nd_routing := r\<rparr>)" "route_ok (nd_addr x) ns t route" "(v, ns) \<in> rt_hist (nd_routing x)" "published_version (nd_routing x) \<le> v"
proof -
  obtain route r where res: "resolve t (nd_routing x) = (route, r)" by fastforce
  have I: "inv_gens (nd_routing x)" "inv_published (nd_routing x)" "inv_cache (nd_routing x)" "rt_addr (nd_routing x) = nd_addr x"
    using wf by (simp_all add: node_wf_def)
  note R = resolve_ok [OF I(1-3) res]
  obtain v ns where h: "(v, ns) \<in> rt_hist (nd_routing x)" "published_version (nd_routing x) \<le> v" "route_ok (nd_addr x) ns t route"
    using R I(4) by auto
  have "node_wf (x\<lparr>nd_routing := r\<rparr>)" using wf R by (simp add: node_wf_def node_lookup_def proc_self_def rt_le_def)
  then show ?thesis using res h by (intro that [of route r ns v]) (simp_all add: node_resolve_def grown_def node_lookup_def)
qed

subsection \<open>What a send leads to\<close>

text \<open>
  The possible ends of a send: the message went to the pending asks, it was a stop request for an actor
  that is not running, processor \<open>p\<close> accepted it, or it became a dead letter, where a waiting ask is told
  the error.
\<close>

datatype outcome = Answered | Ignored | Accepted nat | DeadLettered err_code dead_letter

definition fail_ask :: "actor_ref option \<Rightarrow> err_code \<Rightarrow> node \<Rightarrow> node" where
  "fail_ask sender err y = (case sender of None \<Rightarrow> y | Some s \<Rightarrow> if isAsk s then ref_Tell s (ErrCodeMsg err) y else y)"

definition undelivered :: "node \<Rightarrow> node \<Rightarrow> bool" where
  "undelivered x y \<longleftrightarrow> node_wf y \<and> length (nd_procs x) \<le> length (nd_procs y) \<and>
     (\<forall>p < length (nd_procs x). sh_accepted (pr_state (nd_procs y ! p)) = sh_accepted (pr_state (nd_procs x ! p))) \<and>
     (\<forall>p < length (nd_procs y). length (nd_procs x) \<le> p \<longrightarrow> startup_only (nd_procs y ! p)) \<and>
     nd_deadLetters y = nd_deadLetters x \<and> nd_self y = nd_self x \<and> nd_addr y = nd_addr x \<and>
     as_pending (nd_asks y) = as_pending (nd_asks x) \<and> as_chans (nd_asks y) = as_chans (nd_asks x)"

definition separator_free :: "string \<Rightarrow> bool" where
  "separator_free a \<longleftrightarrow> slash \<notin> set a \<and> at_sign \<notin> set a"

text \<open>The accepting processor is the target, or the stream to the node that owns it in a published membership.\<close>

definition placed :: "node \<Rightarrow> actor_ref \<Rightarrow> actor_ref \<Rightarrow> actor_ref \<Rightarrow> bool" where
  "placed x t self ctx_t \<longleftrightarrow> (GetId self = GetId t \<and> ctx_t = self) \<or>
     (ctx_t = t \<and> (\<exists>v ns. (v, ns) \<in> rt_hist (nd_routing x) \<and> published_version (nd_routing x) \<le> v \<and>
        owner_address ns t \<noteq> nd_addr x \<and>
        (separator_free (owner_address ns t) \<and> separator_free (nd_addr x) \<longrightarrow> GetId self = stream_id (nd_addr x) (owner_address ns t))))"

definition queued :: "node \<Rightarrow> nat \<Rightarrow> actor_context \<Rightarrow> node \<Rightarrow> bool" where
  "queued y p ctx z \<longleftrightarrow> p < length (nd_procs y) \<and> (\<exists>sh. live sh \<and> sh_self sh = proc_self y p \<and>
     sh_accepted sh = sh_accepted (pr_state (nd_procs y ! p)) @ [ctx] \<and>
     z = y\<lparr>nd_procs := (nd_procs y)[p := (nd_procs y ! p)\<lparr>pr_state := sh\<rparr>]\<rparr>)"

fun sent :: "node \<Rightarrow> actor_ref \<Rightarrow> proto_message \<Rightarrow> actor_ref option \<Rightarrow> u64 \<Rightarrow> node \<Rightarrow> outcome \<Rightarrow> bool" where
  "sent x t msg sender sn z Answered \<longleftrightarrow> isAsk t \<and>
     (\<exists>y. node_wf y \<and> grown x y \<and> nd_procs y = nd_procs x \<and> z = y\<lparr>nd_asks := deliverReply (askSnId t) msg (nd_asks y)\<rparr>)"
| "sent x t msg sender sn z Ignored \<longleftrightarrow> msg = Poison \<and> node_lookup x (GetId t) = None \<and> node_wf z \<and> grown x z \<and> nd_procs z = nd_procs x"
| "sent x t msg sender sn z (Accepted p) \<longleftrightarrow> (\<exists>y ctx. node_wf y \<and> grown x y \<and> queued y p ctx z \<and>
     ctx_message ctx = msg \<and> ctx_sender ctx = sender \<and> ctx_msgSnId ctx = sn \<and> placed x t (proc_self y p) (ctx_target ctx))"
| "sent x t msg sender sn z (DeadLettered err dl) \<longleftrightarrow> dl_Message dl = msg \<and> dl_Sender dl = sender \<and> dl_MsgSnId dl = sn \<and>
     GetId (dl_Target dl) = GetId t \<and>
     (\<exists>y. undelivered x y \<and> z = emitDeadLetter dl (fail_ask sender err y))"

lemma grown_undelivered: "node_wf y \<Longrightarrow> grown x y \<Longrightarrow> undelivered x y"
  by (auto simp: grown_def undelivered_def nth_append)

lemma undelivered_update:
  assumes g: "grown x y" and wf: "node_wf y" and p: "p < length (nd_procs y)" and sh: "live sh" "sh_self sh = proc_self y p"
    and acc: "sh_accepted sh = sh_accepted (pr_state (nd_procs y ! p))"
  shows "undelivered x (y\<lparr>nd_procs := (nd_procs y)[p := (nd_procs y ! p)\<lparr>pr_state := sh\<rparr>]\<rparr>)" (is "undelivered x ?z")
proof -
  have u: "undelivered x y" by (rule grown_undelivered [OF wf g])
  have a: "sh_accepted (pr_state (nd_procs ?z ! q)) = sh_accepted (pr_state (nd_procs y ! q))" if "q < length (nd_procs y)" for q
    using that acc by (cases "q = p") simp_all
  show ?thesis using u update_proc_wf [OF wf p sh] a by (simp add: undelivered_def startup_only_def)
qed

lemma refused_reply:
  "(case (case unavailable_reply reason sender of [] \<Rightarrow> None | a # as \<Rightarrow> Some a) of None \<Rightarrow> y | Some (s, m) \<Rightarrow> ref_Tell s m y)
    = fail_ask sender (WithErr (''ask target mailbox unavailable: '' @ reason_text reason)) y"
  by (auto simp: unavailable_reply_def fail_ask_def split: option.splits)

lemma deliver_sent:
  assumes wf: "node_wf y" and g: "grown x y" and p: "p < length (nd_procs y)"
    and ctx: "ctx_message ctx = msg" "ctx_sender ctx = sender" "ctx_msgSnId ctx = sn" and t: "GetId (ctx_target ctx) = GetId t"
    and pl: "placed x t (proc_self y p) (ctx_target ctx)"
  shows "\<exists>out. sent x t msg sender sn (proc_deliver p ctx y) out"
  using wf p
proof (cases rule: push_to_spec [of y p ctx])
  case (accepted sh)
  then have "queued y p ctx (proc_deliver p ctx y)" using p by (auto simp: queued_def proc_deliver.simps)
  then have "sent x t msg sender sn (proc_deliver p ctx y) (Accepted p)" using wf g ctx pl by auto
  then show ?thesis by blast
next
  case (refused sh reason)
  let ?y = "y\<lparr>nd_procs := (nd_procs y)[p := (nd_procs y ! p)\<lparr>pr_state := sh\<rparr>]\<rparr>"
  let ?err = "WithErr (''ask target mailbox unavailable: '' @ reason_text reason)" and ?dl = "ctx_dead_letter (Some (proc_self y p)) reason ctx"
  have "undelivered x ?y" by (rule undelivered_update [OF g wf p refused(2-4)])
  moreover have "proc_deliver p ctx y = emitDeadLetter ?dl (fail_ask sender ?err ?y)"
    unfolding proc_deliver.simps refused(1) ctx(2) Let_def prod.case fst_conv snd_conv refused_reply emitDeadLetter_def ..
  ultimately have "sent x t msg sender sn (proc_deliver p ctx y) (DeadLettered ?err ?dl)"
    using ctx t by (auto simp: ctx_dead_letter_def)
  then show ?thesis by blast
qed

lemma lookup_sent:
  assumes wf: "node_wf y" and g: "grown x y" and l: "node_lookup y (GetId t) = Some p"
  shows "\<exists>out. sent x t msg sender sn (proc_deliver p (newContext (proc_self y p) sender msg sn) y) out"
proof -
  have "p < length (nd_procs y)" "GetId (proc_self y p) = GetId t" using wf l by (simp_all add: node_wf_def)
  then show ?thesis using wf g by (intro deliver_sent) (simp_all add: newContext_def placed_def)
qed

lemma dead_letter_sent:
  assumes "node_wf y" and "grown x y"
  shows "sent x t msg sender sn (emitDeadLetter (no_mailbox t msg sender sn reason)
    (case sender of None \<Rightarrow> y | Some s \<Rightarrow> if isAsk s then ref_Tell s (ErrCodeMsg err) y else y)) (DeadLettered err (no_mailbox t msg sender sn reason))"
  using grown_undelivered [OF assms] by (auto simp: no_mailbox_def fail_ask_def)

lemma sendToLocal_sent:
  assumes wf: "node_wf y" and g: "grown x y" and same: "nd_registry y = nd_registry x" "nd_procs y = nd_procs x"
  shows "\<exists>out. sent x t msg sender sn (sendToLocal t msg sender sn y) out"
proof (cases "isAsk t")
  case True
  then have "sent x t msg sender sn (sendToLocal t msg sender sn y) Answered"
    using wf g same(2) by (auto simp: sendToLocal.simps)
  then show ?thesis by blast
next
  case ask: False
  show ?thesis
  proof (cases "node_lookup y (GetId t)")
    case (Some p)
    then show ?thesis using lookup_sent [OF wf g Some] ask by (simp add: sendToLocal.simps)
  next
    case none: None
    show ?thesis
    proof (cases "msg = Poison")
      case True
      have "node_lookup x (GetId t) = None" using none same(1) by (simp add: node_lookup_def)
      then have "sent x t msg sender sn (sendToLocal t msg sender sn y) Ignored"
        using True ask none wf g same(2) by (simp add: sendToLocal.simps)
      then show ?thesis by blast
    next
      case False
      obtain ok z where e: "(if isCluster t then ensureClusterKindActorExist t y else (False, y)) = (ok, z)" "node_wf z" "grown y z"
        using ensure_spec [OF wf, of t] wf grown_refl by (metis (no_types, lifting))
      have gz: "grown x z" using g e(3) by (fastforce simp: grown_def)
      show ?thesis
      proof (cases "if ok then node_lookup z (GetId t) else None")
        case (Some p)
        then have "node_lookup z (GetId t) = Some p" by (auto split: if_splits)
        then show ?thesis using lookup_sent [OF e(2) gz] ask none False e(1) Some by (simp add: sendToLocal.simps)
      next
        case None
        then have "sendToLocal t msg sender sn y = emitDeadLetter (no_mailbox t msg sender sn ReasonNotFound)
            (case sender of None \<Rightarrow> z | Some s \<Rightarrow> if isAsk s then ref_Tell s (ErrCodeMsg errActorNotFound) z else z)"
          using ask none False e(1) by (simp add: sendToLocal.simps)
        then show ?thesis using dead_letter_sent [OF e(2) gz] by metis
      qed
    qed
  qed
qed

lemma stream_self_id:
  assumes "is_stream self a w" and "separator_free a" "separator_free self"
  shows "GetId (newDirectActorRef (GetKind w) (GetName w) self sys ptr) = stream_id self a"
proof -
  obtain s p where w: "w = newDirectActorRef defaultWriteStreamKind a self s p" using assms(1) by (auto simp: is_stream_def)
  have "slash \<notin> set defaultWriteStreamKind" by (simp add: name_constants)
  then have "GetKind w = defaultWriteStreamKind" "GetName w = a"
    unfolding w using assms(2,3) by (simp_all add: direct_ref_parts separator_free_def)
  then show ?thesis using is_stream_id [OF is_stream_new] by simp
qed

lemma sendToRemote_sent:
  assumes wf: "node_wf y" and g: "grown x y" and r: "route_ok (nd_addr x) ns t route" "(v, ns) \<in> rt_hist (nd_routing x)"
    "published_version (nd_routing x) \<le> v" and far: "fst route \<noteq> nd_addr x" "isDirect t \<or> fst route \<noteq> []"
  shows "\<exists>out. sent x t msg sender sn (sendToRemote route t msg sender sn y) out"
proof -
  obtain w where w: "snd route = Some w" "is_stream (nd_addr x) (fst route) w" "fst route = owner_address ns t"
    using r(1) far by (cases "snd route") (auto simp: route_ok_def)
  have y: "nd_addr y = nd_addr x" using g by (simp add: grown_def)
  obtain p z where z: "get_stream w y = (p, z)" "node_wf z" "grown y z" "p < length (nd_procs z)"
    "GetId (proc_self z p) = GetId w \<or> GetId (proc_self z p) = GetId (newDirectActorRef (GetKind w) (GetName w) (nd_addr y) (nd_self y) (nd_nextPtr y))"
    using get_stream_spec [OF wf] by metis
  have gz: "grown x z" using g z(3) by (fastforce simp: grown_def)
  have "GetId (proc_self z p) = stream_id (nd_addr x) (fst route)" if "separator_free (fst route)" "separator_free (nd_addr x)"
    using z(5) y stream_self_id [OF w(2) that] is_stream_id [OF w(2)] by auto
  then have "placed x t (proc_self z p) t" using r(2,3) far(1) unfolding placed_def w(3) by blast
  then show ?thesis using deliver_sent [OF z(2) gz z(4), of "newContext t sender msg sn" msg sender sn t] w(1) z(1)
    by (simp add: sendToRemote.simps newContext_def)
qed

lemma tellWithSender_sent:
  assumes wf: "node_wf x"
  shows "\<exists>out. sent x t msg sender sn (tellWithSender (Some t) msg sender sn x) out"
proof -
  obtain route r ns v where R: "node_resolve t x = (route, x\<lparr>nd_routing := r\<rparr>)" "node_wf (x\<lparr>nd_routing := r\<rparr>)"
    "grown x (x\<lparr>nd_routing := r\<rparr>)" "route_ok (nd_addr x) ns t route" "(v, ns) \<in> rt_hist (nd_routing x)" "published_version (nd_routing x) \<le> v"
    using node_resolve_spec [OF wf] by blast
  note remote = sendToRemote_sent [OF R(2-6)] and local = sendToLocal_sent [OF R(2,3)]
  show ?thesis
  proof (cases "isDirect t")
    case True
    have "fst route = GetDirectAddr t" using R(4) True by (simp add: route_ok_def owner_address_def)
    then show ?thesis using True remote sendToLocal_sent [OF wf grown_refl] R(1)
      by (cases "GetDirectAddr t = nd_addr x") (simp_all add: tellWithSender.simps)
  next
    case False
    show ?thesis
    proof (cases "node_lookup x (GetId t)")
      case (Some p)
      then show ?thesis using lookup_sent [OF wf grown_refl Some] False by (simp add: tellWithSender.simps)
    next
      case None
      have dead: "\<exists>out. sent x t msg sender sn (emitDeadLetter (no_mailbox t msg sender sn ReasonNoOwner)
          (case sender of None \<Rightarrow> x\<lparr>nd_routing := r\<rparr> | Some s \<Rightarrow> if isAsk s then ref_Tell s (ErrCodeMsg errKindNotInCluster) (x\<lparr>nd_routing := r\<rparr>)
             else x\<lparr>nd_routing := r\<rparr>)) out"
        using dead_letter_sent [OF R(2,3)] by blast
      have eq: "tellWithSender (Some t) msg sender sn x =
          (if fst route = [] then emitDeadLetter (no_mailbox t msg sender sn ReasonNoOwner)
             (case sender of None \<Rightarrow> x\<lparr>nd_routing := r\<rparr> | Some s \<Rightarrow> if isAsk s then ref_Tell s (ErrCodeMsg errKindNotInCluster) (x\<lparr>nd_routing := r\<rparr>)
                else x\<lparr>nd_routing := r\<rparr>)
           else if fst route = nd_addr x then sendToLocal t msg sender sn (x\<lparr>nd_routing := r\<rparr>)
           else sendToRemote route t msg sender sn (x\<lparr>nd_routing := r\<rparr>))"
        using False None R(1) by (cases sender) (simp_all add: tellWithSender.simps)
      show ?thesis unfolding eq using dead remote local by simp
    qed
  qed
qed

subsection \<open>Every operation keeps the invariant\<close>

lemma deliverReply_spec:
  assumes "cm_wf (as_pending a)"
  shows "cm_wf (as_pending (deliverReply i m a))" "cm_Get (as_pending (deliverReply i m a)) = (cm_Get (as_pending a))(i := None)"
    "as_chans (deliverReply i m a) = (case cm_Get (as_pending a) i of None \<Rightarrow> as_chans a
       | Some ch \<Rightarrow> if as_chans a ! ch = None then (as_chans a)[ch := Some m] else as_chans a)"
proof -
  obtain r q where p: "cm_Pop (as_pending a) i = (r, q)" by fastforce
  note P = pending_Pop [OF assms p]
  show "cm_wf (as_pending (deliverReply i m a))" "cm_Get (as_pending (deliverReply i m a)) = (cm_Get (as_pending a))(i := None)"
    "as_chans (deliverReply i m a) = (case cm_Get (as_pending a) i of None \<Rightarrow> as_chans a
       | Some ch \<Rightarrow> if as_chans a ! ch = None then (as_chans a)[ch := Some m] else as_chans a)"
    using P p by (auto simp: deliverReply_def reply_pop_def chan_send_def split: option.splits)
qed

lemma sent_wf:
  assumes s: "sent x t msg sender sn z out" and R: "\<And>s m y. sender = Some s \<Longrightarrow> node_wf y \<Longrightarrow> node_wf (ref_Tell s m y)"
  shows "node_wf z"
proof (cases out)
  case Answered
  then show ?thesis using s deliverReply_spec(1) by (auto simp: node_wf_def node_lookup_def proc_self_def)
next
  case (Accepted p)
  then obtain y ctx where "node_wf y" "queued y p ctx z" using s by auto
  then show ?thesis using update_proc_wf by (auto simp: queued_def)
next
  case (DeadLettered err dl)
  then obtain y where y: "node_wf y" "z = emitDeadLetter dl (fail_ask sender err y)" using s by (auto simp: undelivered_def)
  then have "node_wf (fail_ask sender err y)" using R by (auto simp: fail_ask_def split: option.splits)
  then show ?thesis by (simp add: y(2) emitDeadLetter_def node_wf_def node_lookup_def proc_self_def)
qed (use s in simp)

lemma tell_None_wf: "node_wf x \<Longrightarrow> node_wf (tellWithSender (Some t) msg None sn x)"
  using tellWithSender_sent [of x t msg None sn] sent_wf by blast

lemma ref_Tell_wf:
  assumes "node_wf x" shows "node_wf (ref_Tell s msg x)"
proof -
  let ?x = "x\<lparr>nd_asks := snd (nextSnId (nd_asks x))\<rparr>"
  have "node_wf ?x" using assms by (simp add: node_wf_def node_lookup_def proc_self_def nextSnId_def)
  then have "node_wf (sys_tell s msg x)" using tell_None_wf by (simp add: sys_tell.simps)
  then show ?thesis using assms by (simp add: ref_Tell.simps node_wf_def node_lookup_def proc_self_def)
qed

lemma tellWithSender_wf: "node_wf x \<Longrightarrow> node_wf (tellWithSender t msg sender sn x)"
proof (cases t)
  case (Some a)
  then show "node_wf x \<Longrightarrow> ?thesis" using tellWithSender_sent [of x a msg sender sn] sent_wf ref_Tell_wf by blast
qed (simp add: tellWithSender.simps)

lemma sys_tell_wf: "node_wf x \<Longrightarrow> node_wf (sys_tell t msg x)"
  unfolding sys_tell.simps by (intro tellWithSender_wf) (simp add: node_wf_def node_lookup_def proc_self_def nextSnId_def)

subsection \<open>Stopping, replying, forwarding and spawning\<close>

definition poison_proc :: "nat \<Rightarrow> node \<Rightarrow> node" where
  "poison_proc p x = (let pr = nd_procs x ! p in x\<lparr>nd_procs := (nd_procs x)[p := pr\<lparr>pr_state := proc_poison (pr_state pr)\<rparr>]\<rparr>)"

definition sys_Poison :: "actor_ref \<Rightarrow> node \<Rightarrow> node" where
  "sys_Poison ref x = (case node_lookup x (GetId ref) of Some p \<Rightarrow> poison_proc p x | None \<Rightarrow> sys_tell ref Poison x)"

text \<open>\<open>Reply\<close> takes a shorter way when the sender is an ask of this very system.\<close>

definition own_reply :: "actor_ref option \<Rightarrow> node \<Rightarrow> u64 option" where
  "own_reply sender x = (case sender of
      Some (ReplyRef r) \<Rightarrow> if rr_system r = nd_self x \<and> rr_addr r = nd_addr x then Some (rr_snId r) else None
    | _ \<Rightarrow> None)"

definition ctx_Reply :: "actor_context \<Rightarrow> proto_message \<Rightarrow> node \<Rightarrow> node" where
  "ctx_Reply ctx msg x = (case own_reply (ctx_sender ctx) x of
      Some i \<Rightarrow> x\<lparr>nd_asks := deliverReply i msg (nd_asks x)\<rparr>
    | None \<Rightarrow> tellWithSender (ctx_sender ctx) msg (Some (ctx_target ctx)) (ctx_msgSnId ctx) x)"

definition ctx_Forward :: "actor_context \<Rightarrow> actor_ref option \<Rightarrow> node \<Rightarrow> node" where
  "ctx_Forward ctx target x = tellWithSender target (ctx_message ctx) (ctx_sender ctx) (ctx_msgSnId ctx) x"

datatype spawn_error = InvalidName name_error | NameTaken string

text \<open>\<open>SpawnNamed\<close> with \<open>spawnNewProcessor\<close> of a caller that runs alone.\<close>

definition SpawnNamed :: "nat \<Rightarrow> string \<Rightarrow> KindOptFunc list \<Rightarrow> node \<Rightarrow> (spawn_error + actor_ref) \<times> node" where
  "SpawnNamed producer name opts x = (case ValidateActorName name of Some e \<Rightarrow> (Inl (InvalidName e), x)
     | None \<Rightarrow>
        let options = newOpts producer (opts @ [withOptsDirectSelf name (nd_addr x) (nd_self x) (nd_nextPtr x)]);
            x = x\<lparr>nd_nextPtr := nd_nextPtr x + 1\<rparr>
        in case op_self options of None \<Rightarrow> (Inl (NameTaken []), x\<lparr>nd_panic := True\<rparr>)
           | Some self \<Rightarrow>
              if node_lookup x (GetId self) \<noteq> None then (Inl (NameTaken (GetId self)), x)
              else (let (p, y) = getOrSpawn options x in (Inr (proc_self y p), y)))"

definition GetClusterActorRef :: "string \<Rightarrow> string \<Rightarrow> node \<Rightarrow> (actor_ref \<times> node) option" where
  "GetClusterActorRef kind name x = (if validateKindName kind \<noteq> None \<or> ValidateActorName name \<noteq> None then None
     else Some (newClusterActorRef kind name (nd_self x) (nd_nextPtr x), x\<lparr>nd_nextPtr := nd_nextPtr x + 1\<rparr>))"

lemma live_poison: "live sh \<Longrightarrow> live (proc_poison sh)"
  unfolding live_def using preach.step [OF _ pstep.poison] by blast

lemma poison_proc_wf:
  assumes wf: "node_wf x" and p: "p < length (nd_procs x)"
  shows "node_wf (poison_proc p x)"
proof -
  have "live (pr_state (nd_procs x ! p))" using wf p by (auto simp: node_wf_def)
  then have "live (proc_poison (pr_state (nd_procs x ! p)))" by (rule live_poison)
  then show ?thesis unfolding poison_proc_def Let_def by (intro update_proc_wf [OF wf p]) (simp_all add: proc_self_def proc_poison_def)
qed

lemma sys_Poison_wf:
  assumes "node_wf x" shows "node_wf (sys_Poison ref x)"
proof (cases "node_lookup x (GetId ref)")
  case (Some p)
  then have "p < length (nd_procs x)" using assms by (simp add: node_wf_def)
  then show ?thesis using poison_proc_wf [OF assms] Some by (simp add: sys_Poison_def)
qed (simp add: sys_Poison_def sys_tell_wf [OF assms])

lemma deliver_own_wf: "node_wf x \<Longrightarrow> node_wf (x\<lparr>nd_asks := deliverReply i msg (nd_asks x)\<rparr>)"
  by (simp add: node_wf_def node_lookup_def proc_self_def deliverReply_spec(1))

lemma ctx_Reply_wf: "node_wf x \<Longrightarrow> node_wf (ctx_Reply ctx msg x)"
  by (simp add: ctx_Reply_def deliver_own_wf tellWithSender_wf split: option.splits)

lemma newOpts_direct_self:
  "\<exists>self. op_self (newOpts p (os @ [withOptsDirectSelf name addr sys ptr])) = Some self"
  by (simp add: newOpts_def withOptsDirectSelf_def Let_def)

lemma SpawnNamed_wf:
  assumes wf: "node_wf x" and sz: "sizes_ok (newOpts producer (opts @ [withOptsDirectSelf name (nd_addr x) (nd_self x) (nd_nextPtr x)]))"
  shows "node_wf (snd (SpawnNamed producer name opts x))"
proof -
  let ?o = "newOpts producer (opts @ [withOptsDirectSelf name (nd_addr x) (nd_self x) (nd_nextPtr x)])"
  let ?x = "x\<lparr>nd_nextPtr := nd_nextPtr x + 1\<rparr>"
  have wf': "node_wf ?x" using wf by (simp add: node_wf_def node_lookup_def proc_self_def)
  obtain self where s: "op_self ?o = Some self" using newOpts_direct_self by blast
  obtain p y where "getOrSpawn ?o ?x = (p, y)" "node_wf y" using getOrSpawn_spec [OF wf' s sz] by blast
  then show ?thesis using wf wf' s by (simp add: SpawnNamed_def Let_def split: option.splits)
qed

subsection \<open>Properties\<close>

lemma own_reply_tell:
  assumes "rr_addr r = nd_addr x"
  shows "tellWithSender (Some (ReplyRef r)) msg sender sn x = x\<lparr>nd_asks := deliverReply (rr_snId r) msg (nd_asks x)\<rparr>"
  using assms by (simp add: tellWithSender.simps sendToLocal.simps)

lemma own_reply_ref_Tell:
  assumes "rr_addr r = nd_addr x" "rr_system r = nd_self x"
  shows "ref_Tell (ReplyRef r) msg x = x\<lparr>nd_asks := deliverReply (rr_snId r) msg (snd (nextSnId (nd_asks x)))\<rparr>"
  using assms by (simp add: ref_Tell.simps sys_tell.simps own_reply_tell)

text \<open>
  C8. A message is never lost silently. On a well-formed node, whatever the target, the message, the
  sender and the state of the mailboxes, a send ends in one of the outcomes: handed to the
  pending asks, a stop request for an actor that is not running, accepted at the end of the mailbox of the
  target's processor or of the stream to the node that owns the target in a published membership (the
  message, sender and number unchanged, nothing else in any mailbox), or a dead letter that carries them,
  where the sender is told the error first if it waits for an answer. The node stays well-formed, in
  particular no nil reference is used and every processor stays in a reachable state. The same for
  \<open>Poison\<close>, \<open>Reply\<close> and \<open>Forward\<close>, and a reply to an ask of this system takes the shorter way without
  changing what happens.
\<close>

theorem send_has_an_outcome:
  assumes "node_wf x"
  shows "(\<exists>out. sent x t msg sender sn (tellWithSender (Some t) msg sender sn x) out) \<and>
    node_wf (tellWithSender tgt msg sender sn x) \<and> node_wf (sys_Poison t x) \<and> node_wf (ctx_Reply ctx msg x) \<and>
    node_wf (ctx_Forward ctx tgt x) \<and>
    ctx_Reply ctx msg x = tellWithSender (ctx_sender ctx) msg (Some (ctx_target ctx)) (ctx_msgSnId ctx) x"
proof -
  have "ctx_Reply ctx msg x = tellWithSender (ctx_sender ctx) msg (Some (ctx_target ctx)) (ctx_msgSnId ctx) x"
    using own_reply_tell by (auto simp: ctx_Reply_def own_reply_def split: option.splits actor_ref.splits)
  then show ?thesis
    using tellWithSender_sent [OF assms] tellWithSender_wf [OF assms] sys_Poison_wf [OF assms] ctx_Reply_wf [OF assms]
    by (simp add: ctx_Forward_def)
qed

text \<open>
  C9. A message that cannot be delivered fails its ask at once. When a waiting ask of this node sends a
  request to anything but an ask reference, then a processor accepted the request (its target's, or the
  stream's towards its owner), or the ask's channel already holds an error and the ask is out of the table:
  it never waits out its timeout for a target that is known to be missing.
\<close>

theorem undeliverable_ask_fails_at_once:
  assumes wf: "node_wf x" and p: "cm_Get (as_pending (nd_asks x)) i = Some ch" and ch: "ch < length (as_chans (nd_asks x))"
    and e: "as_chans (nd_asks x) ! ch = None" and m: "msg \<noteq> Poison" and t: "\<not> isAsk t"
    and z: "z = tellWithSender (Some t) msg (Some (newReplyRef i (nd_addr x) (nd_self x))) sn x"
  shows "(\<exists>p. sent x t msg (Some (newReplyRef i (nd_addr x) (nd_self x))) sn z (Accepted p)) \<or>
    (\<exists>err. as_chans (nd_asks z) ! ch = Some (ErrCodeMsg err) \<and> cm_Get (as_pending (nd_asks z)) i = None)"
proof -
  let ?s = "newReplyRef i (nd_addr x) (nd_self x)"
  obtain out where out: "sent x t msg (Some ?s) sn z out" using tellWithSender_sent [OF wf] z by blast
  show ?thesis
  proof (cases out)
    case (DeadLettered err dl)
    then obtain y where y: "undelivered x y" "z = emitDeadLetter dl (fail_ask (Some ?s) err y)" using out by auto
    have wy: "cm_wf (as_pending (nd_asks y))" using y(1) unfolding undelivered_def node_wf_def by blast
    have "nd_asks z = deliverReply i (ErrCodeMsg err) (snd (nextSnId (nd_asks y)))"
      using y by (simp add: undelivered_def fail_ask_def newReplyRef_def emitDeadLetter_def own_reply_ref_Tell)
    moreover have "cm_wf (as_pending (snd (nextSnId (nd_asks y))))" using wy by (simp add: nextSnId_def)
    ultimately show ?thesis using deliverReply_spec [of "snd (nextSnId (nd_asks y))" i "ErrCodeMsg err"] y(1) p e ch
      by (auto simp: undelivered_def nextSnId_def)
  next
    case (Accepted p)
    then show ?thesis using out by blast
  qed (use out m t in auto)
qed

lemma cluster_not_direct: "isCluster t \<Longrightarrow> \<not> isDirect t"
  by (cases t) (simp_all add: name_constants)

text \<open>The sender of a message is told of a failure only when it is an ask.\<close>

definition no_asker :: "actor_ref option \<Rightarrow> bool" where
  "no_asker sender \<longleftrightarrow> (\<forall>s. sender = Some s \<longrightarrow> \<not> isAsk s)"

text \<open>What an activation leads to: the new processor, under the options of the kind.\<close>

lemma ensure_new:
  assumes wf: "node_wf x" and n: "node_lookup x (GetId t) = None" and d: "\<not> nd_draining x"
    and kind: "map_of (cf_kinds (nd_config x)) (GetKind t) = Some kind"
    and opts: "opts = newOpts (tk_producer kind) (tk_opts kind @ [withOptsClusterSelf t])"
  obtains w sh startup where "ensureClusterKindActorExist t x = (True, w)" "node_lookup w (GetId t) = Some (length (nd_procs x))"
    "nd_procs w = nd_procs x @ [\<lparr>pr_opts = opts, pr_state = sh\<rparr>]" "nd_deadLetters w = nd_deadLetters x"
    "live sh" "sh_self sh = t" "sh_deadLetters sh = []" "sh_askReplies sh = []" "sh_accepted sh = [startup]"
    "rb_list (sh_mailbox sh) = [startup]" "\<not> rb_closed (sh_mailbox sh)"
    "ctx_message startup = Initialize" "ctx_target startup = t" "rb_maxCap (sh_mailbox sh) = op_mailboxMaxSize opts"
    "\<not> sh_stopRequested sh" "nd_routing w = nd_routing x" "nd_addr w = nd_addr x"
proof -
  have self: "op_self opts = Some t" by (simp add: opts newOpts_last_self)
  have sz: "sizes_ok opts" using wf kind by (auto simp: opts node_wf_def kinds_ok_def)
  obtain sn asks sh reg where sn: "nextSnId (nd_asks x) = (sn, asks)"
      and sh: "buildProcessor t (op_mailboxInitSize opts) (op_mailboxMaxSize opts) True True sn = Some sh"
      and reg: "reg_register (nd_registry x) (GetId t) (length (nd_procs x)) = ((length (nd_procs x), True), reg)"
      and new: "getOrSpawn opts x = (length (nd_procs x),
        x\<lparr>nd_asks := asks, nd_procs := nd_procs x @ [\<lparr>pr_opts = opts, pr_state = sh\<rparr>], nd_registry := reg\<rparr>)"
    by (rule getOrSpawn_new [OF wf self sz n])
  let ?w = "x\<lparr>nd_asks := asks, nd_procs := nd_procs x @ [\<lparr>pr_opts = opts, pr_state = sh\<rparr>], nd_registry := reg\<rparr>"
  have cm: "cm_wf (nd_registry x)" using wf by (simp add: node_wf_def)
  have "node_lookup ?w (GetId t) = Some (length (nd_procs x))"
    using reg_register_spec(3) [OF cm, of "GetId t" "length (nd_procs x)"] reg n by (simp add: node_lookup_def reg_lookup_def)
  moreover have "ensureClusterKindActorExist t x = (True, ?w)"
    using d kind n new by (simp add: ensureClusterKindActorExist_def opts)
  moreover have "1 \<le> op_mailboxInitSize opts" "op_mailboxInitSize opts \<le> op_mailboxMaxSize opts"
    by (simp_all add: opts newOpts_def Let_def)
  ultimately show ?thesis
    using that [of ?w sh "newContext t (Some t) Initialize sn"] sz sh
      build_live [of "op_mailboxInitSize opts" "op_mailboxMaxSize opts" t True True sn]
    by (simp add: sizes_ok_def newContext_def)
qed

lemma deliver_second:
  assumes pr: "p < length (nd_procs w)" "pr_state (nd_procs w ! p) = sh" and live: "live sh" and self: "sh_self sh = self"
    and fresh: "sh_deadLetters sh = []" "sh_askReplies sh = []" "sh_accepted sh = [c0]"
    and mb: "rb_list (sh_mailbox sh) = [c0]" "\<not> rb_closed (sh_mailbox sh)"
  shows "2 \<le> rb_maxCap (sh_mailbox sh) \<Longrightarrow> \<exists>sh'. sh_accepted sh' = [c0, ctx] \<and>
      proc_deliver p ctx w = w\<lparr>nd_procs := (nd_procs w)[p := (nd_procs w ! p)\<lparr>pr_state := sh'\<rparr>]\<rparr>"
    and "\<not> 2 \<le> rb_maxCap (sh_mailbox sh) \<Longrightarrow> no_asker (ctx_sender ctx) \<Longrightarrow> \<exists>sh'. sh_accepted sh' = [c0] \<and>
      proc_deliver p ctx w = w\<lparr>nd_procs := (nd_procs w)[p := (nd_procs w ! p)\<lparr>pr_state := sh'\<rparr>],
        nd_deadLetters := nd_deadLetters w @ [ctx_dead_letter (Some self) ReasonOverflow ctx]\<rparr>"
proof -
  obtain mb' where s: "proc_send ctx sh = Some (if 2 \<le> rb_maxCap (sh_mailbox sh)
      then sh\<lparr>sh_mailbox := mb', sh_waking := sh_waking sh + 1, sh_accepted := sh_accepted sh @ [ctx]\<rparr>
      else toDeadLetter ReasonOverflow ctx sh)"
    using send_second [OF live mb] by blast
  show "\<exists>sh'. sh_accepted sh' = [c0, ctx] \<and>
      proc_deliver p ctx w = w\<lparr>nd_procs := (nd_procs w)[p := (nd_procs w ! p)\<lparr>pr_state := sh'\<rparr>]\<rparr>"
    if "2 \<le> rb_maxCap (sh_mailbox sh)"
    using s that pr fresh
    by (intro exI [of _ "sh\<lparr>sh_mailbox := mb', sh_waking := sh_waking sh + 1, sh_accepted := sh_accepted sh @ [ctx]\<rparr>"])
      (simp add: proc_deliver.simps push_to_def Let_def)
  show "\<exists>sh'. sh_accepted sh' = [c0] \<and>
      proc_deliver p ctx w = w\<lparr>nd_procs := (nd_procs w)[p := (nd_procs w ! p)\<lparr>pr_state := sh'\<rparr>],
        nd_deadLetters := nd_deadLetters w @ [ctx_dead_letter (Some self) ReasonOverflow ctx]\<rparr>"
    if "\<not> 2 \<le> rb_maxCap (sh_mailbox sh)" "no_asker (ctx_sender ctx)"
  proof -
    have "unavailable_reply ReasonOverflow (ctx_sender ctx) = []"
      using that(2) by (simp add: no_asker_def unavailable_reply_def split: option.split)
    then show ?thesis using s that(1) pr fresh self
      by (intro exI [of _ "toDeadLetter ReasonOverflow ctx sh"]) (simp add: proc_deliver.simps push_to_def Let_def toDeadLetter_def)
  qed
qed

lemma activated:
  assumes wf: "node_wf x" and n: "node_lookup x (GetId t) = None" and d: "\<not> nd_draining x"
    and k: "map_of (cf_kinds (nd_config x)) (GetKind t) = Some kind"
    and room: "room = (2 \<le> op_mailboxMaxSize (newOpts (tk_producer kind) (tk_opts kind @ [withOptsClusterSelf t])))"
    and ok: "room \<or> no_asker sender" and t: "\<not> isAsk t" "isCluster t" and m: "msg \<noteq> Poison"
    and z: "z = sendToLocal t msg sender sn x"
  defines "ctx \<equiv> \<lparr>ctx_target = t, ctx_sender = sender, ctx_msgSnId = sn, ctx_message = msg\<rparr>"
  shows "\<exists>pr startup. nd_procs z = nd_procs x @ [pr] \<and> node_lookup z (GetId t) = Some (length (nd_procs x)) \<and>
    ctx_message startup = Initialize \<and> ctx_target startup = t \<and> sh_accepted (pr_state pr) = startup # (if room then [ctx] else []) \<and>
    nd_deadLetters z = nd_deadLetters x @ (if room then [] else [ctx_dead_letter (Some t) ReasonOverflow ctx])"
proof -
  let ?n = "length (nd_procs x)" and ?opts = "newOpts (tk_producer kind) (tk_opts kind @ [withOptsClusterSelf t])"
  obtain w sh startup where w: "ensureClusterKindActorExist t x = (True, w)" "node_lookup w (GetId t) = Some ?n"
      "nd_procs w = nd_procs x @ [\<lparr>pr_opts = ?opts, pr_state = sh\<rparr>]" "nd_deadLetters w = nd_deadLetters x"
    and sh: "live sh" "sh_self sh = t" "sh_deadLetters sh = []" "sh_askReplies sh = []" "sh_accepted sh = [startup]"
      "rb_list (sh_mailbox sh) = [startup]" "\<not> rb_closed (sh_mailbox sh)"
    and st: "ctx_message startup = Initialize" "ctx_target startup = t" "rb_maxCap (sh_mailbox sh) = op_mailboxMaxSize ?opts"
    using ensure_new [OF wf n d k refl] by metis
  have pr: "?n < length (nd_procs w)" "pr_state (nd_procs w ! ?n) = sh" by (simp_all add: w(3))
  have "proc_self w ?n = t" by (simp add: proc_self_def pr(2) sh(2))
  then have zd: "z = proc_deliver ?n ctx w" using z w(1,2) t m n by (simp add: sendToLocal.simps newContext_def ctx_def)
  note D = deliver_second [OF pr sh, of ctx]
  show ?thesis
  proof (cases room)
    case True
    then obtain sh' where "sh_accepted sh' = [startup, ctx]" "z = w\<lparr>nd_procs := (nd_procs w)[?n := (nd_procs w ! ?n)\<lparr>pr_state := sh'\<rparr>]\<rparr>"
      using D(1) st(3) room zd by auto
    then show ?thesis using w st True by (intro exI [of _ "\<lparr>pr_opts = ?opts, pr_state = sh'\<rparr>"] exI [of _ startup]) (simp add: node_lookup_def)
  next
    case False
    then obtain sh' where "sh_accepted sh' = [startup]" "z = w\<lparr>nd_procs := (nd_procs w)[?n := (nd_procs w ! ?n)\<lparr>pr_state := sh'\<rparr>],
        nd_deadLetters := nd_deadLetters w @ [ctx_dead_letter (Some t) ReasonOverflow ctx]\<rparr>"
      using D(2) st(3) room zd ok by (auto simp: ctx_def)
    then show ?thesis using w st False by (intro exI [of _ "\<lparr>pr_opts = ?opts, pr_state = sh'\<rparr>"] exI [of _ startup]) (simp add: node_lookup_def)
  qed
qed

text \<open>
  C33. Activation on demand. When this node owns a cluster actor that is not running: a stop request changes
  no processor, no registration and no dead letter, so it never wakes a dormant actor. On a node that
  drains, a message activates nothing: it becomes a dead letter that carries it, an asking sender is told that
  the actor was not found, and for any other sender no processor and no registration changes. Otherwise a
  message for a kind the node hosts, from any sender, registers one new processor for the actor and changes no
  other. The mailbox of the new processor holds the startup message and then exactly this message, with its
  sender and serial number, and nothing becomes a dead letter; only a kind whose mailbox is limited to one
  message, which the startup takes, makes it an overflow.
\<close>

theorem activation_on_demand:
  assumes wf: "node_wf x" and n: "node_lookup x (GetId t) = None" and a: "\<not> isAsk t" and c: "isCluster t"
    and own: "fst (fst (node_resolve t x)) = nd_addr x" and ne: "nd_addr x \<noteq> []" and m: "msg \<noteq> Poison"
    and z: "z = tellWithSender (Some t) msg sender sn x" and zp: "zp = tellWithSender (Some t) Poison sender sn x"
  shows "nd_procs zp = nd_procs x \<and> nd_registry zp = nd_registry x \<and> nd_deadLetters zp = nd_deadLetters x \<and>
    (nd_draining x \<longrightarrow>
       (\<exists>y. nd_procs y = nd_procs x \<and> nd_registry y = nd_registry x \<and> nd_deadLetters y = nd_deadLetters x \<and>
          z = emitDeadLetter (no_mailbox t msg sender sn ReasonNotFound) (fail_ask sender errActorNotFound y)) \<and>
       (no_asker sender \<longrightarrow> nd_procs z = nd_procs x \<and> nd_registry z = nd_registry x \<and>
          nd_deadLetters z = nd_deadLetters x @ [no_mailbox t msg sender sn ReasonNotFound])) \<and>
    (\<forall>kind. \<not> nd_draining x \<and> map_of (cf_kinds (nd_config x)) (GetKind t) = Some kind \<longrightarrow>
       (let ctx = \<lparr>ctx_target = t, ctx_sender = sender, ctx_msgSnId = sn, ctx_message = msg\<rparr>;
            room = (2 \<le> op_mailboxMaxSize (newOpts (tk_producer kind) (tk_opts kind @ [withOptsClusterSelf t]))) in
        room \<or> no_asker sender \<longrightarrow>
          (\<exists>pr startup. nd_procs z = nd_procs x @ [pr] \<and> node_lookup z (GetId t) = Some (length (nd_procs x)) \<and>
             ctx_message startup = Initialize \<and> ctx_target startup = t \<and>
             sh_accepted (pr_state pr) = startup # (if room then [ctx] else []) \<and>
             nd_deadLetters z = nd_deadLetters x @ (if room then [] else [ctx_dead_letter (Some t) ReasonOverflow ctx]))))"
proof -
  obtain r where r: "snd (node_resolve t x) = x\<lparr>nd_routing := r\<rparr>" "node_wf (x\<lparr>nd_routing := r\<rparr>)"
    using node_resolve_spec [OF wf, of t] by (metis snd_conv)
  let ?y = "x\<lparr>nd_routing := r\<rparr>"
  let ?ctx = "\<lparr>ctx_target = t, ctx_sender = sender, ctx_msgSnId = sn, ctx_message = msg\<rparr>"
  have ny: "node_lookup ?y (GetId t) = None" using n by (simp add: node_lookup_def)
  have tell: "tellWithSender (Some t) mm s k x = sendToLocal t mm s k ?y" for mm s k
    using cluster_not_direct [OF c] n own ne r(1) by (simp add: tellWithSender.simps)
  have stop: "zp = ?y" using zp a ny by (simp add: tell sendToLocal.simps)
  have drain: "z = emitDeadLetter (no_mailbox t msg sender sn ReasonNotFound) (fail_ask sender errActorNotFound ?y)" if "nd_draining x"
    using that z a c m ny by (simp add: tell sendToLocal.simps ensureClusterKindActorExist_def fail_ask_def)
  have quiet: "fail_ask sender err y = y" if "no_asker sender" for err y
    using that by (simp add: fail_ask_def no_asker_def split: option.split)
  have act: "\<exists>pr startup. nd_procs z = nd_procs x @ [pr] \<and> node_lookup z (GetId t) = Some (length (nd_procs x)) \<and>
      ctx_message startup = Initialize \<and> ctx_target startup = t \<and> sh_accepted (pr_state pr) = startup # (if room then [?ctx] else []) \<and>
      nd_deadLetters z = nd_deadLetters x @ (if room then [] else [ctx_dead_letter (Some t) ReasonOverflow ?ctx])"
    if "\<not> nd_draining x" "map_of (cf_kinds (nd_config x)) (GetKind t) = Some kind"
      "room = (2 \<le> op_mailboxMaxSize (newOpts (tk_producer kind) (tk_opts kind @ [withOptsClusterSelf t])))"
      "room \<or> no_asker sender" for kind room
    using activated [OF r(2) ny _ _ that(3,4) a c m, of z sn] that(1,2) z tell by simp
  have dr: "\<exists>y. nd_procs y = nd_procs x \<and> nd_registry y = nd_registry x \<and> nd_deadLetters y = nd_deadLetters x \<and>
      z = emitDeadLetter (no_mailbox t msg sender sn ReasonNotFound) (fail_ask sender errActorNotFound y)" if "nd_draining x"
    using drain [OF that] by (intro exI [of _ ?y]) simp
  have plain: "nd_procs z = nd_procs x \<and> nd_registry z = nd_registry x \<and>
      nd_deadLetters z = nd_deadLetters x @ [no_mailbox t msg sender sn ReasonNotFound]" if "nd_draining x" "no_asker sender"
    using drain [OF that(1)] quiet [OF that(2)] by (simp add: emitDeadLetter_def)
  show ?thesis unfolding Let_def using stop dr plain act by simp
qed

subsection \<open>A concrete node\<close>

text \<open>A node right after its provider published a membership, on the string hash of the concurrent map.\<close>

definition new_node :: "nat \<Rightarrow> string \<Rightarrow> config \<Rightarrow> (string, tNodeState) go_map \<Rightarrow> node" where
  "new_node self addr conf members = \<lparr>nd_self = self, nd_addr = addr, nd_config = conf, nd_draining = False,
     nd_registry = newRegistry stringFnv32, nd_procs = [], nd_asks = new_table 5,
     nd_routing = (new_routing self addr conf)\<lparr>
       rt_provider := publishNodesLocked ((fresh_provider conf)\<lparr>pv_version := 1, pv_nodeMap := members\<rparr>),
       rt_hist := {(1, map snd members)}\<rparr>,
     nd_nextPtr = 0, nd_deadLetters = [], nd_foreign = [], nd_panic = False\<rparr>"

lemma new_node_lookup: "node_lookup (new_node self addr conf members) i = None"
  by (simp add: node_lookup_def reg_lookup_def new_node_def newRegistry_def cm_create_wf)

lemma new_node_wf: "kinds_ok conf \<Longrightarrow> node_wf (new_node self addr conf members)"
  using new_node_lookup [of self addr conf members]
  by (auto simp: node_wf_def new_node_def newRegistry_def cm_create_wf new_table_def NewIntC_def new_routing_def
      inv_gens_def inv_published_def inv_cache_def publishNodesLocked_def fresh_provider_def)

definition player_conf :: config where
  "player_conf = (default_config ''c'' ''v'' [])\<lparr>cf_kinds := [(''player'', \<lparr>tk_producer = 1, tk_opts = []\<rparr>)]\<rparr>"

definition player_node :: tNodeState where
  "player_node = zero_state\<lparr>ns_NodeId := 1, ns_Address := ''a'', ns_Kinds := [''player'']\<rparr>"

lemma player_kinds_ok: "kinds_ok player_conf"
  by (simp add: kinds_ok_def player_conf_def sizes_ok_def newOpts_def withOptsClusterSelf_def Let_def
      defaultMailboxInitSize_def defaultMailboxMaxSize_def)

lemmas player_wf = new_node_wf [OF player_kinds_ok]

theorem send_has_an_outcome_witness:
  "\<exists>out. sent (new_node 0 ''a'' player_conf []) (newDirectActorRef ''local'' ''b'' ''a'' 0 7) (UserMsg ''m'' 1) None 1
     (tellWithSender (Some (newDirectActorRef ''local'' ''b'' ''a'' 0 7)) (UserMsg ''m'' 1) None 1 (new_node 0 ''a'' player_conf [])) out"
  using send_has_an_outcome [OF player_wf] by blast

theorem undeliverable_ask_fails_at_once_witness:
  "let x = (new_node 0 ''a'' player_conf [])\<lparr>nd_asks := snd (registerAsk 6 (new_table 5))\<rparr>; s = newReplyRef 6 ''a'' 0;
       t = newDirectActorRef ''local'' ''b'' ''a'' 0 7; z = tellWithSender (Some t) (UserMsg ''m'' 1) (Some s) 6 x
   in (\<exists>p. sent x t (UserMsg ''m'' 1) (Some s) 6 z (Accepted p)) \<or>
      (\<exists>err. as_chans (nd_asks z) ! 0 = Some (ErrCodeMsg err) \<and> cm_Get (as_pending (nd_asks z)) 6 = None)"
proof -
  let ?x0 = "new_node 0 ''a'' player_conf []" and ?as = "snd (registerAsk 6 (new_table 5))"
  let ?x = "?x0\<lparr>nd_asks := ?as\<rparr>" and ?t = "newDirectActorRef ''local'' ''b'' ''a'' 0 7"
  have w: "cm_wf (as_pending (new_table 5))" by (simp add: new_table_def NewIntC_def cm_create_wf)
  have as: "cm_wf (as_pending ?as)" "cm_Get (as_pending ?as) 6 = Some 0" "as_chans ?as = [None]"
    using pending_Set [OF w, of 6 0] by (simp_all add: registerAsk_def Let_def) (simp_all add: new_table_def)
  have wf: "node_wf ?x" using player_wf [of 0 "''a''" "[]"] as(1) by (simp add: node_wf_def node_lookup_def proc_self_def)
  have t: "\<not> isAsk ?t" using direct_ref_parts(6) [of "''local''" "''b''" "''a''" 0 7] by (simp add: name_constants)
  have a: "nd_addr ?x = ''a''" "nd_self ?x = 0" by (simp_all add: new_node_def)
  show ?thesis unfolding Let_def
    using undeliverable_ask_fails_at_once [OF wf, of 6 0 "UserMsg ''m'' 1" ?t _ 6, OF _ _ _ _ t refl] as a by simp
qed

lemma player_owned:
  assumes "GetKind t = ''player''" "isCluster t"
  shows "fst (fst (node_resolve t (new_node 0 ''a'' player_conf [(''1'', player_node)]))) = ''a''"
proof -
  let ?x = "new_node 0 ''a'' player_conf [(''1'', player_node)]"
  obtain route ns v where r: "fst (node_resolve t ?x) = route" "route_ok (nd_addr ?x) ns t route" "(v, ns) \<in> rt_hist (nd_routing ?x)"
    using node_resolve_spec [OF player_wf [of 0 "''a''" "[(''1'', player_node)]"], of t] by (metis fst_conv)
  have "ns = [player_node]" using r(3) by (simp add: new_node_def)
  moreover have "candidates [player_node] ''player'' = {''a''}" by (auto simp: candidates_def player_node_def)
  then have "CalcAddrByKind8Name [player_node] ''player'' (GetName t) = ''a''"
    using CalcAddr_owns [of "[player_node]" "''player''" "GetName t"] by (simp add: owns_def)
  ultimately show ?thesis using r(1,2) assms cluster_not_direct by (simp add: route_ok_def owner_address_def)
qed

theorem activation_on_demand_witness:
  "let x = new_node 0 ''a'' player_conf [(''1'', player_node)]; t = newClusterActorRef ''player'' ''p1'' 0 7;
       s = Some (newReplyRef 6 ''a'' 0); z = tellWithSender (Some t) (UserMsg ''m'' 1) s 9 x
   in node_lookup z (GetId t) = Some 0 \<and>
      (\<exists>startup. ctx_message startup = Initialize \<and> sh_accepted (pr_state (nd_procs z ! 0)) =
         [startup, \<lparr>ctx_target = t, ctx_sender = s, ctx_msgSnId = 9, ctx_message = UserMsg ''m'' 1\<rparr>])"
proof -
  let ?x = "new_node 0 ''a'' player_conf [(''1'', player_node)]" and ?t = "newClusterActorRef ''player'' ''p1'' 0 7"
  let ?kind = "\<lparr>tk_producer = 1, tk_opts = []\<rparr>" let ?room = "2 \<le> op_mailboxMaxSize (newOpts (tk_producer ?kind) (tk_opts ?kind @ [withOptsClusterSelf ?t]))"
  have k: "GetKind ?t = ''player''" "isCluster ?t" using cluster_ref_parts [of "''player''" "''p1''" 0 7] by simp_all
  have ask: "\<not> isAsk ?t" using k(1) by (simp add: newClusterActorRef_def Let_def name_constants)
  have x: "nd_addr ?x = ''a''" "nd_procs ?x = []" "\<not> nd_draining ?x" by (simp_all add: new_node_def)
  have kind: "map_of (cf_kinds (nd_config ?x)) (GetKind ?t) = Some ?kind" by (simp add: new_node_def player_conf_def k(1))
  have room: ?room by (simp add: newOpts_def withOptsClusterSelf_def Let_def defaultMailboxInitSize_def defaultMailboxMaxSize_def)
  have own: "fst (fst (node_resolve ?t ?x)) = nd_addr ?x" using player_owned [OF k(1,2)] x(1) by simp
  have side: "nd_addr ?x \<noteq> []" "UserMsg ''m'' 1 \<noteq> Poison" using x(1) by simp_all
  note A = activation_on_demand [where sender = "Some (newReplyRef 6 ''a'' 0)" and sn = 9,
      OF player_wf new_node_lookup ask k(2) own side refl refl, THEN conjunct2, THEN conjunct2, THEN conjunct2, THEN conjunct2]
  from A [rule_format, of ?kind, unfolded Let_def] room x kind show ?thesis unfolding Let_def by fastforce
qed

end
