(* ===== verification/Stream_Write.thy ===== *)
theory Stream_Write
  imports System_Send
begin

section \<open>Messages between nodes: stream_write.go, system_envelope.go\<close>

text \<open>
  The stream actor of another node turns every message it receives into an envelope and writes it to one
  gRPC stream; the other node's \<open>RecvEnvelope\<close> decodes it and sends it on. The actor's state says
  whether its connection and its stream exist. gRPC, the protobuf codec and the table of message types are
  parameters; what the actor does is the list of its effects, in order.
\<close>

record envelope =
  env_Sender :: string
  env_Target :: string
  env_MsgSnId :: u64
  env_MsgName :: string
  env_Content :: string

record stream_actor =
  sw_self :: actor_ref
  sw_router :: actor_ref
  sw_address :: string
  sw_conn :: bool
  sw_remote :: bool

datatype stream_effect = SendEnvelope envelope | TellSender actor_ref proto_message | EmitDeadLetter dead_letter
  | PoisonSelf | CloseConn | CloseSend | StartReceiver

subsection \<open>The stream actor\<close>

definition newStreamWriterActor :: "actor_ref \<Rightarrow> actor_ref \<Rightarrow> string \<Rightarrow> stream_actor" where
  "newStreamWriterActor self router address = \<lparr>sw_self = self, sw_router = router, sw_address = address,
     sw_conn = False, sw_remote = False\<rparr>"

text \<open>\<open>dial\<close> and \<open>listen\<close> tell whether \<open>grpc.NewClient\<close> and \<open>Listen\<close> succeed.\<close>

definition sw_Started :: "(string \<Rightarrow> bool) \<Rightarrow> (string \<Rightarrow> bool) \<Rightarrow> stream_actor \<Rightarrow> stream_actor \<times> stream_effect list" where
  "sw_Started dial listen x =
     (if \<not> dial (sw_address x) then (x, [PoisonSelf])
      else if \<not> listen (sw_address x) then (x, [CloseConn, PoisonSelf])
      else (x\<lparr>sw_conn := True, sw_remote := True\<rparr>, [StartReceiver]))"

text \<open>The goroutine that waits on the write-only stream: whatever comes back, the actor stops.\<close>

datatype recv_result = RecvMsg | RecvEOF | RecvStatus nat

definition sw_receiver :: "recv_result \<Rightarrow> stream_effect list" where
  "sw_receiver r = [PoisonSelf]"

definition sw_PreStop :: "stream_actor \<Rightarrow> stream_actor \<times> stream_effect list" where
  "sw_PreStop x =
     (let fx1 = (if sw_remote x then [CloseSend] else []); x1 = x\<lparr>sw_remote := False\<rparr>;
          fx2 = (if sw_conn x1 then [CloseConn] else []); x2 = x1\<lparr>sw_conn := False\<rparr>
      in (x2, fx1 @ fx2))"

definition sw_deadLetter :: "actor_context \<Rightarrow> dead_letter_reason \<Rightarrow> stream_actor \<Rightarrow> stream_effect list" where
  "sw_deadLetter ctx reason x =
     (case ctx_sender ctx of
        Some s \<Rightarrow> if isAsk s then [TellSender s (ErrCodeMsg (WithErr (''send to remote failed: '' @ reason_text reason)))] else []
      | None \<Rightarrow> []) @
     [EmitDeadLetter (ctx_dead_letter (Some (sw_self x)) reason ctx)]"

text \<open>\<open>send\<close> tells whether the stream takes the envelope.\<close>

definition sw_sendToRemote :: "(envelope \<Rightarrow> bool) \<Rightarrow> actor_context \<Rightarrow> envelope \<Rightarrow> stream_actor \<Rightarrow> stream_effect list" where
  "sw_sendToRemote send ctx env x =
     (if send env then [SendEnvelope env]
      else sw_deadLetter ctx ReasonUnreachable x @ (if sw_conn x then [CloseConn] else []) @ [PoisonSelf])"

definition make_envelope :: "actor_context \<Rightarrow> string \<Rightarrow> envelope" where
  "make_envelope ctx content = \<lparr>env_Sender = (case ctx_sender ctx of Some s \<Rightarrow> GetId s | None \<Rightarrow> []),
     env_Target = GetId (ctx_target ctx), env_MsgSnId = ctx_msgSnId ctx,
     env_MsgName = MessageName (ctx_message ctx), env_Content = content\<rparr>"

definition sw_Receive ::
  "(proto_message \<Rightarrow> string + string) \<Rightarrow> (envelope \<Rightarrow> bool) \<Rightarrow> actor_context \<Rightarrow> stream_actor \<Rightarrow> stream_effect list" where
  "sw_Receive marshal send ctx x =
     (if \<not> sw_remote x then sw_deadLetter ctx ReasonUnreachable x
      else case marshal (ctx_message ctx) of
        Inl err \<Rightarrow> sw_deadLetter ctx (ReasonMarshal err) x
      | Inr content \<Rightarrow> sw_sendToRemote send ctx (make_envelope ctx content) x)"

subsection \<open>The receiving node\<close>

text \<open>\<open>registered\<close> is the table of message types, \<open>unmarshal\<close> decodes a body of a type.\<close>

definition RecvEnvelope ::
  "(string \<Rightarrow> bool) \<Rightarrow> (string \<Rightarrow> string \<Rightarrow> proto_message option) \<Rightarrow> envelope option \<Rightarrow> node \<Rightarrow> node" where
  "RecvEnvelope registered unmarshal envelope x = (case envelope of None \<Rightarrow> x | Some e \<Rightarrow>
     if env_MsgName e = MessageName Initialize then x
     else if \<not> registered (env_MsgName e) then x
     else case unmarshal (env_MsgName e) (env_Content e) of None \<Rightarrow> x | Some bodyMsg \<Rightarrow>
       if env_Target e = [] then x
       else
         let (sender, x) = (if env_Sender e \<noteq> [] then (Some (newActorRefFromAID (env_Sender e) (nd_self x) (nd_nextPtr x)), x\<lparr>nd_nextPtr := nd_nextPtr x + 1\<rparr>)
                            else (None, x));
             target = newActorRefFromAID (env_Target e) (nd_self x) (nd_nextPtr x);
             x = x\<lparr>nd_nextPtr := nd_nextPtr x + 1\<rparr>
         in tellWithSender (Some target) bodyMsg sender (env_MsgSnId e) x)"

text \<open>
  \<open>RpcService.Listen\<close> with \<open>recvEnvelope\<close>: the results of \<open>Recv\<close> in order, up to the first error. A nil
  envelope without an error is skipped, and a panic of the receiver is recovered, which leaves whatever the
  receiver had done.
\<close>

datatype listen_end = ListenNil | ListenErr nat

datatype listen_item = ItemMsg envelope | ItemNil | ItemEOF | ItemCanceled | ItemErr nat

fun Listen :: "(envelope \<Rightarrow> 's \<Rightarrow> 's) \<Rightarrow> listen_item list \<Rightarrow> 's \<Rightarrow> listen_end option \<times> 's" where
  "Listen recv [] s = (None, s)"
| "Listen recv (ItemMsg e # rest) s = Listen recv rest (recv e s)"
| "Listen recv (ItemNil # rest) s = Listen recv rest s"
| "Listen recv (ItemEOF # rest) s = (Some ListenNil, s)"
| "Listen recv (ItemCanceled # rest) s = (Some ListenNil, s)"
| "Listen recv (ItemErr code # rest) s = (Some (ListenErr code), s)"

subsection \<open>Properties\<close>

text \<open>The envelopes a stream delivers are those before its first error, each once and in order.\<close>

fun before_error :: "listen_item list \<Rightarrow> envelope list" where
  "before_error (ItemMsg e # rest) = e # before_error rest"
| "before_error (ItemNil # rest) = before_error rest"
| "before_error rest = []"

lemma Listen_in_order: "snd (Listen recv items s) = fold recv (before_error items) s"
  by (induction recv items s rule: Listen.induct) auto

lemma Listen_ends: "fst (Listen recv items s) = None \<longleftrightarrow> (\<forall>i \<in> set items. i = ItemNil \<or> (\<exists>e. i = ItemMsg e))"
  by (induction recv items s rule: Listen.induct) auto

lemma Listen_total: "\<lbrakk>i \<in> set items; i \<in> {ItemEOF, ItemCanceled} \<union> range ItemErr\<rbrakk> \<Longrightarrow> \<exists>r. fst (Listen recv items s) = Some r"
  using Listen_ends [of recv items s] by fastforce

text \<open>The message inside a broadcast wrapper, which is what its protobuf encoding contains.\<close>

fun unwrap :: "proto_message \<Rightarrow> proto_message" where
  "unwrap (BroadcastPublish m) = unwrap m"
| "unwrap m = m"

definition codec_ok :: "(proto_message \<Rightarrow> string + string) \<Rightarrow> (string \<Rightarrow> bool) \<Rightarrow> (string \<Rightarrow> string \<Rightarrow> proto_message option) \<Rightarrow> bool" where
  "codec_ok marshal registered unmarshal \<longleftrightarrow> (\<forall>m c. marshal m = Inr c \<longrightarrow>
     registered (MessageName m) \<and> unmarshal (MessageName m) c = Some (unwrap m))"

lemma GetId_nonempty: "GetId (newReplyRef i addr sys) \<noteq> []"
  by (simp add: newReplyRef_def name_constants)

lemma Receive_sends:
  assumes "SendEnvelope e \<in> set (sw_Receive marshal send ctx x)"
  shows "\<exists>c. marshal (ctx_message ctx) = Inr c \<and> e = make_envelope ctx c \<and> send e \<and> sw_remote x"
  using assms by (auto simp: sw_Receive_def sw_sendToRemote_def sw_deadLetter_def split: if_splits sum.splits option.splits)

lemma GetId_from_AID: "GetId (newActorRefFromAID aid sys ptr) = aid"
  by (simp add: newActorRefFromAID_def)

text \<open>
  C11. What one node sends to another arrives unchanged, and the answer finds its ask. Let a message with a
  target and an optional sender be written to a stream by a node whose codec decodes what it encodes, and
  let it not be named like the startup message. The receiving node sends the very message on, to a target
  and from a sender with the same ids and under the same number, with no sender exactly when there was none.
  When the sender was the reply reference of an ask, the reply to the decoded sender, written to the stream
  back and received by the asking node, is delivered to that very ask and to nothing else. An envelope that
  names the startup message, an unknown type, a body that does not decode or no target changes nothing.
\<close>

theorem remote_ask_round_trip:
  assumes codec: "codec_ok marshal registered unmarshal"
    and sent: "SendEnvelope e \<in> set (sw_Receive marshal send ctx sa)" and name: "MessageName (ctx_message ctx) \<noteq> MessageName Initialize"
    and ids: "GetId (ctx_target ctx) \<noteq> []" "\<forall>s. ctx_sender ctx = Some s \<longrightarrow> GetId s \<noteq> []"
  shows "(\<exists>t s n. RecvEnvelope registered unmarshal (Some e) x = tellWithSender (Some t) (unwrap (ctx_message ctx)) s (ctx_msgSnId ctx) (x\<lparr>nd_nextPtr := n\<rparr>) \<and>
        GetId t = GetId (ctx_target ctx) \<and> map_option GetId s = map_option GetId (ctx_sender ctx) \<and> GetSystem t = nd_self x) \<and>
    (separator_free (nd_addr x) \<and> ctx_target ctx = newActorRefFromAID (GetId (newReplyRef i (nd_addr x) sys)) sys' p \<longrightarrow>
        (\<exists>n. RecvEnvelope registered unmarshal (Some e) x = x\<lparr>nd_nextPtr := n, nd_asks := deliverReply i (unwrap (ctx_message ctx)) (nd_asks x)\<rparr>)) \<and>
    (env_MsgName f = MessageName Initialize \<or> \<not> registered (env_MsgName f) \<or> unmarshal (env_MsgName f) (env_Content f) = None \<or> env_Target f = [] \<longrightarrow>
        RecvEnvelope registered unmarshal (Some f) x = x)"
proof -
  obtain c where c: "marshal (ctx_message ctx) = Inr c" "e = make_envelope ctx c" using Receive_sends [OF sent] by blast
  have d: "registered (MessageName (ctx_message ctx))" "unmarshal (MessageName (ctx_message ctx)) c = Some (unwrap (ctx_message ctx))"
    using codec c(1) by (auto simp: codec_ok_def)
  have recv: "\<exists>s n k. RecvEnvelope registered unmarshal (Some e) x =
      tellWithSender (Some (newActorRefFromAID (GetId (ctx_target ctx)) (nd_self x) k)) (unwrap (ctx_message ctx)) s (ctx_msgSnId ctx) (x\<lparr>nd_nextPtr := n\<rparr>) \<and>
      map_option GetId s = map_option GetId (ctx_sender ctx)"
  proof (cases "ctx_sender ctx")
    case None
    then show ?thesis using name d ids unfolding c(2) RecvEnvelope_def make_envelope_def
      by (intro exI [of _ None] exI [of _ "nd_nextPtr x + 1"] exI [of _ "nd_nextPtr x"]) simp
  next
    case (Some s)
    let ?s = "newActorRefFromAID (GetId s) (nd_self x) (nd_nextPtr x)"
    show ?thesis using Some name d ids unfolding c(2) RecvEnvelope_def make_envelope_def
      by (intro exI [of _ "Some ?s"] exI [of _ "nd_nextPtr x + 2"] exI [of _ "nd_nextPtr x + 1"]) (simp add: GetId_from_AID)
  qed
  have reply: "\<exists>n. RecvEnvelope registered unmarshal (Some e) x = x\<lparr>nd_nextPtr := n, nd_asks := deliverReply i (unwrap (ctx_message ctx)) (nd_asks x)\<rparr>"
    if a: "separator_free (nd_addr x)" and t: "ctx_target ctx = newActorRefFromAID (GetId (newReplyRef i (nd_addr x) sys)) sys' p"
  proof -
    obtain s n k where r: "RecvEnvelope registered unmarshal (Some e) x =
      tellWithSender (Some (newActorRefFromAID (GetId (ctx_target ctx)) (nd_self x) k)) (unwrap (ctx_message ctx)) s (ctx_msgSnId ctx) (x\<lparr>nd_nextPtr := n\<rparr>)"
      using recv by blast
    let ?t = "newActorRefFromAID (GetId (newReplyRef i (nd_addr x) sys)) (nd_self x) k"
    have "isAsk ?t" "isDirect ?t" "askSnId ?t = i" "GetDirectAddr ?t = nd_addr x"
      using reply_ref_round_trip [of "nd_addr x" i sys "nd_self x" k] a by (simp_all add: separator_free_def Let_def)
    then show ?thesis using r unfolding t GetId_from_AID by (auto simp: tellWithSender.simps sendToLocal.simps)
  qed
  have drop: "RecvEnvelope registered unmarshal (Some f) x = x"
    if "env_MsgName f = MessageName Initialize \<or> \<not> registered (env_MsgName f) \<or> unmarshal (env_MsgName f) (env_Content f) = None \<or> env_Target f = []"
    using that by (auto simp: RecvEnvelope_def split: option.splits)
  have "GetSystem (newActorRefFromAID a (nd_self x) k) = nd_self x" for a k by (simp add: newActorRefFromAID_def)
  then show ?thesis using recv reply drop GetId_from_AID by metis
qed

definition echo_decode :: "string \<Rightarrow> string \<Rightarrow> proto_message option" where
  "echo_decode n c = Some (UserMsg n (if c = [] then 0 else 1))"

definition pong :: actor_context where
  "pong = newContext (newActorRefFromAID (GetId (newReplyRef 6 ''a'' 0)) 1 3) None (UserMsg ''m.Pong'' 0) 6"

lemma echo_pong: "SendEnvelope (make_envelope pong []) \<in> set (sw_Receive (\<lambda>m. if m = UserMsg ''m.Pong'' 0 then Inr [] else Inl ''no'') (\<lambda>_. True) pong
    ((newStreamWriterActor t t ''a'')\<lparr>sw_conn := True, sw_remote := True\<rparr>))"
  by (simp add: sw_Receive_def sw_sendToRemote_def newStreamWriterActor_def pong_def newContext_def)

theorem remote_ask_round_trip_witness:
  "\<exists>n. RecvEnvelope (\<lambda>_. True) echo_decode (Some (make_envelope pong [])) (new_node 0 ''a'' player_conf []) =
     (new_node 0 ''a'' player_conf [])\<lparr>nd_nextPtr := n, nd_asks := deliverReply 6 (UserMsg ''m.Pong'' 0) (new_table 5)\<rparr>"
proof -
  let ?x = "new_node 0 ''a'' player_conf []" and ?m = "\<lambda>m. if m = UserMsg ''m.Pong'' 0 then Inr [] else Inl ''no''"
  have codec: "codec_ok ?m (\<lambda>_. True) echo_decode" by (auto simp: codec_ok_def echo_decode_def)
  have x: "nd_addr ?x = ''a''" "nd_asks ?x = new_table 5" by (simp_all add: new_node_def)
  have p: "ctx_message pong = UserMsg ''m.Pong'' 0" "ctx_target pong = newActorRefFromAID (GetId (newReplyRef 6 ''a'' 0)) 1 3" "ctx_sender pong = None"
    by (simp_all add: pong_def newContext_def)
  have id: "GetId (ctx_target pong) \<noteq> []" unfolding p(2) GetId_from_AID by (rule GetId_nonempty)
  have "MessageName (ctx_message pong) \<noteq> MessageName Initialize" by (simp add: p(1))
  from remote_ask_round_trip [OF codec echo_pong this id, of ?x 6 0 1 3, THEN conjunct2, THEN conjunct1]
  show ?thesis using p x by (simp add: separator_free_def)
qed

definition is_letter :: "stream_effect \<Rightarrow> bool" where
  "is_letter f = (case f of EmitDeadLetter dl \<Rightarrow> True | _ \<Rightarrow> False)"

text \<open>
  C34. The stream actor hands every message over or reports it. When the stream is open, the message can be
  encoded and the stream takes it, the only effect is the envelope. In every other case no envelope is
  sent, exactly one dead letter is emitted, with the message and the stream actor as the owner, and a
  sender that waits for an answer is told the error before anything else. An actor whose dial or listen
  failed has no stream, so it reports everything it still receives, and it asks to be stopped. \<open>PreStop\<close>
  closes what is open and nothing twice.
\<close>

theorem stream_hands_over_or_reports:
  fixes x ctx marshal send
  defines "fx \<equiv> sw_Receive marshal send ctx x"
  shows "(\<forall>c. sw_remote x \<and> marshal (ctx_message ctx) = Inr c \<and> send (make_envelope ctx c) \<longrightarrow> fx = [SendEnvelope (make_envelope ctx c)]) \<and>
    (\<not> (sw_remote x \<and> (\<exists>c. marshal (ctx_message ctx) = Inr c \<and> send (make_envelope ctx c))) \<longrightarrow>
       (\<exists>reason. filter is_letter fx = [EmitDeadLetter (ctx_dead_letter (Some (sw_self x)) reason ctx)] \<and>
          (\<forall>s. ctx_sender ctx = Some s \<and> isAsk s \<longrightarrow>
             hd fx = TellSender s (ErrCodeMsg (WithErr (''send to remote failed: '' @ reason_text reason))))) \<and>
       (\<forall>e. SendEnvelope e \<notin> set fx)) \<and>
    (\<forall>y fy. sw_Started dial listen (newStreamWriterActor self router a) = (y, fy) \<longrightarrow>
       (sw_remote y \<longleftrightarrow> dial a \<and> listen a) \<and> (\<not> sw_remote y \<longrightarrow> last fy = PoisonSelf \<and> \<not> sw_conn y)) \<and>
    (\<forall>y fy. sw_PreStop x = (y, fy) \<longrightarrow> (CloseSend \<in> set fy \<longleftrightarrow> sw_remote x) \<and> (CloseConn \<in> set fy \<longleftrightarrow> sw_conn x) \<and> sw_PreStop y = (y, []))"
proof -
  have letter: "filter is_letter (sw_deadLetter ctx reason x) = [EmitDeadLetter (ctx_dead_letter (Some (sw_self x)) reason ctx)]"
    "\<forall>s. ctx_sender ctx = Some s \<and> isAsk s \<longrightarrow>
       hd (sw_deadLetter ctx reason x @ rest) = TellSender s (ErrCodeMsg (WithErr (''send to remote failed: '' @ reason_text reason)))"
    "\<forall>e. SendEnvelope e \<notin> set (sw_deadLetter ctx reason x)" for reason rest
    by (auto simp: sw_deadLetter_def is_letter_def split: option.splits)
  let ?tail = "(if sw_conn x then [CloseConn] else []) @ [PoisonSelf]"
  have bad: "\<exists>reason rest. fx = sw_deadLetter ctx reason x @ rest \<and> filter is_letter rest = [] \<and> (\<forall>e. SendEnvelope e \<notin> set rest)"
    if n: "\<not> (sw_remote x \<and> (\<exists>c. marshal (ctx_message ctx) = Inr c \<and> send (make_envelope ctx c)))"
  proof (cases "sw_remote x")
    case False
    then show ?thesis unfolding fx_def sw_Receive_def by (intro exI [of _ ReasonUnreachable] exI [of _ "[]"]) simp
  next
    case True
    show ?thesis
    proof (cases "marshal (ctx_message ctx)")
      case (Inl err)
      then show ?thesis using True unfolding fx_def sw_Receive_def by (intro exI [of _ "ReasonMarshal err"] exI [of _ "[]"]) simp
    next
      case (Inr c)
      then show ?thesis using True n unfolding fx_def sw_Receive_def sw_sendToRemote_def
        by (intro exI [of _ ReasonUnreachable] exI [of _ ?tail]) (simp add: is_letter_def)
    qed
  qed
  have "(\<exists>reason. filter is_letter fx = [EmitDeadLetter (ctx_dead_letter (Some (sw_self x)) reason ctx)] \<and>
          (\<forall>s. ctx_sender ctx = Some s \<and> isAsk s \<longrightarrow>
             hd fx = TellSender s (ErrCodeMsg (WithErr (''send to remote failed: '' @ reason_text reason))))) \<and>
       (\<forall>e. SendEnvelope e \<notin> set fx)"
    if "\<not> (sw_remote x \<and> (\<exists>c. marshal (ctx_message ctx) = Inr c \<and> send (make_envelope ctx c)))"
    using bad [OF that] letter by (elim exE conjE) auto
  moreover have "\<forall>c. sw_remote x \<and> marshal (ctx_message ctx) = Inr c \<and> send (make_envelope ctx c) \<longrightarrow> fx = [SendEnvelope (make_envelope ctx c)]"
    by (simp add: fx_def sw_Receive_def sw_sendToRemote_def)
  moreover have "\<forall>y fy. sw_Started dial listen (newStreamWriterActor self router a) = (y, fy) \<longrightarrow>
       (sw_remote y \<longleftrightarrow> dial a \<and> listen a) \<and> (\<not> sw_remote y \<longrightarrow> last fy = PoisonSelf \<and> \<not> sw_conn y)"
    by (auto simp: sw_Started_def newStreamWriterActor_def split: if_splits)
  moreover have "\<forall>y fy. sw_PreStop x = (y, fy) \<longrightarrow> (CloseSend \<in> set fy \<longleftrightarrow> sw_remote x) \<and> (CloseConn \<in> set fy \<longleftrightarrow> sw_conn x) \<and> sw_PreStop y = (y, [])"
    by (auto simp: sw_PreStop_def Let_def split: if_splits)
  ultimately show ?thesis by blast
qed

theorem stream_hands_over_or_reports_witness:
  "filter is_letter (sw_Receive (\<lambda>_. Inr []) (\<lambda>_. True) pong (newStreamWriterActor (newReplyRef 1 ''a'' 0) (newReplyRef 1 ''a'' 0) ''b''))
     \<noteq> [] \<and> \<not> sw_remote (newStreamWriterActor (newReplyRef 1 ''a'' 0) (newReplyRef 1 ''a'' 0) ''b'')"
proof -
  let ?x = "newStreamWriterActor (newReplyRef 1 ''a'' 0) (newReplyRef 1 ''a'' 0) ''b''"
  have r: "\<not> sw_remote ?x" by (simp add: newStreamWriterActor_def)
  from stream_hands_over_or_reports [of ?x "\<lambda>_. Inr []" pong "\<lambda>_. True" "\<lambda>_. True" "\<lambda>_. True" "newReplyRef 1 ''a'' 0" "newReplyRef 1 ''a'' 0" "''b''",
      THEN conjunct2, THEN conjunct1] r
  show ?thesis by auto
qed

end
