(* ===== verification/Event_Stream.thy ===== *)
theory Event_Stream
  imports System_Send
begin

section \<open>Events: event_stream.go, system_eventstream.go\<close>

text \<open>
  Every node has one event stream actor. Actors subscribe to the messages of a type at their node's actor,
  which keeps the subscribers and registers the node in etcd for the types that have any; a watch
  keeps \<open>eventStreamMaps\<close>, the registered nodes of every type. A local publication goes to the node's
  subscribers, a global one to the event stream actors of the registered nodes, which publish locally. The
  maps are association lists, as everywhere; Go's order of iteration is not fixed, so the properties do not
  depend on it. The watch runs on a goroutine of the provider and touches \<open>eventStreamMaps\<close> only, whose inner
  maps are never removed from the outer one, so its two map operations are one step here.
\<close>

record event_stream =
  es_self :: actor_ref
  es_nodeId :: u64
  es_prefix :: string
  es_maps :: "(string, (u64, actor_ref) go_map) go_map"
  es_sub :: "(string, (string, actor_ref) go_map) go_map"
  es_nextPtr :: nat

subsection \<open>Strings\<close>

text \<open>\<open>strings.ReplaceAll(s, "//", "/")\<close>, \<open>strings.TrimPrefix(s, "/")\<close>, \<open>strings.SplitN(s, "/", n)\<close> and \<open>strconv.Atoi\<close>.\<close>

fun ReplaceAll_slashes :: "string \<Rightarrow> string" where
  "ReplaceAll_slashes (a # b # s) = (if a = slash \<and> b = slash then slash # ReplaceAll_slashes s else a # ReplaceAll_slashes (b # s))"
| "ReplaceAll_slashes s = s"

fun TrimPrefix_slash :: "string \<Rightarrow> string" where
  "TrimPrefix_slash (a # s) = (if a = slash then s else a # s)"
| "TrimPrefix_slash [] = []"

fun SplitN :: "nat \<Rightarrow> string \<Rightarrow> string list" where
  "SplitN 0 s = []"
| "SplitN (Suc 0) s = [s]"
| "SplitN (Suc (Suc n)) s = (case index_byte s slash of None \<Rightarrow> [s]
     | Some i \<Rightarrow> take i s # SplitN (Suc n) (drop (Suc i) s))"

fun parse_digits :: "nat \<Rightarrow> string \<Rightarrow> nat option" where
  "parse_digits n [] = Some n"
| "parse_digits n (c # cs) = (case char_digit c of None \<Rightarrow> None | Some d \<Rightarrow> parse_digits (n * 10 + d) cs)"

definition Atoi :: "string \<Rightarrow> int option" where
  "Atoi s =
     (let neg = (s \<noteq> [] \<and> hd s = CHR ''-''); r = (if s \<noteq> [] \<and> (hd s = CHR ''-'' \<or> hd s = CHR ''+'') then tl s else s)
      in if r = [] then None
         else case parse_digits 0 r of None \<Rightarrow> None
         | Some n \<Rightarrow> let v = (if neg then - int n else int n) in if - (2 ^ 63) \<le> v \<and> v < 2 ^ 63 then Some v else None)"

subsection \<open>Operations\<close>

definition newEventStream :: "actor_ref \<Rightarrow> u64 \<Rightarrow> string \<Rightarrow> event_stream" where
  "newEventStream self nodeId pre = \<lparr>es_self = self, es_nodeId = nodeId, es_prefix = pre, es_maps = rw_New, es_sub = [], es_nextPtr = 0\<rparr>"

datatype event_error = BadLen | BadNodeId | BadActorId

definition parse_event_key :: "string \<Rightarrow> event_error + (string \<times> u64)" where
  "parse_event_key key =
     (let arr = SplitN 4 (TrimPrefix_slash key) in
      if length arr \<noteq> 4 then Inl BadLen
      else case Atoi (arr ! 3) of None \<Rightarrow> Inl BadNodeId | Some nodeId \<Rightarrow> Inr (arr ! 2, word_of_int nodeId))"

text \<open>\<open>GetOrCreate(...).Set(...)\<close> and \<open>Get(...)\<close> followed by \<open>Delete(...)\<close> on the inner map.\<close>

definition maps_Set :: "string \<Rightarrow> u64 \<Rightarrow> actor_ref \<Rightarrow> (string, (u64, actor_ref) go_map) go_map \<Rightarrow> (string, (u64, actor_ref) go_map) go_map" where
  "maps_Set eventName n ref m = (let (inner, m') = rw_GetOrCreate m eventName rw_New in rw_Set m' eventName (rw_Set inner n ref))"

definition maps_Delete :: "string \<Rightarrow> u64 \<Rightarrow> (string, (u64, actor_ref) go_map) go_map \<Rightarrow> (string, (u64, actor_ref) go_map) go_map" where
  "maps_Delete eventName n m = (case rw_Get m eventName of None \<Rightarrow> m | Some actors \<Rightarrow> rw_Set m eventName (rw_Delete actors n))"

definition parseWatchEventStream :: "member_op \<Rightarrow> string \<Rightarrow> string \<Rightarrow> event_stream \<Rightarrow> event_error option \<times> event_stream" where
  "parseWatchEventStream opn key val x = (case parse_event_key key of Inl err \<Rightarrow> (Some err, x)
     | Inr (eventName, nodeId) \<Rightarrow>
        if opn = MDelete then (None, x\<lparr>es_maps := maps_Delete eventName nodeId (es_maps x)\<rparr>)
        else let actorRef = newActorRefFromAID val (GetSystem (es_self x)) (es_nextPtr x); x = x\<lparr>es_nextPtr := es_nextPtr x + 1\<rparr> in
          if GetKind actorRef = [] \<or> GetName actorRef = [] then (Some BadActorId, x)
          else (None, x\<lparr>es_maps := maps_Set eventName nodeId actorRef (es_maps x)\<rparr>))"

definition getEventNamePath :: "event_stream \<Rightarrow> string \<Rightarrow> string" where
  "getEventNamePath x eventName = ReplaceAll_slashes (es_prefix x @ ''/'' @ eventName @ ''/'' @ Itoa (sint (es_nodeId x)))"

definition es_registerEventStream :: "'e etcd_client \<Rightarrow> provider \<Rightarrow> string \<Rightarrow> event_stream \<Rightarrow> 'e \<Rightarrow> event_stream \<times> 'e" where
  "es_registerEventStream c pv eventName x e =
     (case registerEventStream c (getEventNamePath x eventName) (GetId (es_self x)) pv e of
        (False, e') \<Rightarrow> (x, e')
      | (True, e') \<Rightarrow> (x\<lparr>es_maps := maps_Set eventName (es_nodeId x) (es_self x) (es_maps x)\<rparr>, e'))"

definition es_unregisterEventStream :: "'e etcd_client \<Rightarrow> string \<Rightarrow> event_stream \<Rightarrow> 'e \<Rightarrow> event_stream \<times> 'e" where
  "es_unregisterEventStream c eventName x e =
     (case unregisterEventStream c (getEventNamePath x eventName) e of
        (False, e') \<Rightarrow> (x, e')
      | (True, e') \<Rightarrow> (x\<lparr>es_maps := maps_Delete eventName (es_nodeId x) (es_maps x)\<rparr>, e'))"

definition es_subscribe :: "'e etcd_client \<Rightarrow> provider \<Rightarrow> string \<Rightarrow> string \<Rightarrow> event_stream \<Rightarrow> 'e \<Rightarrow> event_stream \<times> 'e" where
  "es_subscribe c pv actorId eventName x e =
     (let (x, e) = (case map_of (es_sub x) eventName of
                      Some s \<Rightarrow> (x, e)
                    | None \<Rightarrow> es_registerEventStream c pv eventName (x\<lparr>es_sub := AList.update eventName [] (es_sub x)\<rparr>) e);
          actors = (case map_of (es_sub x) eventName of Some s \<Rightarrow> s | None \<Rightarrow> []);
          ref = newActorRefFromAID actorId (GetSystem (es_self x)) (es_nextPtr x)
      in (x\<lparr>es_sub := AList.update eventName (AList.update actorId ref actors) (es_sub x), es_nextPtr := es_nextPtr x + 1\<rparr>, e))"

definition es_unsubscribe :: "'e etcd_client \<Rightarrow> string \<Rightarrow> string \<Rightarrow> event_stream \<Rightarrow> 'e \<Rightarrow> event_stream \<times> 'e" where
  "es_unsubscribe c actorId eventName x e = (case map_of (es_sub x) eventName of None \<Rightarrow> (x, e)
     | Some actors \<Rightarrow>
        if map_of actors actorId = None then (x, e)
        else let actors' = AList.delete actorId actors; x = x\<lparr>es_sub := AList.update eventName actors' (es_sub x)\<rparr> in
          if actors' = [] then es_unregisterEventStream c eventName (x\<lparr>es_sub := AList.delete eventName (es_sub x)\<rparr>) e
          else (x, e))"

definition getActorsByEventFromEventStream :: "proto_message \<Rightarrow> event_stream \<Rightarrow> actor_ref list" where
  "getActorsByEventFromEventStream event x = (case rw_Get (es_maps x) (MessageName event) of None \<Rightarrow> [] 
     | Some actors \<Rightarrow> rw_Range (\<lambda>nodeId ref ret. (True, ret @ [ref])) actors [])"

definition broadcastPublish :: "proto_message \<Rightarrow> event_stream \<Rightarrow> (actor_ref \<times> proto_message) list" where
  "broadcastPublish msg x = map (\<lambda>ref. (ref, msg)) (getActorsByEventFromEventStream msg x)"

definition onPublish :: "proto_message \<Rightarrow> event_stream \<Rightarrow> (actor_ref \<times> proto_message) list" where
  "onPublish msg x = (case map_of (es_sub x) (MessageName msg) of None \<Rightarrow> [] | Some actors \<Rightarrow> map (\<lambda>(i, ref). (ref, msg)) actors)"

text \<open>\<open>Receive\<close>: the new state and what is told to whom.\<close>

definition es_Receive :: "'e etcd_client \<Rightarrow> provider \<Rightarrow> proto_message \<Rightarrow> event_stream \<Rightarrow> 'e \<Rightarrow> (event_stream \<times> 'e) \<times> (actor_ref \<times> proto_message) list" where
  "es_Receive c pv msg x e = (case msg of
      Subscribe i ev \<Rightarrow> (es_subscribe c pv i ev x e, [])
    | Unsubscribe i ev \<Rightarrow> (es_unsubscribe c i ev x e, [])
    | BroadcastPublish m \<Rightarrow> ((x, e), broadcastPublish m x)
    | m \<Rightarrow> ((x, e), onPublish m x))"

text \<open>\<open>Started\<close>: the entries that are there already are replayed; without the watch the actor stops.\<close>

definition es_Started :: "'e etcd_client \<Rightarrow> event_stream \<Rightarrow> 'e \<Rightarrow> bool \<times> event_stream \<times> 'e" where
  "es_Started c x e = (case watchEventStream c (es_prefix x) e of
      (None, e') \<Rightarrow> (False, x, e')
    | (Some (evs, revn), e') \<Rightarrow> (True, fold (\<lambda>(opn, key, val) x. snd (parseWatchEventStream opn key val x)) evs x, e'))"

text \<open>The calls of the public interface: what the system tells its event stream actor.\<close>

definition sys_Subscribe :: "actor_ref \<Rightarrow> actor_ref \<Rightarrow> proto_message \<Rightarrow> node \<Rightarrow> node" where
  "sys_Subscribe stream ref msg x = sys_tell stream (Subscribe (GetId ref) (MessageName msg)) x"

definition sys_Unsubscribe :: "actor_ref \<Rightarrow> actor_ref \<Rightarrow> proto_message \<Rightarrow> node \<Rightarrow> node" where
  "sys_Unsubscribe stream ref msg x = sys_tell stream (Unsubscribe (GetId ref) (MessageName msg)) x"

definition sys_PublishLocal :: "actor_ref \<Rightarrow> proto_message \<Rightarrow> node \<Rightarrow> node" where
  "sys_PublishLocal stream msg x = sys_tell stream msg x"

definition sys_PublishGlobal :: "actor_ref \<Rightarrow> proto_message \<Rightarrow> node \<Rightarrow> node" where
  "sys_PublishGlobal stream msg x = sys_tell stream (BroadcastPublish msg) x"

subsection \<open>Keys\<close>

lemma ReplaceAll_skip: "slash \<notin> set a \<Longrightarrow> ReplaceAll_slashes (a @ s) = a @ ReplaceAll_slashes s"
proof (induction a)
  case (Cons x a)
  then show ?case by (cases "a @ s") auto
qed simp

lemma ReplaceAll_single: "s = [] \<or> hd s \<noteq> slash \<Longrightarrow> ReplaceAll_slashes (slash # s) = slash # ReplaceAll_slashes s"
  by (cases s) auto

lemma ReplaceAll_segment:
  assumes "slash \<notin> set a" and "a \<noteq> []"
  shows "ReplaceAll_slashes (slash # a @ s) = slash # a @ ReplaceAll_slashes s"
proof -
  have "hd (a @ s) \<noteq> slash" using assms by (cases a) auto
  then show ?thesis using ReplaceAll_single [of "a @ s"] ReplaceAll_skip [OF assms(1)] by simp
qed

lemma SplitN_segment: "slash \<notin> set a \<Longrightarrow> SplitN (Suc (Suc n)) (a @ slash # b) = a # SplitN (Suc n) b"
  by simp

lemma parse_digits_format: "parse_digits 0 (format_nat n @ s) = parse_digits n s"
proof (induction n arbitrary: s rule: format_nat.induct)
  case (1 n)
  then show ?case by (cases "n < 10") (simp_all add: format_nat.simps [of n])
qed

lemma hd_format_nat: "hd (format_nat n) \<noteq> CHR ''-'' \<and> hd (format_nat n) \<noteq> CHR ''+''"
proof -
  have "hd (format_nat n) \<in> set (format_nat n)" by (rule hd_in_set) (rule format_nat_ne)
  moreover have "CHR ''-'' \<notin> set (format_nat n)" "CHR ''+'' \<notin> set (format_nat n)" by (rule format_nat_notin, simp)+
  ultimately show ?thesis by metis
qed

lemma Atoi_Itoa:
  assumes "- (2 ^ 63) \<le> i" "i < 2 ^ 63"
  shows "Atoi (Itoa i) = Some i"
  using assms parse_digits_format [of _ "[]"] hd_format_nat [of "nat i"] by (auto simp: Atoi_def Itoa_def Let_def)

lemma sint_range: "- (2 ^ 63) \<le> sint (w :: u64) \<and> sint w < 2 ^ 63"
  using sint_greater_eq [of w] sint_less [of w] by simp

definition event_ok :: "string \<Rightarrow> bool" where
  "event_ok ev \<longleftrightarrow> slash \<notin> set ev \<and> ev \<noteq> []"

definition stream_of :: "config \<Rightarrow> event_stream \<Rightarrow> bool" where
  "stream_of conf x \<longleftrightarrow> es_prefix x = getEventStreamWatchPath conf \<and> slash \<notin> set (cf_clusterName conf) \<and> cf_clusterName conf \<noteq> []"

lemma event_path:
  assumes "stream_of conf x" and "event_ok ev"
  shows "getEventNamePath x ev = ''/'' @ cf_clusterName conf @ ''/event_stream/'' @ ev @ ''/'' @ Itoa (sint (es_nodeId x))"
proof -
  let ?c = "cf_clusterName conf" and ?n = "Itoa (sint (es_nodeId x))"
  have n: "slash \<notin> set ?n" by (auto simp: Itoa_def dest!: format_nat_notin [THEN notE, rotated])
  have p: "es_prefix x @ ''/'' @ ev @ ''/'' @ ?n = slash # ?c @ slash # ''event_stream'' @ slash # slash # ev @ slash # ?n"
    using assms(1) by (simp add: stream_of_def getEventStreamWatchPath_def eventStreamWatchName_def)
  have e: "slash \<notin> set ''event_stream''" by simp
  have "ReplaceAll_slashes (slash # ?n) = slash # ?n"
    using ReplaceAll_segment [OF n, of "[]"] by (simp add: Itoa_def)
  then have "ReplaceAll_slashes (slash # ?c @ slash # ''event_stream'' @ slash # slash # ev @ slash # ?n)
      = slash # ?c @ slash # ''event_stream'' @ slash # ev @ slash # ?n"
    using assms ReplaceAll_segment [of ?c] ReplaceAll_segment [OF e] ReplaceAll_skip [of ev "slash # ?n"]
    by (simp only: stream_of_def event_ok_def) simp
  then show ?thesis unfolding getEventNamePath_def p by simp
qed

lemma event_key_parses:
  assumes "stream_of conf x" and "event_ok ev"
  shows "parse_event_key (getEventNamePath x ev) = Inr (ev, es_nodeId x)"
proof -
  let ?c = "cf_clusterName conf" and ?n = "Itoa (sint (es_nodeId x))"
  have four: "(4::nat) = Suc (Suc (Suc (Suc 0)))" by simp
  have "slash \<notin> set ?c" "slash \<notin> set ev" using assms by (simp_all add: stream_of_def event_ok_def)
  moreover have "slash \<notin> set ''event_stream''" by simp
  ultimately have "SplitN 4 (?c @ slash # ''event_stream'' @ slash # ev @ slash # ?n) = [?c, ''event_stream'', ev, ?n]"
    unfolding four by (simp only: SplitN_segment SplitN.simps(2) not_False_eq_True)
  moreover have "Atoi ?n = Some (sint (es_nodeId x))" using Atoi_Itoa sint_range by blast
  ultimately show ?thesis using event_path [OF assms] by (simp add: parse_event_key_def Let_def)
qed

lemma event_path_inj:
  assumes "stream_of conf x" "event_ok a" "event_ok b" "getEventNamePath x a = getEventNamePath x b"
  shows "a = b"
proof -
  have "Inr (a, es_nodeId x) = parse_event_key (getEventNamePath x b)"
    unfolding assms(4) [symmetric] by (rule event_key_parses [OF assms(1,2), symmetric])
  also have "\<dots> = Inr (b, es_nodeId x)" by (rule event_key_parses [OF assms(1,3)])
  finally show ?thesis by simp
qed

subsection \<open>Subscribers\<close>

text \<open>
  What the node's event stream promises its actors, as a set of pairs of an event name and a subscriber's id:
  the messages move the set, and a publication goes to the members of the event, once each.
\<close>

definition event_spec :: "proto_message \<Rightarrow> (string \<times> string) set \<Rightarrow> (string \<times> string) set" where
  "event_spec msg S = (case msg of Subscribe i ev \<Rightarrow> insert (ev, i) S | Unsubscribe i ev \<Rightarrow> S - {(ev, i)} | _ \<Rightarrow> S)"

definition es_step :: "'e etcd_client \<Rightarrow> provider \<Rightarrow> proto_message \<Rightarrow> event_stream \<times> 'e \<Rightarrow> event_stream \<times> 'e" where
  "es_step c pv m s = fst (es_Receive c pv m (fst s) (snd s))"

definition actors_of :: "event_stream \<Rightarrow> string \<Rightarrow> string set" where
  "actors_of x ev = (case map_of (es_sub x) ev of None \<Rightarrow> {} | Some m \<Rightarrow> fst ` set m)"

definition subs_of :: "event_stream \<Rightarrow> (string \<times> string) set" where
  "subs_of x = {(ev, i). i \<in> actors_of x ev}"

definition subs_wf :: "event_stream \<Rightarrow> bool" where
  "subs_wf x \<longleftrightarrow> (\<forall>ev m. map_of (es_sub x) ev = Some m \<longrightarrow>
     m \<noteq> [] \<and> distinct (map fst m) \<and> (\<forall>i r. map_of m i = Some r \<longrightarrow> GetId r = i))"

lemma register_keeps [simp]:
  "es_sub (fst (es_registerEventStream c pv ev x e)) = es_sub x"
  "es_self (fst (es_registerEventStream c pv ev x e)) = es_self x"
  "es_nodeId (fst (es_registerEventStream c pv ev x e)) = es_nodeId x"
  "es_prefix (fst (es_registerEventStream c pv ev x e)) = es_prefix x"
  by (simp_all add: es_registerEventStream_def split: prod.splits bool.splits)

lemma unregister_keeps [simp]:
  "es_sub (fst (es_unregisterEventStream c ev x e)) = es_sub x"
  "es_self (fst (es_unregisterEventStream c ev x e)) = es_self x"
  "es_nodeId (fst (es_unregisterEventStream c ev x e)) = es_nodeId x"
  "es_prefix (fst (es_unregisterEventStream c ev x e)) = es_prefix x"
  by (simp_all add: es_unregisterEventStream_def split: prod.splits bool.splits)

lemma subscribe_sub:
  "\<exists>r. GetId r = i \<and> map_of (es_sub (fst (es_subscribe c pv i ev x e)))
     = (map_of (es_sub x))(ev \<mapsto> AList.update i r (case map_of (es_sub x) ev of Some m \<Rightarrow> m | None \<Rightarrow> []))"
proof (cases "map_of (es_sub x) ev")
  case None
  obtain y e' where r: "es_registerEventStream c pv ev (x\<lparr>es_sub := AList.update ev [] (es_sub x)\<rparr>) e = (y, e')" by fastforce
  then have "es_sub y = AList.update ev [] (es_sub x)"
    using register_keeps(1) [of c pv ev "x\<lparr>es_sub := AList.update ev [] (es_sub x)\<rparr>" e] by simp
  then show ?thesis using None r
    by (intro exI [of _ "newActorRefFromAID i (GetSystem (es_self y)) (es_nextPtr y)"])
      (simp add: es_subscribe_def Let_def update_conv' newActorRefFromAID_def)
next
  case (Some m)
  then show ?thesis
    by (intro exI [of _ "newActorRefFromAID i (GetSystem (es_self x)) (es_nextPtr x)"])
      (simp add: es_subscribe_def Let_def update_conv' newActorRefFromAID_def)
qed

lemma unsubscribe_sub:
  "map_of (es_sub (fst (es_unsubscribe c i ev x e))) = (case map_of (es_sub x) ev of None \<Rightarrow> map_of (es_sub x)
     | Some m \<Rightarrow> if map_of m i = None then map_of (es_sub x)
         else (map_of (es_sub x))(ev := if AList.delete i m = [] then None else Some (AList.delete i m)))"
  by (auto simp: es_unsubscribe_def Let_def update_conv' delete_conv' split: option.splits)

lemma subs_wfD: "subs_wf x \<Longrightarrow> map_of (es_sub x) ev = Some m \<Longrightarrow> m \<noteq> [] \<and> distinct (map fst m) \<and> (\<forall>i r. map_of m i = Some r \<longrightarrow> GetId r = i)"
  by (simp add: subs_wf_def)

lemma subscribe_refines:
  assumes "subs_wf x"
  shows "subs_wf (fst (es_subscribe c pv i ev x e)) \<and> subs_of (fst (es_subscribe c pv i ev x e)) = insert (ev, i) (subs_of x)"
proof -
  define m where "m = (case map_of (es_sub x) ev of Some m \<Rightarrow> m | None \<Rightarrow> [])"
  obtain r where r: "GetId r = i"
      "map_of (es_sub (fst (es_subscribe c pv i ev x e))) = (map_of (es_sub x))(ev \<mapsto> AList.update i r m)"
    using subscribe_sub [of i c pv ev x e] unfolding m_def by (elim exE conjE)
  have m: "distinct (map fst m)" "\<forall>j s. map_of m j = Some s \<longrightarrow> GetId s = j"
    using subs_wfD [OF assms, of ev] by (cases "map_of (es_sub x) ev"; simp add: m_def)+
  have ne: "AList.update i r m \<noteq> []" by (cases m) auto
  have "subs_wf (fst (es_subscribe c pv i ev x e))"
    using assms r m ne distinct_update [of m i r] by (auto simp: subs_wf_def update_conv' split: if_splits)
  moreover have "actors_of (fst (es_subscribe c pv i ev x e)) = (actors_of x)(ev := insert i (actors_of x ev))"
    using dom_update [of i r m] by (auto simp: fun_eq_iff actors_of_def r(2) m_def split: option.splits)
  then have "subs_of (fst (es_subscribe c pv i ev x e)) = insert (ev, i) (subs_of x)" by (auto simp: subs_of_def split: if_splits)
  ultimately show ?thesis by simp
qed


lemma unsubscribe_refines:
  assumes "subs_wf x"
  shows "subs_wf (fst (es_unsubscribe c i ev x e)) \<and> subs_of (fst (es_unsubscribe c i ev x e)) = subs_of x - {(ev, i)}"
proof (cases "\<exists>m. map_of (es_sub x) ev = Some m \<and> map_of m i \<noteq> None")
  case True
  then obtain m where m: "map_of (es_sub x) ev = Some m" "map_of m i \<noteq> None" by blast
  note wf = subs_wfD [OF assms m(1)]
  let ?m = "AList.delete i m"
  have sub: "map_of (es_sub (fst (es_unsubscribe c i ev x e))) = (map_of (es_sub x))(ev := if ?m = [] then None else Some ?m)"
    using m(2) unfolding unsubscribe_sub m(1) option.case by (simp only: if_False)
  have d: "fst ` set ?m = fst ` set m - {i}" using delete_keys [of i m] by (metis list.set_map set_removeAll)
  have "distinct (map fst ?m)" by (rule distinct_delete) (rule wf [THEN conjunct2, THEN conjunct1])
  then have "subs_wf (fst (es_unsubscribe c i ev x e))"
    using assms wf sub by (auto simp: subs_wf_def delete_conv' split: if_splits)
  moreover have "actors_of (fst (es_unsubscribe c i ev x e)) = (actors_of x)(ev := actors_of x ev - {i})"
    using d m(1) by (auto simp: fun_eq_iff actors_of_def sub)
  then have "subs_of (fst (es_unsubscribe c i ev x e)) = subs_of x - {(ev, i)}" by (auto simp: subs_of_def split: if_splits)
  ultimately show ?thesis by simp
next
  case False
  then have "map_of (es_sub (fst (es_unsubscribe c i ev x e))) = map_of (es_sub x)"
    by (auto simp: unsubscribe_sub split: option.splits)
  moreover have "(ev, i) \<notin> subs_of x" using False by (auto simp: subs_of_def actors_of_def map_of_eq_None_iff split: option.splits)
  ultimately show ?thesis using assms by (simp add: subs_wf_def subs_of_def actors_of_def)
qed

lemma es_step_refines: "subs_wf (fst s) \<Longrightarrow> subs_wf (fst (es_step c pv m s)) \<and> subs_of (fst (es_step c pv m s)) = event_spec m (subs_of (fst s))"
  using subscribe_refines unsubscribe_refines
  by (cases m) (simp_all add: es_step_def es_Receive_def event_spec_def)

lemma es_run_refines: "subs_wf (fst s) \<Longrightarrow> subs_wf (fst (fold (es_step c pv) ms s)) \<and>
    subs_of (fst (fold (es_step c pv) ms s)) = fold event_spec ms (subs_of (fst s))"
proof (induction ms arbitrary: s)
  case (Cons m ms)
  then show ?case using es_step_refines [OF Cons.prems, of c pv m] by simp
qed simp

lemma new_subs [simp]: "subs_wf (newEventStream self n pre)" "subs_of (newEventStream self n pre) = {}"
  by (simp_all add: subs_wf_def subs_of_def actors_of_def newEventStream_def)

lemma onPublish_told:
  assumes "subs_wf x"
  shows "mset (map (GetId \<circ> fst) (onPublish m x)) = mset_set {i. (MessageName m, i) \<in> subs_of x} \<and> snd ` set (onPublish m x) \<subseteq> {m}"
proof (cases "map_of (es_sub x) (MessageName m)")
  case None
  then show ?thesis by (simp add: onPublish_def subs_of_def actors_of_def)
next
  case (Some a)
  note wf = subs_wfD [OF assms Some]
  have "map (GetId \<circ> fst) (onPublish m x) = map fst a" using wf Some by (auto simp: onPublish_def)
  moreover have "{i. (MessageName m, i) \<in> subs_of x} = set (map fst a)" using Some by (simp add: subs_of_def actors_of_def)
  moreover have "mset_set (set (map fst a)) = mset (map fst a)" using wf by (intro mset_set_set) simp
  ultimately have "mset (map (GetId \<circ> fst) (onPublish m x)) = mset_set {i. (MessageName m, i) \<in> subs_of x}" by metis
  moreover have "snd ` set (onPublish m x) \<subseteq> {m}" using Some by (auto simp: onPublish_def)
  ultimately show ?thesis by blast
qed

text \<open>
  C10. The event stream of a node implements the set of its subscriptions: whatever messages it has
  handled, and whatever etcd answered to its registrations, a local publication tells the actors whose latest
  message for the event is a subscription, each exactly once, and nobody else.
\<close>
theorem subscriptions_refine:
  "mset (map (GetId \<circ> fst) (onPublish m (fst (fold (es_step c pv) ms (newEventStream self n pre, e)))))
     = mset_set {i. (MessageName m, i) \<in> fold event_spec ms {}} \<and>
   snd ` set (onPublish m (fst (fold (es_step c pv) ms (newEventStream self n pre, e)))) \<subseteq> {m}"
  using es_run_refines [of "(newEventStream self n pre, e)" c pv ms] onPublish_told by simp

subsection \<open>Registrations\<close>

text \<open>The stream of node \<open>n\<close> that \<open>eventStreamMaps\<close> holds for an event.\<close>

definition peer :: "event_stream \<Rightarrow> string \<Rightarrow> u64 \<Rightarrow> actor_ref option" where
  "peer x ev n = (case rw_Get (es_maps x) ev of None \<Rightarrow> None | Some m \<Rightarrow> rw_Get m n)"

lemma maps_Set_get: "rw_Get (maps_Set ev n r m) ev' = (if ev' = ev then Some (rw_Set (case rw_Get m ev of Some a \<Rightarrow> a | None \<Rightarrow> []) n r) else rw_Get m ev')"
  by (cases "map_of m ev") (auto simp: maps_Set_def rw_GetOrCreate_def rw_Get_def rw_Set_def rw_New_def update_conv')

lemma maps_Delete_get: "rw_Get (maps_Delete ev n m) ev' = (if ev' = ev then map_option (\<lambda>a. rw_Delete a n) (rw_Get m ev) else rw_Get m ev')"
  by (cases "map_of m ev") (auto simp: maps_Delete_def rw_Get_def rw_Set_def rw_Delete_def update_conv')

lemma rw_Get_Set: "rw_Get (rw_Set m k v) k' = (if k' = k then Some v else rw_Get m k')"
  by (simp add: rw_Get_def rw_Set_def update_conv')

lemma rw_Get_Delete: "rw_Get (rw_Delete m k) k' = (if k' = k then None else rw_Get m k')"
  by (simp add: rw_Get_def rw_Delete_def delete_conv')

lemma rw_Get_Nil [simp]: "rw_Get [] k = None"
  by (simp add: rw_Get_def)

lemma peer_Set: "peer (x\<lparr>es_maps := maps_Set ev n r (es_maps x)\<rparr>) ev' n' = (if ev' = ev \<and> n' = n then Some r else peer x ev' n')"
  by (cases "rw_Get (es_maps x) ev") (simp_all add: peer_def maps_Set_get rw_Get_Set)

lemma peer_Delete: "peer (x\<lparr>es_maps := maps_Delete ev n (es_maps x)\<rparr>) ev' n' = (if ev' = ev \<and> n' = n then None else peer x ev' n')"
  by (cases "rw_Get (es_maps x) ev") (simp_all add: peer_def maps_Delete_get rw_Get_Delete)

lemma peer_update [simp]: "peer (x\<lparr>es_sub := s\<rparr>) = peer x" "peer (x\<lparr>es_nextPtr := p\<rparr>) = peer x"
  by (simp_all add: peer_def fun_eq_iff)

lemma path_update [simp]: "getEventNamePath (x\<lparr>es_sub := s\<rparr>) = getEventNamePath x" "getEventNamePath (x\<lparr>es_nextPtr := p\<rparr>) = getEventNamePath x"
    "getEventNamePath (x\<lparr>es_maps := m\<rparr>) = getEventNamePath x"
  by (simp_all add: getEventNamePath_def fun_eq_iff)

text \<open>What etcd documents for a Put and a Delete it answers, for a client whose calls are all answered.\<close>

definition kv_up :: "('e \<Rightarrow> kv_view) \<Rightarrow> 'e etcd_client \<Rightarrow> bool" where
  "kv_up view c \<longleftrightarrow>
     (\<forall>k v l e. \<exists>e'. ec_Put c k v l e = (True, e') \<and> view e' = (view e)(k \<mapsto> (v, l))) \<and>
     (\<forall>k e. \<exists>e'. ec_Delete c k e = (True, e') \<and> view e' = (view e)(k := None))"

lemma register_up:
  assumes "kv_up view c"
  obtains e' where "es_registerEventStream c pv ev x e = (x\<lparr>es_maps := maps_Set ev (es_nodeId x) (es_self x) (es_maps x)\<rparr>, e')"
    and "view e' = (view e)(getEventNamePath x ev \<mapsto> (GetId (es_self x), pv_leaseId pv))"
proof -
  obtain e' where "ec_Put c (getEventNamePath x ev) (GetId (es_self x)) (pv_leaseId pv) e = (True, e')"
      "view e' = (view e)(getEventNamePath x ev \<mapsto> (GetId (es_self x), pv_leaseId pv))"
    using assms unfolding kv_up_def by metis
  then show thesis using that by (simp add: es_registerEventStream_def registerEventStream_def)
qed

lemma unregister_up:
  assumes "kv_up view c"
  obtains e' where "es_unregisterEventStream c ev x e = (x\<lparr>es_maps := maps_Delete ev (es_nodeId x) (es_maps x)\<rparr>, e')"
    and "view e' = (view e)(getEventNamePath x ev := None)"
proof -
  obtain e' where "ec_Delete c (getEventNamePath x ev) e = (True, e')" "view e' = (view e)(getEventNamePath x ev := None)"
    using assms unfolding kv_up_def by metis
  then show thesis using that by (simp add: es_unregisterEventStream_def unregisterEventStream_def)
qed

definition has_sub :: "event_stream \<Rightarrow> string \<Rightarrow> bool" where
  "has_sub x ev \<longleftrightarrow> map_of (es_sub x) ev \<noteq> None"

definition registered :: "('e \<Rightarrow> kv_view) \<Rightarrow> config \<Rightarrow> provider \<Rightarrow> kv_view \<Rightarrow> event_stream \<times> 'e \<Rightarrow> bool" where
  "registered view conf pv v0 s \<longleftrightarrow> (case s of (x, e) \<Rightarrow> stream_of conf x \<and>
     (\<forall>ev. event_ok ev \<longrightarrow>
        view e (getEventNamePath x ev) = (if has_sub x ev then Some (GetId (es_self x), pv_leaseId pv) else None) \<and>
        peer x ev (es_nodeId x) = (if has_sub x ev then Some (es_self x) else None)) \<and>
     (\<forall>k. (\<forall>ev. event_ok ev \<longrightarrow> k \<noteq> getEventNamePath x ev) \<longrightarrow> view e k = v0 k))"

lemma subscribe_registered:
  assumes up: "kv_up view c" and ev: "event_ok ev" and r: "registered view conf pv v0 (x, e)"
  shows "registered view conf pv v0 (es_subscribe c pv i ev x e)"
proof (cases "map_of (es_sub x) ev")
  case None
  let ?y = "x\<lparr>es_sub := AList.update ev [] (es_sub x)\<rparr>"
  obtain e' where e': "es_registerEventStream c pv ev ?y e = (?y\<lparr>es_maps := maps_Set ev (es_nodeId x) (es_self x) (es_maps x)\<rparr>, e')"
    and v: "view e' = (view e)(getEventNamePath x ev \<mapsto> (GetId (es_self x), pv_leaseId pv))"
    using register_up [OF up, of pv ev ?y e] by auto
  have conf: "stream_of conf x" using r by (simp add: registered_def)
  obtain y where y: "es_subscribe c pv i ev x e = (y, e')" "es_self y = es_self x" "es_nodeId y = es_nodeId x" "es_prefix y = es_prefix x"
      "es_maps y = maps_Set ev (es_nodeId x) (es_self x) (es_maps x)" "has_sub y = (has_sub x)(ev := True)"
    using None e' by (auto simp: es_subscribe_def Let_def has_sub_def update_conv' fun_eq_iff)
  have p: "peer y = peer (x\<lparr>es_maps := maps_Set ev (es_nodeId x) (es_self x) (es_maps x)\<rparr>)" using y by (simp add: peer_def fun_eq_iff)
  have path: "getEventNamePath y = getEventNamePath x" using y by (simp add: getEventNamePath_def fun_eq_iff)
  have "stream_of conf y" using conf y by (simp add: stream_of_def)
  moreover have "view e' (getEventNamePath y ev') = (if has_sub y ev' then Some (GetId (es_self y), pv_leaseId pv) else None) \<and>
      peer y ev' (es_nodeId y) = (if has_sub y ev' then Some (es_self y) else None)" if "event_ok ev'" for ev'
    using r that event_path_inj [OF conf that ev] by (auto simp: registered_def v p path peer_Set y(2,3,6))
  moreover have "view e' k = v0 k" if "\<forall>ev. event_ok ev \<longrightarrow> k \<noteq> getEventNamePath y ev" for k
    using r that ev by (auto simp: registered_def v path)
  ultimately show ?thesis unfolding registered_def y(1) prod.case by blast
next
  case (Some m)
  obtain y where y: "es_subscribe c pv i ev x e = (y, e)" "es_self y = es_self x" "es_nodeId y = es_nodeId x" "es_prefix y = es_prefix x"
      "es_maps y = es_maps x" "has_sub y = has_sub x"
    using Some by (auto simp: es_subscribe_def Let_def has_sub_def update_conv' fun_eq_iff)
  then have "peer y = peer x" "getEventNamePath y = getEventNamePath x" "stream_of conf y = stream_of conf x"
    by (simp_all add: peer_def getEventNamePath_def stream_of_def fun_eq_iff)
  then show ?thesis using r y by (simp add: registered_def)
qed

lemma unsubscribe_registered:
  assumes up: "kv_up view c" and ev: "event_ok ev" and r: "registered view conf pv v0 (x, e)"
  shows "registered view conf pv v0 (es_unsubscribe c i ev x e)"
proof (cases "\<exists>m. map_of (es_sub x) ev = Some m \<and> map_of m i \<noteq> None \<and> AList.delete i m = []")
  case True
  then obtain m where m: "map_of (es_sub x) ev = Some m" "map_of m i \<noteq> None" "AList.delete i m = []" by blast
  let ?x = "x\<lparr>es_sub := AList.delete ev (AList.update ev [] (es_sub x))\<rparr>"
  have conf: "stream_of conf x" using r by (simp add: registered_def)
  obtain e' where u: "es_unregisterEventStream c ev ?x e = (?x\<lparr>es_maps := maps_Delete ev (es_nodeId x) (es_maps x)\<rparr>, e')"
    and v: "view e' = (view e)(getEventNamePath x ev := None)"
    using unregister_up [OF up, of ev ?x e] by auto
  define y where "y = ?x\<lparr>es_maps := maps_Delete ev (es_nodeId x) (es_maps x)\<rparr>"
  have s: "es_unsubscribe c i ev x e = (y, e')"
    unfolding es_unsubscribe_def m(1) option.case if_not_P [OF m(2)] Let_def m(3) y_def using u by simp
  have y: "es_self y = es_self x" "es_nodeId y = es_nodeId x" "es_prefix y = es_prefix x" "has_sub y = (has_sub x)(ev := False)"
    by (simp_all add: y_def has_sub_def delete_conv' update_conv' fun_eq_iff)
  have p: "peer y = peer (x\<lparr>es_maps := maps_Delete ev (es_nodeId x) (es_maps x)\<rparr>)" by (simp add: y_def peer_def fun_eq_iff)
  have path: "getEventNamePath y = getEventNamePath x" using y by (simp add: getEventNamePath_def fun_eq_iff)
  have "stream_of conf y" using conf y by (simp add: stream_of_def)
  moreover have "view e' (getEventNamePath y ev') = (if has_sub y ev' then Some (GetId (es_self y), pv_leaseId pv) else None) \<and>
      peer y ev' (es_nodeId y) = (if has_sub y ev' then Some (es_self y) else None)" if "event_ok ev'" for ev'
    using r that event_path_inj [OF conf that ev] by (auto simp: registered_def v p path peer_Delete y(1,2,4))
  moreover have "view e' k = v0 k" if "\<forall>ev. event_ok ev \<longrightarrow> k \<noteq> getEventNamePath y ev" for k
    using r that ev by (auto simp: registered_def v path)
  ultimately show ?thesis unfolding registered_def s prod.case by blast
next
  case False
  obtain y where y: "es_unsubscribe c i ev x e = (y, e)" "es_self y = es_self x" "es_nodeId y = es_nodeId x" "es_prefix y = es_prefix x"
      "es_maps y = es_maps x" "has_sub y = has_sub x"
  proof (cases "map_of (es_sub x) ev")
    case (Some m)
    then show thesis using that [of x] that [of "x\<lparr>es_sub := AList.update ev (AList.delete i m) (es_sub x)\<rparr>"] False
      by (cases "map_of m i") (simp_all add: es_unsubscribe_def Let_def has_sub_def update_conv' fun_eq_iff)
  qed (use that [of x] in \<open>simp add: es_unsubscribe_def\<close>)
  then have "peer y = peer x" "getEventNamePath y = getEventNamePath x" "stream_of conf y = stream_of conf x"
    by (simp_all add: peer_def getEventNamePath_def stream_of_def fun_eq_iff)
  then show ?thesis using r y by (simp add: registered_def)
qed

definition names_ok :: "proto_message \<Rightarrow> bool" where
  "names_ok m \<longleftrightarrow> (case m of Subscribe i ev \<Rightarrow> event_ok ev | Unsubscribe i ev \<Rightarrow> event_ok ev | _ \<Rightarrow> True)"

lemma es_step_registered:
  "kv_up view c \<Longrightarrow> names_ok m \<Longrightarrow> registered view conf pv v0 s \<Longrightarrow> registered view conf pv v0 (es_step c pv m s)"
  by (cases s, cases m) (simp_all add: es_step_def es_Receive_def names_ok_def subscribe_registered unsubscribe_registered)

lemma es_run_registered:
  assumes "kv_up view c"
  shows "list_all names_ok ms \<Longrightarrow> registered view conf pv v0 s \<Longrightarrow> registered view conf pv v0 (fold (es_step c pv) ms s)"
proof (induction ms arbitrary: s)
  case (Cons m ms)
  then show ?case using es_step_registered [OF assms, of m conf pv v0 s] by simp
qed simp

lemma es_step_keeps: "es_self (fst (es_step c pv m s)) = es_self (fst s) \<and> es_nodeId (fst (es_step c pv m s)) = es_nodeId (fst s)"
proof -
  have "es_self (fst (es_subscribe c pv i ev x e)) = es_self x \<and> es_nodeId (fst (es_subscribe c pv i ev x e)) = es_nodeId x" for i ev x e
    by (cases "map_of (es_sub x) ev") (simp_all add: es_subscribe_def Let_def case_prod_beta)
  moreover have "es_self (fst (es_unsubscribe c i ev x e)) = es_self x \<and> es_nodeId (fst (es_unsubscribe c i ev x e)) = es_nodeId x" for i ev x e
    by (simp add: es_unsubscribe_def Let_def split: option.split)
  ultimately show ?thesis by (cases m) (simp_all add: es_step_def es_Receive_def)
qed

lemma es_run_keeps: "es_self (fst (fold (es_step c pv) ms s)) = es_self (fst s) \<and> es_nodeId (fst (fold (es_step c pv) ms s)) = es_nodeId (fst s)"
  by (induction ms arbitrary: s) (simp_all add: es_step_keeps)

lemma has_sub_iff: "subs_wf x \<Longrightarrow> has_sub x ev \<longleftrightarrow> (\<exists>i. (ev, i) \<in> subs_of x)"
  by (auto simp: subs_wf_def has_sub_def subs_of_def actors_of_def split: option.splits)

definition event_conf :: "config \<Rightarrow> bool" where
  "event_conf conf \<longleftrightarrow> slash \<notin> set (cf_clusterName conf) \<and> cf_clusterName conf \<noteq> []"

definition event_key :: "config \<Rightarrow> u64 \<Rightarrow> string \<Rightarrow> string" where
  "event_key conf n ev = ''/'' @ cf_clusterName conf @ ''/event_stream/'' @ ev @ ''/'' @ Itoa (sint n)"

text \<open>
  C36. A node is registered in etcd for exactly the events its actors listen to: with an etcd that answers,
  whatever subscriptions and unsubscriptions came, the key of an event holds the node's event
  stream under the node's lease when the event has a subscriber, and is absent otherwise; the node's own entry
  in \<open>eventStreamMaps\<close> agrees; no other key changes.
\<close>
theorem registration_follows_subscriptions:
  assumes up: "kv_up view c" and names: "list_all names_ok ms" and conf: "event_conf conf"
    and fresh: "\<forall>ev. view e (event_key conf n ev) = None"
    and run: "fold (es_step c pv) ms (newEventStream self n (getEventStreamWatchPath conf), e) = (x', e')"
  shows "(\<forall>ev. event_ok ev \<longrightarrow>
      view e' (event_key conf n ev) = (if \<exists>i. (ev, i) \<in> fold event_spec ms {} then Some (GetId self, pv_leaseId pv) else None) \<and>
      peer x' ev n = (if \<exists>i. (ev, i) \<in> fold event_spec ms {} then Some self else None)) \<and>
    (\<forall>k. (\<forall>ev. event_ok ev \<longrightarrow> k \<noteq> event_key conf n ev) \<longrightarrow> view e' k = view e k)"
proof -
  let ?x = "newEventStream self n (getEventStreamWatchPath conf)"
  have so: "stream_of conf ?x" using conf by (simp add: stream_of_def event_conf_def newEventStream_def)
  have key: "getEventNamePath x ev = event_key conf n ev" if "stream_of conf x" "es_nodeId x = n" "event_ok ev" for x ev
    using event_path [OF that(1,3)] that(2) by (simp add: event_key_def)
  have "registered view conf pv (view e) (?x, e)"
    using so fresh key [OF so] by (auto simp: registered_def has_sub_def peer_def newEventStream_def rw_New_def)
  from es_run_registered [OF up names this] have r: "registered view conf pv (view e) (x', e')" by (simp add: run)
  have s: "es_self x' = self" "es_nodeId x' = n"
    using es_run_keeps [of c pv ms "(?x, e)"] unfolding run by (simp_all add: newEventStream_def)
  have h: "has_sub x' ev \<longleftrightarrow> (\<exists>i. (ev, i) \<in> fold event_spec ms {})" for ev
    using es_run_refines [of "(?x, e)" c pv ms] has_sub_iff [of x' ev] by (simp add: run)
  have so': "stream_of conf x'" using r by (simp add: registered_def)
  show ?thesis
  proof (intro conjI allI impI)
    fix ev assume ev: "event_ok ev"
    show "view e' (event_key conf n ev) = (if \<exists>i. (ev, i) \<in> fold event_spec ms {} then Some (GetId self, pv_leaseId pv) else None)"
      using r ev unfolding registered_def prod.case h [symmetric] key [OF so' s(2) ev, symmetric] s(1) by blast
    show "peer x' ev n = (if \<exists>i. (ev, i) \<in> fold event_spec ms {} then Some self else None)"
      using r ev unfolding registered_def prod.case h [symmetric] s by blast
  next
    fix k assume "\<forall>ev. event_ok ev \<longrightarrow> k \<noteq> event_key conf n ev"
    then have "\<forall>ev. event_ok ev \<longrightarrow> k \<noteq> getEventNamePath x' ev" by (simp add: key [OF so' s(2)])
    then show "view e' k = view e k" using r unfolding registered_def prod.case by blast
  qed
qed

theorem registration_follows_subscriptions_witness:
  "\<exists>x' e'. fold (es_step store_client (fresh_provider (default_config ''c'' ''v'' []))) [Subscribe ''a'' ''ev'', Subscribe ''b'' ''ev'', Unsubscribe ''a'' ''ev'']
      (newEventStream (newClusterActorRef ''k'' ''s'' 0 0) 1 (getEventStreamWatchPath (default_config ''c'' ''v'' [])), Map.empty) = (x', e') \<and>
     e' (event_key (default_config ''c'' ''v'' []) 1 ''ev'')
       = Some (GetId (newClusterActorRef ''k'' ''s'' 0 0), pv_leaseId (fresh_provider (default_config ''c'' ''v'' [])))"
proof -
  let ?conf = "default_config ''c'' ''v'' []" and ?ms = "[Subscribe ''a'' ''ev'', Subscribe ''b'' ''ev'', Unsubscribe ''a'' ''ev'']"
  let ?self = "newClusterActorRef ''k'' ''s'' 0 0"
  obtain x' e' where run: "fold (es_step store_client (fresh_provider ?conf)) ?ms (newEventStream ?self 1 (getEventStreamWatchPath ?conf), Map.empty) = (x', e')"
    by (cases "fold (es_step store_client (fresh_provider ?conf)) ?ms (newEventStream ?self 1 (getEventStreamWatchPath ?conf), Map.empty)")
  have up: "kv_up id store_client" by (simp add: kv_up_def store_client_def)
  have names: "list_all names_ok ?ms" by (simp add: names_ok_def event_ok_def)
  have conf: "event_conf ?conf" by (simp add: event_conf_def default_config_def)
  have fresh: "\<forall>ev. id Map.empty (event_key ?conf 1 ev) = None" by simp
  have "event_ok ''ev''" by (simp add: event_ok_def)
  moreover have "(''ev'', ''b'') \<in> fold event_spec ?ms {}" by (simp add: event_spec_def)
  ultimately have "e' (event_key ?conf 1 ''ev'') = Some (GetId ?self, pv_leaseId (fresh_provider ?conf))"
    using registration_follows_subscriptions [OF up names conf fresh run, THEN conjunct1, rule_format, of "''ev''", THEN conjunct1] by auto
  with run show ?thesis by blast
qed

subsection \<open>The watch and global publications\<close>

text \<open>
  The registrations of the whole cluster, as a map from an event and a node to the id of the node's event stream.
  A watch event is the operation, the stream it comes from and the event: its key is the one
  \<open>getEventNamePath\<close> builds at that stream, its value that stream's id.
\<close>

type_synonym watch_event = "member_op \<times> event_stream \<times> string"

definition watch_spec :: "watch_event \<Rightarrow> (string \<times> u64 \<rightharpoonup> string) \<Rightarrow> (string \<times> u64 \<rightharpoonup> string)" where
  "watch_spec w A = (case w of (opn, x, ev) \<Rightarrow> A((ev, es_nodeId x) := if opn = MDelete then None else Some (GetId (es_self x))))"

definition watch_step :: "watch_event \<Rightarrow> event_stream \<Rightarrow> event_stream" where
  "watch_step w y = (case w of (opn, x, ev) \<Rightarrow> snd (parseWatchEventStream opn (getEventNamePath x ev) (GetId (es_self x)) y))"

definition watch_ok :: "config \<Rightarrow> watch_event \<Rightarrow> bool" where
  "watch_ok conf w \<longleftrightarrow> (case w of (opn, x, ev) \<Rightarrow> stream_of conf x \<and> event_ok ev \<and>
     cp_kind (parseCache (GetId (es_self x))) \<noteq> [] \<and> cp_name (parseCache (GetId (es_self x))) \<noteq> [])"

definition known :: "event_stream \<Rightarrow> string \<times> u64 \<Rightarrow> string option" where
  "known y = (\<lambda>(ev, n). map_option GetId (peer y ev n))"

definition maps_wf :: "event_stream \<Rightarrow> bool" where
  "maps_wf y \<longleftrightarrow> (\<forall>ev m. rw_Get (es_maps y) ev = Some m \<longrightarrow> distinct (map fst m))"

lemma maps_wf_Set: "maps_wf y \<Longrightarrow> maps_wf (y\<lparr>es_maps := maps_Set ev n r (es_maps y)\<rparr>)"
  by (cases "rw_Get (es_maps y) ev") (auto simp: maps_wf_def maps_Set_get rw_Set_def distinct_update split: if_splits)

lemma maps_wf_Delete: "maps_wf y \<Longrightarrow> maps_wf (y\<lparr>es_maps := maps_Delete ev n (es_maps y)\<rparr>)"
  by (cases "rw_Get (es_maps y) ev") (auto simp: maps_wf_def maps_Delete_get rw_Delete_def distinct_delete split: if_splits)

lemma watch_step_refines:
  assumes "watch_ok conf w" and "maps_wf y"
  shows "maps_wf (watch_step w y) \<and> known (watch_step w y) = watch_spec w (known y)"
proof -
  obtain opn x ev where w: "w = (opn, x, ev)" by (cases w)
  have ok: "stream_of conf x" "event_ok ev" "cp_kind (parseCache (GetId (es_self x))) \<noteq> []" "cp_name (parseCache (GetId (es_self x))) \<noteq> []"
    using assms(1) by (simp_all add: watch_ok_def w)
  note key = event_key_parses [OF ok(1,2)]
  show ?thesis
  proof (cases opn)
    case MPut
    let ?r = "newActorRefFromAID (GetId (es_self x)) (GetSystem (es_self y)) (es_nextPtr y)" and ?y = "y\<lparr>es_nextPtr := es_nextPtr y + 1\<rparr>"
    have "watch_step w y = ?y\<lparr>es_maps := maps_Set ev (es_nodeId x) ?r (es_maps ?y)\<rparr>"
      using ok(3,4) by (simp add: watch_step_def w parseWatchEventStream_def key MPut Let_def newActorRefFromAID_def)
    moreover have "maps_wf ?y" using assms(2) by (simp add: maps_wf_def)
    moreover have "GetId ?r = GetId (es_self x)" by (simp add: newActorRefFromAID_def)
    ultimately show ?thesis using maps_wf_Set [of ?y]
      by (auto simp only: known_def watch_spec_def w MPut peer_Set peer_update fun_eq_iff) (auto simp: known_def)
  next
    case MDelete
    then have "watch_step w y = y\<lparr>es_maps := maps_Delete ev (es_nodeId x) (es_maps y)\<rparr>"
      by (simp add: watch_step_def w parseWatchEventStream_def key)
    then show ?thesis using maps_wf_Delete [OF assms(2)] MDelete by (auto simp: known_def watch_spec_def w peer_Delete fun_eq_iff)
  qed
qed

lemma watch_run_refines: "list_all (watch_ok conf) ws \<Longrightarrow> maps_wf y \<Longrightarrow> maps_wf (fold watch_step ws y) \<and> known (fold watch_step ws y) = fold watch_spec ws (known y)"
proof (induction ws arbitrary: y)
  case (Cons w ws)
  then show ?case using watch_step_refines [of conf w y] by simp
qed simp

lemma rw_Range_collect: "rw_Range (\<lambda>k v ret. (True, ret @ [v])) m s = s @ map snd m"
  by (induction m arbitrary: s) auto

lemma broadcast_told:
  assumes "maps_wf y"
  shows "mset (map (GetId \<circ> fst) (broadcastPublish m y))
     = image_mset (\<lambda>n. the (known y (MessageName m, n))) (mset_set {n. known y (MessageName m, n) \<noteq> None})"
proof (cases "rw_Get (es_maps y) (MessageName m)")
  case None
  then show ?thesis by (simp add: broadcastPublish_def getActorsByEventFromEventStream_def known_def peer_def)
next
  case (Some a)
  let ?f = "\<lambda>n. the (known y (MessageName m, n))"
  have d: "distinct (map fst a)" using assms Some by (simp add: maps_wf_def)
  have k: "known y (MessageName m, n) = map_option GetId (map_of a n)" for n by (simp add: known_def peer_def Some) (simp add: rw_Get_def)
  have "{n. known y (MessageName m, n) \<noteq> None} = set (map fst a)" by (auto simp: k map_of_eq_None_iff)
  moreover have "mset_set (set (map fst a)) = mset (map fst a)" using d by (intro mset_set_set)
  moreover have "map (GetId \<circ> fst) (broadcastPublish m y) = map ?f (map fst a)"
    using d by (auto simp: broadcastPublish_def getActorsByEventFromEventStream_def Some rw_Range_collect k)
  ultimately show ?thesis by (metis mset_map)
qed

text \<open>
  C37. A node's watch keeps the registrations of the cluster: replaying any sequence of puts and deletes of the
  keys that the nodes of the cluster write leaves in \<open>eventStreamMaps\<close>, for every event and node, the stream of the last put
  that no delete followed, and a global publication is told to exactly these streams, once per
  registered node.
\<close>
theorem watch_tracks_registrations:
  assumes "list_all (watch_ok conf) ws"
  shows "mset (map (GetId \<circ> fst) (broadcastPublish m (fold watch_step ws (newEventStream self n pre))))
     = image_mset (\<lambda>j. the (fold watch_spec ws Map.empty (MessageName m, j)))
         (mset_set {j. fold watch_spec ws Map.empty (MessageName m, j) \<noteq> None})"
proof -
  have "maps_wf (newEventStream self n pre)" "known (newEventStream self n pre) = Map.empty"
    by (simp_all add: maps_wf_def known_def peer_def newEventStream_def rw_New_def fun_eq_iff)
  then show ?thesis using watch_run_refines [OF assms, of "newEventStream self n pre"] broadcast_told by metis
qed

definition sample_stream :: "u64 \<Rightarrow> string \<Rightarrow> event_stream" where
  "sample_stream n name = newEventStream (newClusterActorRef ''k'' name 0 0) n (getEventStreamWatchPath (default_config ''c'' ''v'' []))"

theorem watch_tracks_registrations_witness:
  "mset (map (GetId \<circ> fst) (broadcastPublish (UserMsg ''ev'' 0)
      (fold watch_step [(MPut, sample_stream 1 ''a'', ''ev''), (MPut, sample_stream 2 ''b'', ''ev''), (MDelete, sample_stream 1 ''a'', ''ev'')]
        (sample_stream 3 ''y''))))
     = {#GetId (newClusterActorRef ''k'' ''b'' 0 0)#}"
proof -
  let ?ws = "[(MPut, sample_stream 1 ''a'', ''ev''), (MPut, sample_stream 2 ''b'', ''ev''), (MDelete, sample_stream 1 ''a'', ''ev'')]"
  have ok: "list_all (watch_ok (default_config ''c'' ''v'' [])) ?ws"
    by (simp add: watch_ok_def stream_of_def event_ok_def sample_stream_def newEventStream_def default_config_def newClusterActorRef_def) code_simp
  have A: "fold watch_spec ?ws Map.empty = [(''ev'', 2) \<mapsto> GetId (newClusterActorRef ''k'' ''b'' 0 0)]"
    by (auto simp: watch_spec_def sample_stream_def newEventStream_def fun_eq_iff)
  have "{j. [(''ev'', 2) \<mapsto> GetId (newClusterActorRef ''k'' ''b'' 0 0)] (MessageName (UserMsg ''ev'' 0), j) \<noteq> None} = {2 :: u64}" by auto
  then show ?thesis
    unfolding sample_stream_def [of 3] watch_tracks_registrations [OF ok] A by simp
qed

end
