(* ===== verification/Schedule.thy ===== *)
theory Schedule
  imports System_Send
begin

section \<open>Timers: schedule.go, system_schedule.go, baseactor.go\<close>

text \<open>
  A repeated timer runs its function on the goroutine that the runtime starts when the timer expires; the
  function then re-arms the timer. Cancelling races with both. The steps are the atomic accesses of the
  shared variable \<open>state\<close> and the calls on the runtime timer: \<open>tm_armed\<close> is the duration the timer is armed with, \<open>tm_cbs\<close>
  are the goroutines started so far, \<open>tm_cancels\<close> the calls of the cancel function. \<open>tm_world\<close> is what
  the function works on, \<open>tm_calls\<close>, \<open>tm_late\<close> and \<open>tm_waits\<close> record its calls, those that began after
  the cancellation, and the durations waited.
\<close>

datatype timer_state = StateInit | StateReady | StateDone

datatype cb_pc = CbSpin | CbCheck | CbCall | CbRecheck | CbReset | CbEnd

datatype cancel_pc = KSwap | KStop | KEnd

record 's timer =
  tm_state :: timer_state
  tm_armed :: "int option"
  tm_returned :: bool
  tm_cbs :: "cb_pc list"
  tm_cancels :: "cancel_pc list"
  tm_world :: 's
  tm_calls :: nat
  tm_late :: nat
  tm_waits :: "int list"

subsection \<open>Steps\<close>

text \<open>\<open>startTimer\<close> up to the store of \<open>stateReady\<close>, which is the next step of its caller.\<close>

definition startTimer :: "int \<Rightarrow> 's \<Rightarrow> 's timer" where
  "startTimer delay w = \<lparr>tm_state = StateInit, tm_armed = Some delay, tm_returned = False, tm_cbs = [], tm_cancels = [],
     tm_world = w, tm_calls = 0, tm_late = 0, tm_waits = []\<rparr>"

definition store_ready :: "'s timer \<Rightarrow> 's timer" where
  "store_ready t = t\<lparr>tm_state := StateReady, tm_returned := True\<rparr>"

text \<open>The function given to \<open>AfterFunc\<close>. \<open>fn\<close> is one step: the sends that the scheduler makes always return.\<close>

fun timer_callback :: "int \<Rightarrow> ('s \<Rightarrow> 's) \<Rightarrow> cb_pc \<Rightarrow> 's timer \<Rightarrow> cb_pc \<times> 's timer" where
  "timer_callback interval fn CbSpin t = (if tm_state t = StateInit then (CbSpin, t) else (CbCheck, t))"
| "timer_callback interval fn CbCheck t = (if tm_state t = StateDone then (CbEnd, t) else (CbCall, t))"
| "timer_callback interval fn CbCall t = (CbRecheck, t\<lparr>tm_world := fn (tm_world t), tm_calls := tm_calls t + 1,
     tm_late := tm_late t + (if tm_state t = StateDone then 1 else 0)\<rparr>)"
| "timer_callback interval fn CbRecheck t = (if tm_state t \<noteq> StateDone then (CbReset, t) else (CbEnd, t))"
| "timer_callback interval fn CbReset t = (CbEnd, t\<lparr>tm_armed := Some interval\<rparr>)"
| "timer_callback interval fn CbEnd t = (CbEnd, t)"

fun cancel_timer :: "cancel_pc \<Rightarrow> 's timer \<Rightarrow> cancel_pc \<times> 's timer" where
  "cancel_timer KSwap t = ((if tm_state t \<noteq> StateDone then KStop else KEnd), t\<lparr>tm_state := StateDone\<rparr>)"
| "cancel_timer KStop t = (KEnd, t\<lparr>tm_armed := None\<rparr>)"
| "cancel_timer KEnd t = (KEnd, t)"

definition expire :: "int \<Rightarrow> 's timer \<Rightarrow> 's timer" where
  "expire d t = t\<lparr>tm_armed := None, tm_cbs := tm_cbs t @ [CbSpin], tm_waits := tm_waits t @ [d]\<rparr>"

inductive tm_step :: "int \<Rightarrow> ('s \<Rightarrow> 's) \<Rightarrow> 's timer \<Rightarrow> 's timer \<Rightarrow> bool" for interval fn where
  ready: "\<not> tm_returned t \<Longrightarrow> tm_step interval fn t (store_ready t)"
| expires: "tm_armed t = Some d \<Longrightarrow> tm_step interval fn t (expire d t)"
| callback: "i < length (tm_cbs t) \<Longrightarrow> tm_cbs t ! i \<noteq> CbEnd \<Longrightarrow> timer_callback interval fn (tm_cbs t ! i) t = (pc, t') \<Longrightarrow>
    tm_step interval fn t (t'\<lparr>tm_cbs := (tm_cbs t')[i := pc]\<rparr>)"
| cancel_call: "tm_returned t \<Longrightarrow> tm_step interval fn t (t\<lparr>tm_cancels := tm_cancels t @ [KSwap]\<rparr>)"
| cancel: "j < length (tm_cancels t) \<Longrightarrow> tm_cancels t ! j \<noteq> KEnd \<Longrightarrow> cancel_timer (tm_cancels t ! j) t = (pc, t') \<Longrightarrow>
    tm_step interval fn t (t'\<lparr>tm_cancels := (tm_cancels t')[j := pc]\<rparr>)"

text \<open>\<open>sendRepeatedly\<close> and \<open>ScheduleRepeated\<close>: the function tells the message to the target.\<close>

definition sendRepeatedly :: "actor_ref \<Rightarrow> int \<Rightarrow> int \<Rightarrow> proto_message \<Rightarrow> node \<Rightarrow> node timer \<times> (node timer \<Rightarrow> node timer \<Rightarrow> bool)" where
  "sendRepeatedly target initial interval msg x = (startTimer initial x, tm_step interval (sys_tell target msg))"

definition ScheduleRepeated :: "actor_ref \<Rightarrow> int \<Rightarrow> int \<Rightarrow> proto_message \<Rightarrow> node \<Rightarrow> node timer \<times> (node timer \<Rightarrow> node timer \<Rightarrow> bool)" where
  "ScheduleRepeated target delay interval msg x = sendRepeatedly target delay interval msg x"

text \<open>\<open>sendOnce\<close> and \<open>ScheduleOnce\<close>: the timer is armed once, the cancel function stops it.\<close>

record once_timer =
  on_armed :: "int option"
  on_pending :: nat
  on_node :: node
  on_told :: nat

definition sendOnce :: "int \<Rightarrow> node \<Rightarrow> once_timer" where
  "sendOnce delay x = \<lparr>on_armed = Some delay, on_pending = 0, on_node = x, on_told = 0\<rparr>"

inductive once_step :: "actor_ref \<Rightarrow> proto_message \<Rightarrow> once_timer \<Rightarrow> once_timer \<Rightarrow> bool" for target msg where
  fires: "on_armed t = Some d \<Longrightarrow> once_step target msg t (t\<lparr>on_armed := None, on_pending := on_pending t + 1\<rparr>)"
| tells: "0 < on_pending t \<Longrightarrow>
    once_step target msg t (t\<lparr>on_pending := on_pending t - 1, on_node := sys_tell target msg (on_node t), on_told := on_told t + 1\<rparr>)"
| stops: "once_step target msg t (t\<lparr>on_armed := None\<rparr>)"

definition ScheduleOnce :: "actor_ref \<Rightarrow> int \<Rightarrow> proto_message \<Rightarrow> node \<Rightarrow> once_timer \<times> (once_timer \<Rightarrow> once_timer \<Rightarrow> bool)" where
  "ScheduleOnce target delay msg x = (sendOnce delay x, once_step target msg)"

text \<open>
  The helpers of \<open>BaseActor\<close> (baseactor.go): its reference is set when the processor is built, and a helper
  used before that panics, which is \<open>None\<close>.
\<close>

record base_actor =
  ba_self :: "actor_ref option"

definition ba_init :: "actor_ref \<Rightarrow> base_actor \<Rightarrow> base_actor" where
  "ba_init self b = b\<lparr>ba_self := Some self\<rparr>"

definition mustInited :: "base_actor \<Rightarrow> unit option" where
  "mustInited b = (if ba_self b = None then None else Some ())"

definition ba_Self :: "base_actor \<Rightarrow> actor_ref option" where
  "ba_Self b = (case mustInited b of None \<Rightarrow> None | Some u \<Rightarrow> ba_self b)"

definition ba_GetSystem :: "base_actor \<Rightarrow> nat option" where
  "ba_GetSystem b = (case mustInited b of None \<Rightarrow> None | Some u \<Rightarrow> map_option GetSystem (ba_self b))"

definition ScheduleSelfOnce :: "base_actor \<Rightarrow> int \<Rightarrow> proto_message \<Rightarrow> node \<Rightarrow> (once_timer \<times> (once_timer \<Rightarrow> once_timer \<Rightarrow> bool)) option" where
  "ScheduleSelfOnce b delay msg x = map_option (\<lambda>self. ScheduleOnce self delay msg x) (ba_Self b)"

definition ScheduleSelfRepeated :: "base_actor \<Rightarrow> int \<Rightarrow> int \<Rightarrow> proto_message \<Rightarrow> node \<Rightarrow> (node timer \<times> (node timer \<Rightarrow> node timer \<Rightarrow> bool)) option" where
  "ScheduleSelfRepeated b delay interval msg x = map_option (\<lambda>self. ScheduleRepeated self delay interval msg x) (ba_Self b)"

lemma self_helpers_after_init:
  "ScheduleSelfRepeated (ba_init self b) delay interval msg x = Some (ScheduleRepeated self delay interval msg x)"
  "ScheduleSelfOnce (ba_init self b) delay msg x = Some (ScheduleOnce self delay msg x)"
  "ba_GetSystem (ba_init self b) = Some (GetSystem self)"
  by (simp_all add: ScheduleSelfRepeated_def ScheduleSelfOnce_def ba_GetSystem_def ba_Self_def mustInited_def ba_init_def)

subsection \<open>Invariant\<close>

definition waits_ok :: "int \<Rightarrow> int \<Rightarrow> 's timer \<Rightarrow> bool" where
  "waits_ok delay interval t \<longleftrightarrow>
     (tm_waits t = [] \<or> tm_waits t = delay # replicate (length (tm_waits t) - 1) interval) \<and>
     (\<forall>d. tm_armed t = Some d \<longrightarrow> d = (if tm_waits t = [] then delay else interval)) \<and>
     (tm_cbs t \<noteq> [] \<longrightarrow> tm_waits t \<noteq> [])"

definition active :: "'s timer \<Rightarrow> nat" where
  "active t = num (\<lambda>pc. pc \<noteq> CbEnd) (tm_cbs t)"

definition timer_inv :: "int \<Rightarrow> int \<Rightarrow> ('s \<Rightarrow> 's) \<Rightarrow> 's \<Rightarrow> 's timer \<Rightarrow> bool" where
  "timer_inv delay interval fn w t \<longleftrightarrow>
     active t + (if tm_armed t = None then 0 else 1) \<le> 1 \<and>
     (tm_state t \<noteq> StateDone \<longrightarrow> active t + (if tm_armed t = None then 0 else 1) = 1 \<and> tm_late t = 0 \<and>
        KStop \<notin> set (tm_cancels t) \<and> KEnd \<notin> set (tm_cancels t)) \<and>
     (tm_state t = StateInit \<longleftrightarrow> \<not> tm_returned t) \<and>
     (\<not> tm_returned t \<longrightarrow> tm_cancels t = [] \<and> set (tm_cbs t) \<subseteq> {CbSpin}) \<and>
     tm_late t + num (\<lambda>pc. pc = CbCall) (tm_cbs t) \<le> 1 \<and>
     tm_world t = (fn ^^ tm_calls t) w \<and> waits_ok delay interval t"

lemma start_inv: "timer_inv delay interval fn w (startTimer delay w)"
  by (simp add: timer_inv_def startTimer_def active_def waits_ok_def)

lemma ready_inv: "timer_inv delay interval fn w t \<Longrightarrow> \<not> tm_returned t \<Longrightarrow> timer_inv delay interval fn w (store_ready t)"
  by (simp add: timer_inv_def store_ready_def active_def waits_ok_def)

lemma waits_snoc:
  "ws = [] \<or> ws = delay # replicate (length ws - 1) interval \<Longrightarrow> d = (if ws = [] then delay else interval) \<Longrightarrow>
     ws @ [d] = delay # replicate (length (ws @ [d]) - 1) interval"
proof (cases ws)
  case (Cons v vs)
  assume "ws = [] \<or> ws = delay # replicate (length ws - 1) interval" "d = (if ws = [] then delay else interval)"
  then have v: "v = delay" "vs = replicate (length vs) interval" "d = interval" using Cons by simp_all
  have "vs @ [interval] = interval # vs" by (subst (1 2) v(2)) (rule replicate_append_same)
  then show ?thesis using v Cons by simp
qed simp

lemma expire_inv:
  assumes inv: "timer_inv delay interval fn w t" and armed: "tm_armed t = Some d"
  shows "timer_inv delay interval fn w (expire d t)"
proof -
  have "active t = 0" using inv armed by (simp add: timer_inv_def)
  moreover have "waits_ok delay interval (expire d t)"
    using inv armed waits_snoc [of "tm_waits t" delay interval d] by (simp add: timer_inv_def waits_ok_def expire_def)
  ultimately show ?thesis using inv armed by (auto simp: timer_inv_def expire_def active_def)
qed

lemma callback_inv:
  assumes inv: "timer_inv delay interval fn w t" and i: "i < length (tm_cbs t)" "tm_cbs t ! i = pc" "pc \<noteq> CbEnd"
    and s: "timer_callback interval fn pc t = (pc', t')"
  shows "timer_inv delay interval fn w (t'\<lparr>tm_cbs := (tm_cbs t')[i := pc']\<rparr>)"
proof -
  have one: "0 < active t" unfolding active_def using i by (intro num_pos_if_nth [of i]) auto
  then have a: "active t = 1" "tm_armed t = None" using inv by (auto simp: timer_inv_def split: if_splits)
  have up: "num P ((tm_cbs t)[i := pc']) = num P (tm_cbs t) - (if P pc then 1 else 0) + (if P pc' then 1 else 0)" for P
    using num_update [OF i(1), of P pc'] i(2) by simp
  have ge: "P pc \<Longrightarrow> 0 < num P (tm_cbs t)" for P using num_pos_if_nth [OF i(1), of P] i(2) by simp
  have mem: "pc \<in> set (tm_cbs t)" using i nth_mem by metis
  have upd: "set ((tm_cbs t)[i := q]) \<subseteq> insert q (set (tm_cbs t))" for q by (rule set_update_subset_insert)
  have calls: "num (\<lambda>pc. pc = CbCall) (tm_cbs t) = 0" if "pc \<noteq> CbCall"
  proof (rule ccontr)
    assume "\<not> ?thesis"
    then obtain k where k: "k < length (tm_cbs t)" "tm_cbs t ! k = CbCall" by (auto simp: num_zero_iff in_set_conv_nth)
    have "k = i" using a(1) unfolding active_def by (intro num_le_one_nth_eq [OF _ k(1) i(1), where P = "\<lambda>q. q \<noteq> CbEnd"]) (use k i in auto)
    then show False using k i that by simp
  qed
  show ?thesis
  proof (cases pc)
    case CbSpin
    then show ?thesis using inv s i a up upd [of pc'] by (cases "tm_state t = StateInit") (auto simp: timer_inv_def active_def waits_ok_def)
  next
    case CbCheck
    then show ?thesis using inv s i a up upd [of pc'] mem calls by (cases "tm_state t") (auto simp: timer_inv_def active_def waits_ok_def)
  next
    case CbCall
    then have t': "pc' = CbRecheck" "t' = t\<lparr>tm_world := fn (tm_world t), tm_calls := tm_calls t + 1,
        tm_late := tm_late t + (if tm_state t = StateDone then 1 else 0)\<rparr>" using s by simp_all
    have n: "num (\<lambda>q. q = CbCall) ((tm_cbs t)[i := pc']) = num (\<lambda>q. q = CbCall) (tm_cbs t) - 1"
      "num (\<lambda>q. q \<noteq> CbEnd) ((tm_cbs t)[i := pc']) = 1"
      using up a(1) CbCall t'(1) by (simp_all add: active_def)
    have "tm_returned t" using inv mem CbCall by (auto simp: timer_inv_def)
    then show ?thesis using inv n a i(1) ge [of "\<lambda>q. q = CbCall"] CbCall
      by (cases "tm_state t = StateDone") (simp_all add: timer_inv_def active_def waits_ok_def t'(2))
  next
    case CbRecheck
    then show ?thesis using inv s i a up upd [of pc'] mem by (cases "tm_state t") (auto simp: timer_inv_def active_def waits_ok_def)
  next
    case CbReset
    then have t': "pc' = CbEnd" "t' = t\<lparr>tm_armed := Some interval\<rparr>" using s by simp_all
    have n: "num (\<lambda>q. q \<noteq> CbEnd) ((tm_cbs t)[i := pc']) = 0" "num (\<lambda>q. q = CbCall) ((tm_cbs t)[i := pc']) = 0"
      using up a(1) CbReset t'(1) calls by (simp_all add: active_def)
    have "tm_returned t" using inv mem CbReset by (auto simp: timer_inv_def)
    moreover have "tm_cbs t \<noteq> []" using i(1) by auto
    ultimately show ?thesis using inv n a calls CbReset by (simp add: timer_inv_def active_def waits_ok_def t'(2)) blast
  qed (use i in simp)
qed

lemma cancel_inv:
  assumes inv: "timer_inv delay interval fn w t" and j: "j < length (tm_cancels t)" "tm_cancels t ! j = pc"
    and s: "cancel_timer pc t = (pc', t')"
  shows "timer_inv delay interval fn w (t'\<lparr>tm_cancels := (tm_cancels t')[j := pc']\<rparr>)"
proof -
  have mem: "pc \<in> set (tm_cancels t)" using j nth_mem by metis
  then have r: "tm_returned t" using inv by (auto simp: timer_inv_def)
  have over: "pc \<noteq> KSwap \<Longrightarrow> tm_state t = StateDone" using inv mem by (cases pc) (auto simp: timer_inv_def)
  show ?thesis
  proof (cases pc)
    case KSwap
    then show ?thesis using inv r s over by (auto simp: timer_inv_def active_def waits_ok_def)
  next
    case KStop
    then show ?thesis using inv r s over by (auto simp: timer_inv_def active_def waits_ok_def)
  next
    case KEnd
    then show ?thesis using inv r s over by (auto simp: timer_inv_def active_def waits_ok_def)
  qed
qed

lemma tm_step_inv: "tm_step interval fn t t' \<Longrightarrow> timer_inv delay interval fn w t \<Longrightarrow> timer_inv delay interval fn w t'"
proof (induction rule: tm_step.induct)
  case (cancel_call t)
  then show ?case by (auto simp: timer_inv_def active_def waits_ok_def)
qed (auto intro: ready_inv expire_inv callback_inv cancel_inv)

subsection \<open>The end of a cancelled timer\<close>

text \<open>A cancelled timer runs out: every further step but a new call of the cancel function uses up a part of this.\<close>

fun cb_left :: "cb_pc \<Rightarrow> nat" where
  "cb_left CbEnd = 0" | "cb_left CbCheck = 1" | "cb_left CbSpin = 2" | "cb_left CbReset = 4" | "cb_left CbRecheck = 5" | "cb_left CbCall = 6"

fun cancel_left :: "cancel_pc \<Rightarrow> nat" where
  "cancel_left KSwap = 2" | "cancel_left KStop = 1" | "cancel_left KEnd = 0"

definition steps_left :: "'s timer \<Rightarrow> nat" where
  "steps_left t = (if tm_armed t = None then 0 else 3) + sum_list (map cb_left (tm_cbs t)) + sum_list (map cancel_left (tm_cancels t))"

lemma sum_list_update_less:
  "i < length xs \<Longrightarrow> (f y :: nat) < f (xs ! i) \<Longrightarrow> sum_list (map f (xs[i := y])) + f (xs ! i) = sum_list (map f xs) + f y"
proof (induction xs arbitrary: i)
  case (Cons x xs)
  then show ?case by (cases i) auto
qed simp

lemma cancelled_step:
  assumes "tm_step interval fn t t'" and "tm_state t = StateDone" and "tm_returned t" and "length (tm_cancels t') = length (tm_cancels t)"
  shows "tm_state t' = StateDone \<and> tm_returned t' \<and> steps_left t' < steps_left t"
  using assms
proof (cases rule: tm_step.cases)
  case (expires d)
  then show ?thesis using assms by (simp add: expire_def steps_left_def)
next
  case (callback i pc u)
  have less: "cb_left pc + (if tm_armed u = None then 0 else 3) < cb_left (tm_cbs t ! i) + (if tm_armed t = None then 0 else 3)"
      "cb_left pc < cb_left (tm_cbs t ! i)" "tm_cbs u = tm_cbs t" "tm_cancels u = tm_cancels t" "tm_state u = StateDone" "tm_returned u"
    using callback(3,4) assms(2,3) by (cases "tm_cbs t ! i"; auto)+
  then show ?thesis using sum_list_update_less [OF callback(2), of cb_left pc] callback(1) by (simp add: steps_left_def)
next
  case (cancel j pc u)
  have less: "cancel_left pc + (if tm_armed u = None then 0 else 3) < cancel_left (tm_cancels t ! j) + (if tm_armed t = None then 0 else 3)"
      "cancel_left pc < cancel_left (tm_cancels t ! j)" "tm_cbs u = tm_cbs t" "tm_cancels u = tm_cancels t" "tm_state u = StateDone" "tm_returned u"
    using cancel(3,4) assms(2,3) by (cases "tm_cancels t ! j"; auto)+
  then show ?thesis using sum_list_update_less [OF cancel(2), of cancel_left pc] cancel(1) by (simp add: steps_left_def)
qed auto

definition before_call :: "cb_pc \<Rightarrow> bool" where
  "before_call pc \<longleftrightarrow> pc = CbSpin \<or> pc = CbCheck \<or> pc = CbCall"

definition calls_inv :: "'s timer \<Rightarrow> bool" where
  "calls_inv t \<longleftrightarrow> tm_calls t + num before_call (tm_cbs t) \<le> length (tm_waits t)"

lemma callback_calls:
  assumes "calls_inv t" "i < length (tm_cbs t)" "timer_callback interval fn (tm_cbs t ! i) t = (pc', t')"
  shows "calls_inv (t'\<lparr>tm_cbs := (tm_cbs t')[i := pc']\<rparr>)"
proof -
  have up: "num before_call ((tm_cbs t)[i := pc'])
      = num before_call (tm_cbs t) - (if before_call (tm_cbs t ! i) then 1 else 0) + (if before_call pc' then 1 else 0)"
    using num_update [OF assms(2)] by simp
  have pos: "before_call (tm_cbs t ! i) \<Longrightarrow> 0 < num before_call (tm_cbs t)" using num_pos_if_nth [OF assms(2)] by blast
  show ?thesis using assms(1,3) up pos by (cases "tm_cbs t ! i") (auto simp: calls_inv_def before_call_def split: if_splits)
qed

lemma tm_step_calls: "tm_step interval fn t t' \<Longrightarrow> calls_inv t \<Longrightarrow> calls_inv t'"
proof (induction rule: tm_step.induct)
  case (cancel j t pc t')
  then show ?case by (cases "tm_cancels t ! j") (auto simp: calls_inv_def)
next
  case (callback i t pc t')
  then show ?case by (intro callback_calls)
qed (auto simp: calls_inv_def store_ready_def expire_def before_call_def)

lemma repeated_inv:
  "(tm_step interval fn)\<^sup>*\<^sup>* (startTimer delay w) t \<Longrightarrow> timer_inv delay interval fn w t \<and> calls_inv t"
proof (induction rule: rtranclp_induct)
  case base
  show ?case using start_inv by (simp add: calls_inv_def startTimer_def)
qed (auto intro: tm_step_inv tm_step_calls)

lemma once_tells_once:
  "(snd (ScheduleOnce target delay msg x))\<^sup>*\<^sup>* (fst (ScheduleOnce target delay msg x)) t \<Longrightarrow>
     on_told t + on_pending t + (if on_armed t = None then 0 else 1) \<le> 1 \<and>
     on_node t = (if on_told t = 0 then x else sys_tell target msg x)"
  unfolding ScheduleOnce_def fst_conv snd_conv
proof (induction rule: rtranclp_induct)
  case base
  show ?case by (simp add: sendOnce_def)
next
  case (step t t')
  from step.hyps(2) step.IH show ?case by (cases rule: once_step.cases) (auto split: if_splits)
qed

text \<open>
  C39. A repeated schedule, with any number of racing cancellations: two runs of the function never
  overlap, the message was sent once for every run and there is at most one run per expiry,
  the first after the delay and each later one an interval after the run before; the schedule goes
  on until it is cancelled; of the runs after a cancellation there is at most one, the one that
  had passed its check; and a cancelled schedule comes to an end.
\<close>
theorem repeated_schedule_safe:
  assumes "(snd (ScheduleRepeated target delay interval msg x))\<^sup>*\<^sup>* (fst (ScheduleRepeated target delay interval msg x)) t"
  shows "num (\<lambda>pc. pc \<noteq> CbEnd) (tm_cbs t) \<le> 1 \<and>
    tm_world t = (sys_tell target msg ^^ tm_calls t) x \<and> tm_calls t \<le> length (tm_waits t) \<and>
    (tm_waits t = [] \<or> tm_waits t = delay # replicate (length (tm_waits t) - 1) interval) \<and>
    (tm_state t \<noteq> StateDone \<longrightarrow> tm_armed t \<noteq> None \<or> (\<exists>pc \<in> set (tm_cbs t). pc \<noteq> CbEnd)) \<and> tm_late t \<le> 1 \<and>
    (\<forall>t'. tm_state t = StateDone \<and> snd (ScheduleRepeated target delay interval msg x) t t' \<and> length (tm_cancels t') = length (tm_cancels t) \<longrightarrow>
       tm_state t' = StateDone \<and> steps_left t' < steps_left t)"
proof -
  note inv = repeated_inv [OF assms [unfolded ScheduleRepeated_def sendRepeatedly_def fst_conv snd_conv]]
  have "tm_returned t" if "tm_state t = StateDone" using inv that by (auto simp: timer_inv_def)
  then have "tm_state t' = StateDone \<and> steps_left t' < steps_left t"
    if "tm_state t = StateDone" "snd (ScheduleRepeated target delay interval msg x) t t'" "length (tm_cancels t') = length (tm_cancels t)" for t'
    using cancelled_step [of interval "sys_tell target msg" t t'] that by (simp add: ScheduleRepeated_def sendRepeatedly_def)
  moreover have "tm_armed t \<noteq> None \<or> (\<exists>pc \<in> set (tm_cbs t). pc \<noteq> CbEnd)" if "tm_state t \<noteq> StateDone"
    using inv that num_zero_iff [of "\<lambda>pc. pc \<noteq> CbEnd" "tm_cbs t"] by (auto simp: timer_inv_def active_def split: if_splits)
  moreover have "num (\<lambda>pc. pc \<noteq> CbEnd) (tm_cbs t) \<le> 1" "tm_late t \<le> 1" "tm_calls t \<le> length (tm_waits t)"
      "tm_world t = (sys_tell target msg ^^ tm_calls t) x"
    using inv by (simp_all add: timer_inv_def active_def calls_inv_def)
  moreover have "tm_waits t = [] \<or> tm_waits t = delay # replicate (length (tm_waits t) - 1) interval"
    using inv by (simp only: timer_inv_def waits_ok_def)
  ultimately show ?thesis by blast
qed

definition ticked :: "node timer" where
  "ticked = (startTimer 5 (new_node 0 ''a'' player_conf []))\<lparr>tm_state := StateReady, tm_returned := True, tm_armed := None,
     tm_cbs := [CbCall], tm_waits := [5]\<rparr>"

theorem repeated_schedule_safe_witness:
  "(snd (ScheduleRepeated (newDirectActorRef ''local'' ''b'' ''a'' 0 7) 5 3 (UserMsg ''m'' 1) (new_node 0 ''a'' player_conf [])))\<^sup>*\<^sup>*
     (fst (ScheduleRepeated (newDirectActorRef ''local'' ''b'' ''a'' 0 7) 5 3 (UserMsg ''m'' 1) (new_node 0 ''a'' player_conf []))) ticked \<and>
   num (\<lambda>pc. pc \<noteq> CbEnd) (tm_cbs ticked) \<le> 1 \<and> tm_late ticked \<le> 1"
proof -
  let ?n = "new_node 0 ''a'' player_conf []" and ?r = "newDirectActorRef ''local'' ''b'' ''a'' 0 7" and ?m = "UserMsg ''m'' 1"
  let ?step = "tm_step 3 (sys_tell ?r ?m)"
  define t0 where "t0 = startTimer 5 ?n"
  have 1: "?step t0 (store_ready t0)" by (rule tm_step.ready) (simp add: t0_def startTimer_def)
  define t1 where "t1 = store_ready t0"
  have 2: "?step t1 (expire 5 t1)" by (rule tm_step.expires) (simp add: t1_def t0_def store_ready_def startTimer_def)
  define t2 where "t2 = expire 5 t1"
  note defs = t2_def t1_def t0_def expire_def store_ready_def startTimer_def
  have 3: "?step t2 (t2\<lparr>tm_cbs := (tm_cbs t2)[0 := CbCheck]\<rparr>)" by (rule tm_step.callback) (simp_all add: defs)
  define t3 where "t3 = t2\<lparr>tm_cbs := (tm_cbs t2)[0 := CbCheck]\<rparr>"
  have 4: "?step t3 (t3\<lparr>tm_cbs := (tm_cbs t3)[0 := CbCall]\<rparr>)" by (rule tm_step.callback) (simp_all add: t3_def defs)
  have "t3\<lparr>tm_cbs := (tm_cbs t3)[0 := CbCall]\<rparr> = ticked" by (simp add: t3_def defs ticked_def)
  with 4 have 5: "?step t3 ticked" by (simp only:)
  note 1 [folded t1_def] 2 [folded t2_def] 3 [folded t3_def] 5
  then have "?step\<^sup>*\<^sup>* t0 ticked" by (iprover intro: rtranclp.rtrancl_refl rtranclp.rtrancl_into_rtrancl)
  then have run: "(snd (ScheduleRepeated ?r 5 3 ?m ?n))\<^sup>*\<^sup>* (fst (ScheduleRepeated ?r 5 3 ?m ?n)) ticked"
    by (simp add: ScheduleRepeated_def sendRepeatedly_def t0_def)
  show ?thesis using run repeated_schedule_safe [OF run] by blast
qed

end
