(* ===== verification/Net_Addr.thy ===== *)
theory Net_Addr
  imports Go_Strings "HOL-Library.Multiset"
begin

section \<open>The address a node advertises: al/gonet/gonet.go, remote/stream_server.go\<close>

text \<open>
  Peers dial the address a node registers in etcd. When the node listens on every interface, the host is chosen
  from the addresses of the interfaces: usable IPv4 addresses, private ones first, in byte order, so that the
  choice does not depend on the order in which the system lists them. \<open>net.IP\<close> is a list of 4 or 16 bytes;
  what \<open>net.Interfaces\<close> and \<open>net.Listen\<close> answer are parameters; \<open>net.SplitHostPort\<close>, \<open>net.JoinHostPort\<close> and
  \<open>sort.SliceStable\<close> are modelled by what the standard library documents.
\<close>

type_synonym ip = "8 word list"

subsection \<open>Addresses\<close>

text \<open>\<open>IP.To4\<close>; the tests below are the ones of \<open>net.IP\<close> on the 4-byte form.\<close>

definition To4 :: "ip \<Rightarrow> ip option" where
  "To4 i = (if length i = 4 then Some i
     else if length i = 16 \<and> take 10 i = replicate 10 0 \<and> i ! 10 = 255 \<and> i ! 11 = 255 then Some (drop 12 i)
     else None)"

definition IsLoopback :: "ip \<Rightarrow> bool" where "IsLoopback ip4 \<longleftrightarrow> ip4 ! 0 = 127"

definition IsLinkLocalUnicast :: "ip \<Rightarrow> bool" where "IsLinkLocalUnicast ip4 \<longleftrightarrow> ip4 ! 0 = 169 \<and> ip4 ! 1 = 254"

definition IsUnspecified :: "ip \<Rightarrow> bool" where "IsUnspecified ip4 \<longleftrightarrow> ip4 = [0, 0, 0, 0]"

definition IsMulticast :: "ip \<Rightarrow> bool" where "IsMulticast ip4 \<longleftrightarrow> 224 \<le> ip4 ! 0 \<and> ip4 ! 0 < 240"

definition isPrivate :: "ip \<Rightarrow> bool" where
  "isPrivate i = (case To4 i of None \<Rightarrow> False
     | Some ip4 \<Rightarrow> ip4 ! 0 = 10 \<or> (ip4 ! 0 = 172 \<and> 16 \<le> ip4 ! 1 \<and> ip4 ! 1 \<le> 31) \<or> (ip4 ! 0 = 192 \<and> ip4 ! 1 = 168))"

text \<open>\<open>bytes.Compare(a, b) < 0\<close>.\<close>

fun bytes_less :: "ip \<Rightarrow> ip \<Rightarrow> bool" where
  "bytes_less [] [] = False"
| "bytes_less [] (y # ys) = True"
| "bytes_less (x # xs) [] = False"
| "bytes_less (x # xs) (y # ys) = (x < y \<or> x = y \<and> bytes_less xs ys)"

definition ip_less :: "ip \<Rightarrow> ip \<Rightarrow> bool" where
  "ip_less a b = (let pi = isPrivate a; pj = isPrivate b in if pi \<noteq> pj then pi else bytes_less a b)"

text \<open>\<open>sort.SliceStable\<close>.\<close>

fun insert_stable :: "('a \<Rightarrow> 'a \<Rightarrow> bool) \<Rightarrow> 'a \<Rightarrow> 'a list \<Rightarrow> 'a list" where
  "insert_stable lt x [] = [x]"
| "insert_stable lt x (y # ys) = (if lt y x then y # insert_stable lt x ys else x # y # ys)"

definition SliceStable :: "('a \<Rightarrow> 'a \<Rightarrow> bool) \<Rightarrow> 'a list \<Rightarrow> 'a list" where
  "SliceStable lt xs = foldr (insert_stable lt) xs []"

fun select_filter :: "ip list \<Rightarrow> ip list" where
  "select_filter [] = []"
| "select_filter (i # is) = (case To4 i of None \<Rightarrow> select_filter is
     | Some ip4 \<Rightarrow>
        if IsLoopback ip4 then select_filter is
        else if IsLinkLocalUnicast ip4 then select_filter is
        else if IsUnspecified ip4 \<or> IsMulticast ip4 then select_filter is
        else ip4 # select_filter is)"

definition selectInnerIPs :: "ip list \<Rightarrow> ip list" where
  "selectInnerIPs candidates = SliceStable ip_less (select_filter candidates)"

subsection \<open>Interfaces and the cache\<close>

datatype net_addr = IPNet ip | IPAddr ip | OtherAddr

record iface =
  if_up :: bool
  if_loopback :: bool
  if_Addrs :: "net_addr list option"

fun addr_ip4 :: "net_addr \<Rightarrow> ip option" where
  "addr_ip4 (IPNet i) = To4 i"
| "addr_ip4 (IPAddr i) = To4 i"
| "addr_ip4 OtherAddr = None"

definition iface_ips :: "iface \<Rightarrow> ip list" where
  "iface_ips f = (if \<not> if_up f \<or> if_loopback f then [] else case if_Addrs f of None \<Rightarrow> [] | Some as \<Rightarrow> List.map_filter addr_ip4 as)"

definition enumerateInnerIPs :: "iface list option \<Rightarrow> ip list" where
  "enumerateInnerIPs ifaces = (case ifaces of None \<Rightarrow> [] | Some fs \<Rightarrow> selectInnerIPs (concat (map iface_ips fs)))"

definition innerIPs :: "iface list option \<Rightarrow> ip list option \<Rightarrow> ip list \<times> ip list option" where
  "innerIPs ifaces cache = (case cache of Some cached \<Rightarrow> (cached, cache)
     | None \<Rightarrow> let found = enumerateInnerIPs ifaces in if found = [] then ([], None) else (found, Some found))"

definition GetTopInnerIP :: "iface list option \<Rightarrow> ip list option \<Rightarrow> ip option \<times> ip list option" where
  "GetTopInnerIP ifaces cache = (case innerIPs ifaces cache of
      ([], cache') \<Rightarrow> (None, cache')
    | (i # is, cache') \<Rightarrow> (Some i, cache'))"

subsection \<open>Sorting by a strict total order\<close>

locale strict_total =
  fixes lt :: "'a \<Rightarrow> 'a \<Rightarrow> bool"
  assumes irrefl: "\<not> lt a a"
    and trans: "lt a b \<Longrightarrow> lt b c \<Longrightarrow> lt a c"
    and total: "lt a b \<or> a = b \<or> lt b a"
begin

lemma asym: "lt a b \<Longrightarrow> \<not> lt b a"
  using irrefl trans by blast

lemma insert_commute: "insert_stable lt x (insert_stable lt y zs) = insert_stable lt y (insert_stable lt x zs)"
proof (induction zs)
  case Nil
  show ?case using total [of x y] asym [of x y] by auto
next
  case (Cons z zs)
  show ?case
  proof (cases "lt z x"; cases "lt z y")
    assume "\<not> lt z x" "\<not> lt z y"
    then show ?thesis using total [of x y] asym [of x y] by auto
  next
    assume a: "lt z x" "\<not> lt z y"
    then have "lt y x" using total [of y z] trans [of y z x] by auto
    then show ?thesis using a by simp
  next
    assume a: "\<not> lt z x" "lt z y"
    then have "lt x y" using total [of x z] trans [of x z y] by auto
    then show ?thesis using a by simp
  qed (use Cons in simp)
qed

lemma mset_insert: "mset (insert_stable lt x ys) = add_mset x (mset ys)"
  by (induction ys) auto

lemma mset_SliceStable: "mset (SliceStable lt xs) = mset xs"
  by (induction xs) (simp_all add: SliceStable_def mset_insert)

lemma set_SliceStable: "set (SliceStable lt xs) = set xs"
  by (rule mset_eq_setD [OF mset_SliceStable])

lemma SliceStable_permutation:
  assumes "mset xs = mset ys"
  shows "SliceStable lt xs = SliceStable lt ys"
proof -
  have "fold (insert_stable lt) (rev xs) = fold (insert_stable lt) (rev ys)"
    using assms insert_commute by (intro fold_multiset_equiv) (auto simp: fun_eq_iff)
  then show ?thesis by (simp add: SliceStable_def foldr_conv_fold)
qed

lemma set_insert: "set (insert_stable lt x ys) = insert x (set ys)"
  by (metis mset_insert set_mset_add_mset_insert set_mset_mset)

lemma sorted_insert: "sorted_wrt (\<lambda>a b. \<not> lt b a) ys \<Longrightarrow> sorted_wrt (\<lambda>a b. \<not> lt b a) (insert_stable lt x ys)"
proof (induction ys)
  case (Cons y ys)
  have "\<not> lt z x" if "\<not> lt y x" "z \<in> set ys" for z
    using that Cons.prems total [of x y] trans [of z x y] by auto
  then show ?case using Cons asym [of y x] by (auto simp: set_insert)
qed simp

lemma sorted_SliceStable: "sorted_wrt (\<lambda>a b. \<not> lt b a) (SliceStable lt xs)"
  by (induction xs) (simp_all add: SliceStable_def sorted_insert)

end

lemma bytes_less_irrefl: "\<not> bytes_less a a"
  by (induction a) auto

lemma bytes_less_trans: "bytes_less a b \<Longrightarrow> bytes_less b c \<Longrightarrow> bytes_less a c"
proof (induction a b arbitrary: c rule: bytes_less.induct)
  case (2 y ys)
  then show ?case by (cases c) auto
next
  case (4 x xs y ys)
  then show ?case by (cases c) (auto intro: less_trans)
qed auto

lemma bytes_less_total: "bytes_less a b \<or> a = b \<or> bytes_less b a"
  by (induction a b rule: bytes_less.induct) auto

interpretation inner: strict_total ip_less
proof
  show "\<not> ip_less a a" for a by (simp add: ip_less_def bytes_less_irrefl)
  show "ip_less a b \<Longrightarrow> ip_less b c \<Longrightarrow> ip_less a c" for a b c
    using bytes_less_trans [of a b c] by (auto simp: ip_less_def Let_def split: if_splits)
  show "ip_less a b \<or> a = b \<or> ip_less b a" for a b
    using bytes_less_total [of a b] by (auto simp: ip_less_def Let_def)
qed

subsection \<open>The choice of the address\<close>

definition usable :: "ip \<Rightarrow> bool" where
  "usable ip4 \<longleftrightarrow> \<not> IsLoopback ip4 \<and> \<not> IsLinkLocalUnicast ip4 \<and> \<not> IsUnspecified ip4 \<and> \<not> IsMulticast ip4"

lemma select_filter_eq: "select_filter cs = filter usable (List.map_filter To4 cs)"
proof (induction cs)
  case (Cons i cs)
  then show ?case by (cases "To4 i") (simp_all add: usable_def List.map_filter_simps)
qed (simp add: List.map_filter_simps)

lemma if_two: "(if a then Some i else if b \<and> c then Some j else None) = Some r \<Longrightarrow> a \<and> r = i \<or> b \<and> r = j"
  by (simp split: if_split_asm)

lemma To4_length: "To4 i = Some ip4 \<Longrightarrow> length ip4 = 4"
  unfolding To4_def by (drule if_two) auto

lemma To4_idem: "To4 i = Some ip4 \<Longrightarrow> To4 ip4 = Some ip4"
  by (drule To4_length) (simp add: To4_def)

definition host_ips :: "iface list \<Rightarrow> ip list" where
  "host_ips fs = filter usable (concat (map iface_ips fs))"

lemma iface_ips_To4: "i \<in> set (iface_ips f) \<Longrightarrow> To4 i = Some i"
proof -
  assume "i \<in> set (iface_ips f)"
  then obtain a where "addr_ip4 a = Some i" by (auto simp: iface_ips_def List.map_filter_def split: if_splits option.splits)
  then show ?thesis by (cases a) (auto intro: To4_idem)
qed

lemma map_filter_all: "(\<And>x. x \<in> set xs \<Longrightarrow> f x = Some x) \<Longrightarrow> List.map_filter f xs = xs"
  by (induction xs) (simp_all add: List.map_filter_simps)

lemma mset_concat_map: "mset (concat (map f xs)) = sum_mset (image_mset (\<lambda>x. mset (f x)) (mset xs))"
  by (induction xs) simp_all

lemma enumerate_sorts: "enumerateInnerIPs (Some fs) = SliceStable ip_less (host_ips fs)"
proof -
  have "List.map_filter To4 (concat (map iface_ips fs)) = concat (map iface_ips fs)"
    by (rule map_filter_all) (auto intro: iface_ips_To4)
  then show ?thesis by (simp add: enumerateInnerIPs_def selectInnerIPs_def select_filter_eq host_ips_def)
qed

lemma innerIPs_cached: "innerIPs ifaces cache = (is, cache') \<Longrightarrow> is \<noteq> [] \<Longrightarrow> cache' = Some is"
  by (auto simp: innerIPs_def Let_def split: option.splits if_splits)

text \<open>
  The address of a node is a function of the set of its addresses: however the system orders the
  interfaces, the first call finds the same address. It finds one exactly when an
  interface that is up and not a loopback has a usable IPv4 address, it finds a private one when there is
  a usable private one, a found address is the answer of every later call, and a call that found none
  leaves nothing behind.
\<close>
lemma inner_ip_deterministic:
  assumes "mset fs = mset fs'"
  shows "GetTopInnerIP (Some fs) None = GetTopInnerIP (Some fs') None \<and>
    (case GetTopInnerIP (Some fs) None of
       (None, cache) \<Rightarrow> host_ips fs = [] \<and> cache = None
     | (Some i, cache) \<Rightarrow> i \<in> set (host_ips fs) \<and> (isPrivate i \<longleftrightarrow> (\<exists>j \<in> set (host_ips fs). isPrivate j)) \<and>
         (\<forall>later. GetTopInnerIP later cache = (Some i, cache)))"
proof -
  have "mset (host_ips fs) = mset (host_ips fs')" using assms by (simp add: host_ips_def mset_concat_map)
  then have "enumerateInnerIPs (Some fs) = enumerateInnerIPs (Some fs')" unfolding enumerate_sorts by (rule inner.SliceStable_permutation)
  then have same: "GetTopInnerIP (Some fs) None = GetTopInnerIP (Some fs') None" by (simp add: GetTopInnerIP_def innerIPs_def)
  have set: "set (enumerateInnerIPs (Some fs)) = set (host_ips fs)"
    by (simp add: enumerate_sorts inner.set_SliceStable)
  show ?thesis
  proof (cases "enumerateInnerIPs (Some fs)")
    case Nil
    then have "GetTopInnerIP (Some fs) None = (None, None)" by (simp add: GetTopInnerIP_def innerIPs_def)
    then show ?thesis using same [symmetric] set Nil by simp
  next
    case (Cons i rest)
    have sorted: "\<not> ip_less j i" if "j \<in> set rest" for j
      using inner.sorted_SliceStable [of "host_ips fs"] that by (simp add: Cons flip: enumerate_sorts)
    have "isPrivate i" if "j \<in> set (host_ips fs)" "isPrivate j" for j
    proof (cases "j = i")
      case False
      then have "\<not> ip_less j i" using that(1) set sorted by (auto simp: Cons)
      then show ?thesis using that(2) by (simp add: ip_less_def Let_def split: if_split_asm)
    qed (use that in simp)
    moreover have "i \<in> set (host_ips fs)" using set by (auto simp: Cons)
    moreover have "GetTopInnerIP (Some fs) None = (Some i, Some (i # rest))" by (simp add: GetTopInnerIP_def innerIPs_def Cons Let_def)
    moreover have "GetTopInnerIP later (Some (i # rest)) = (Some i, Some (i # rest))" for later by (simp add: GetTopInnerIP_def innerIPs_def)
    ultimately show ?thesis using same [symmetric] by auto
  qed
qed

definition sample_ifaces :: "iface list" where
  "sample_ifaces = [\<lparr>if_up = True, if_loopback = True, if_Addrs = Some [IPNet [10, 255, 255, 254]]\<rparr>,
     \<lparr>if_up = True, if_loopback = False, if_Addrs = Some [IPNet [8, 8, 8, 8], IPNet [192, 168, 0, 7]]\<rparr>,
     \<lparr>if_up = True, if_loopback = False, if_Addrs = Some [IPNet [172, 16, 0, 3], IPNet [169, 254, 1, 1]]\<rparr>]"

subsection \<open>Host and port\<close>

text \<open>\<open>net.SplitHostPort\<close>: the last colon separates the port; a host with colons stands in brackets.\<close>

definition colon :: char where "colon = CHR '':''"

definition SplitHostPort :: "string \<Rightarrow> (string \<times> string) option" where
  "SplitHostPort s = (case last_index_byte s colon of None \<Rightarrow> None
     | Some i \<Rightarrow>
        if hd s = CHR ''['' then
          (case index_byte s (CHR '']'') of None \<Rightarrow> None
           | Some e \<Rightarrow>
              if Suc e \<noteq> i then None
              else if CHR ''['' \<in> set (drop 1 s) \<or> CHR '']'' \<in> set (drop (Suc e) s) then None
              else Some (take (e - 1) (drop 1 s), drop (Suc i) s))
        else if colon \<in> set (take i s) then None
        else if CHR ''['' \<in> set s \<or> CHR '']'' \<in> set s then None
        else Some (take i s, drop (Suc i) s))"

definition JoinHostPort :: "string \<Rightarrow> string \<Rightarrow> string" where
  "JoinHostPort host port = (if colon \<in> set host then ''['' @ host @ '']:'' @ port else host @ '':'' @ port)"

text \<open>\<open>IP.String\<close> of a 4-byte address.\<close>

definition ip_String :: "ip \<Rightarrow> string" where
  "ip_String ip4 = format_nat (unat (ip4 ! 0)) @ ''.'' @ format_nat (unat (ip4 ! 1)) @ ''.'' @
     format_nat (unat (ip4 ! 2)) @ ''.'' @ format_nat (unat (ip4 ! 3))"

subsection \<open>The server\<close>

text \<open>\<open>rs_gs\<close> says whether a gRPC server runs.\<close>

record rpc_service =
  rs_listenAddr :: string
  rs_addr :: string
  rs_gs :: bool

definition NewRpcServer :: "string \<Rightarrow> rpc_service" where
  "NewRpcServer listenAddr = \<lparr>rs_listenAddr = (if listenAddr = [] then '':0'' else listenAddr), rs_addr = [], rs_gs = False\<rparr>"

definition advertiseHost :: "iface list option \<Rightarrow> ip list option \<Rightarrow> rpc_service \<Rightarrow> string \<times> ip list option" where
  "advertiseHost ifaces cache x =
     (let inner = (case GetTopInnerIP ifaces cache of (Some i, cache') \<Rightarrow> (ip_String i, cache') | (None, cache') \<Rightarrow> (''127.0.0.1'', cache'))
      in case SplitHostPort (rs_listenAddr x) of
        None \<Rightarrow> inner
      | Some (host, port) \<Rightarrow> if host \<noteq> [] \<and> host \<noteq> ''0.0.0.0'' \<and> host \<noteq> ''::'' then (host, cache) else inner)"

datatype rpc_error = ListenFailed | BadListenAddr

text \<open>\<open>Start\<close>; \<open>listen\<close> answers with the address it bound.\<close>

definition rpc_Start :: "(string \<Rightarrow> string option) \<Rightarrow> iface list option \<Rightarrow> ip list option \<Rightarrow> rpc_service \<Rightarrow> rpc_error + (rpc_service \<times> ip list option)" where
  "rpc_Start listen ifaces cache x = (case listen (rs_listenAddr x) of None \<Rightarrow> Inl ListenFailed
     | Some bound \<Rightarrow> (case SplitHostPort bound of None \<Rightarrow> Inl BadListenAddr
        | Some (h, port) \<Rightarrow> let (host, cache') = advertiseHost ifaces cache x
            in Inr (x\<lparr>rs_addr := JoinHostPort host port, rs_gs := True\<rparr>, cache')))"

text \<open>How \<open>Serve\<close> ended, and whether the owner is told.\<close>

datatype serve_end = ServeNil | ServeErrServerStopped | ServeEOF | ServeErr

definition serve_done :: "serve_end \<Rightarrow> bool \<Rightarrow> bool" where
  "serve_done err onFatal = (if err = ServeNil \<or> err = ServeErrServerStopped \<or> err = ServeEOF then False else onFatal)"

definition rpc_Stop :: "rpc_service \<Rightarrow> rpc_service" where
  "rpc_Stop x = (if rs_gs x then x\<lparr>rs_gs := False\<rparr> else x)"

definition rpc_Addr :: "rpc_service \<Rightarrow> string" where "rpc_Addr x = rs_addr x"

subsection \<open>The advertised address can be dialled\<close>

definition bracket_free :: "string \<Rightarrow> bool" where
  "bracket_free s \<longleftrightarrow> CHR ''['' \<notin> set s \<and> CHR '']'' \<notin> set s"

lemma last_index_split:
  assumes "last_index_byte s c = Some i"
  shows "i < length s" and "c \<notin> set (drop (Suc i) s)"
proof -
  obtain j where j: "index_byte (rev s) c = Some j" "i = length s - Suc j" using assms by (auto simp: last_index_byte_def)
  note D = index_byte_SomeD [OF j(1)]
  then show "i < length s" using j(2) by auto
  have "drop (Suc i) s = rev (take j (rev s))" 
    using D j(2) Suc_diff_Suc [of j "length s"] by (simp add: take_rev)
  then show "c \<notin> set (drop (Suc i) s)" using D by simp
qed

lemma SplitHostPort_parts:
  assumes "SplitHostPort s = Some (h, p)"
  shows "bracket_free h \<and> bracket_free p \<and> colon \<notin> set p"
proof -
  obtain i where i: "last_index_byte s colon = Some i" using assms by (auto simp: SplitHostPort_def split: option.splits)
  note p = last_index_split [OF i]
  show ?thesis
  proof (cases "hd s = CHR ''[''")
    case True
    then obtain e where e: "index_byte s (CHR '']'') = Some e" "Suc e = i" "CHR ''['' \<notin> set (drop 1 s)" "CHR '']'' \<notin> set (drop (Suc e) s)"
        "h = take (e - 1) (drop 1 s)" "p = drop (Suc i) s"
      using assms i by (auto simp: SplitHostPort_def split: option.splits if_splits)
    have "set h \<subseteq> set (drop 1 s)" using e(5) by (simp add: set_take_subset)
    moreover have "h = drop 1 (take e s)" using e(5) by (simp add: drop_take)
    then have "set h \<subseteq> set (take e s)" by (simp add: set_drop_subset)
    moreover have "CHR '']'' \<notin> set (take e s)" using index_byte_SomeD [OF e(1)] by simp
    moreover have "set p \<subseteq> set (drop (Suc e) s)" "set p \<subseteq> set (drop 1 s)" 
      using set_drop_subset_set_drop [of "Suc e" "Suc i" s] set_drop_subset_set_drop [of 1 "Suc i" s] e(2,6) by simp_all
    ultimately show ?thesis using e(3,4,6) p(2) by (auto simp: bracket_free_def)
  next
    case False
    then have "CHR ''['' \<notin> set s" "CHR '']'' \<notin> set s" "h = take i s" "p = drop (Suc i) s"
      using assms i by (auto simp: SplitHostPort_def split: if_splits)
    then show ?thesis using p(2) by (auto simp: bracket_free_def dest: in_set_takeD in_set_dropD)
  qed
qed

lemma split_join:
  assumes "bracket_free h" "bracket_free p" "colon \<notin> set p"
  shows "SplitHostPort (JoinHostPort h p) = Some (h, p)"
proof (cases "colon \<in> set h")
  case True
  let ?s = "CHR ''['' # h @ CHR '']'' # colon # p"
  have s: "JoinHostPort h p = ?s" using True by (simp add: JoinHostPort_def colon_def)
  have "last_index_byte ((CHR ''['' # h @ [CHR '']'']) @ colon # p) colon = Some (length (CHR ''['' # h @ [CHR '']'']))"
    using assms(3) by (rule last_index_byte_append_notin)
  then have "last_index_byte ?s colon = Some (Suc (Suc (length h)))" by simp
  moreover have "index_byte ((CHR ''['' # h) @ CHR '']'' # colon # p) (CHR '']'') = Some (length (CHR ''['' # h))"
    using assms(1) by (intro index_byte_append_notin) (simp add: bracket_free_def)
  then have "index_byte ?s (CHR '']'') = Some (Suc (length h))" by simp
  ultimately show ?thesis unfolding s using assms by (simp add: SplitHostPort_def bracket_free_def colon_def)
next
  case False
  have s: "JoinHostPort h p = h @ colon # p" using False by (simp add: JoinHostPort_def colon_def)
  have "last_index_byte (h @ colon # p) colon = Some (length h)" using assms(3) by simp
  moreover have "hd (h @ colon # p) \<noteq> CHR ''[''" using assms(1) by (cases h) (auto simp: bracket_free_def colon_def)
  ultimately show ?thesis unfolding s using assms False by (simp add: SplitHostPort_def bracket_free_def) (simp add: colon_def)
qed

lemma ip_String_parts:
  "split_byte (CHR ''.'') (ip_String i) = [format_nat (unat (i ! 0)), format_nat (unat (i ! 1)), format_nat (unat (i ! 2)), format_nat (unat (i ! 3))]"
proof -
  have "CHR ''.'' \<notin> set (format_nat n)" for n by (rule format_nat_notin) simp
  then show ?thesis by (simp add: ip_String_def split_byte_append split_byte_notin)
qed

lemma ip_String_inj:
  assumes "length i = 4" "length j = 4" "ip_String i = ip_String j"
  shows "i = j"
proof (rule nth_equalityI)
  have eq: "format_nat (unat (i ! k)) = format_nat (unat (j ! k))" if "k \<in> {0, 1, 2, 3}" for k
    using assms(3) ip_String_parts [of i] ip_String_parts [of j] that by auto
  fix k assume "k < length i"
  then have "k \<in> {0, 1, 2, 3}" using assms(1) by auto
  from eq [OF this] have "unat (i ! k) = unat (j ! k)" by simp
  then show "i ! k = j ! k" by (simp add: word_unat_eq_iff)
qed (use assms in simp)

definition ips_ok :: "ip list option \<Rightarrow> bool" where
  "ips_ok cache \<longleftrightarrow> (case cache of None \<Rightarrow> True | Some is \<Rightarrow> is \<noteq> [] \<and> list_all (\<lambda>i. length i = 4 \<and> usable i) is)"

lemma enumerate_ok: "i \<in> set (enumerateInnerIPs ifaces) \<Longrightarrow> length i = 4 \<and> usable i"
proof (cases ifaces)
  case (Some fs)
  assume "i \<in> set (enumerateInnerIPs ifaces)"
  then have "i \<in> set (host_ips fs)" by (simp add: Some enumerate_sorts inner.set_SliceStable)
  then obtain f where "i \<in> set (iface_ips f)" "usable i" by (auto simp: host_ips_def)
  then show ?thesis using To4_length [OF iface_ips_To4] by simp
qed (simp add: enumerateInnerIPs_def)

lemma GetTop_ok:
  assumes "ips_ok cache" "GetTopInnerIP ifaces cache = (r, cache')"
  shows "ips_ok cache' \<and> (\<forall>i. r = Some i \<longrightarrow> length i = 4 \<and> usable i)"
  using assms enumerate_ok [of _ ifaces]
  by (auto simp: ips_ok_def GetTopInnerIP_def innerIPs_def Let_def list_all_iff split: option.splits if_splits list.splits)

lemma ip_String_host:
  assumes "length i = 4" "usable i"
  shows "bracket_free (ip_String i) \<and> ip_String i \<noteq> [] \<and> ip_String i \<noteq> ''0.0.0.0'' \<and> ip_String i \<noteq> ''::''"
proof -
  have digits: "c \<notin> set (ip_String i)" if "57 < (of_char c :: nat)" "c \<noteq> CHR ''.''" for c
    using that format_nat_notin [of c] by (simp add: ip_String_def)
  have "digit_char 0 = CHR ''0''" by code_simp
  then have "ip_String [0, 0, 0, 0] = ''0.0.0.0''" by (simp add: ip_String_def format_nat.simps)
  then have "ip_String i \<noteq> ''0.0.0.0''" using ip_String_inj [OF assms(1), of "[0, 0, 0, 0]"] assms(2) by (auto simp: usable_def IsUnspecified_def)
  then show ?thesis using digits [of "CHR ''[''"] digits [of "CHR '']''"] by (auto simp: bracket_free_def ip_String_def)
qed

lemma advertise_ok:
  assumes "ips_ok cache" and "advertiseHost ifaces cache x = (host, cache')"
  shows "ips_ok cache' \<and> bracket_free host \<and> host \<noteq> [] \<and> host \<noteq> ''0.0.0.0'' \<and> host \<noteq> ''::'' \<and>
    (\<forall>h p. SplitHostPort (rs_listenAddr x) = Some (h, p) \<and> h \<noteq> [] \<and> h \<noteq> ''0.0.0.0'' \<and> h \<noteq> ''::'' \<longrightarrow> host = h)"
proof -
  obtain r c where top: "GetTopInnerIP ifaces cache = (r, c)" by (cases "GetTopInnerIP ifaces cache")
  define dflt where "dflt = (case r of Some i \<Rightarrow> ip_String i | None \<Rightarrow> ''127.0.0.1'')"
  have dflt: "bracket_free dflt \<and> dflt \<noteq> [] \<and> dflt \<noteq> ''0.0.0.0'' \<and> dflt \<noteq> ''::''"
    using GetTop_ok [OF assms(1) top] ip_String_host by (cases r) (simp_all add: dflt_def bracket_free_def)
  have adv: "advertiseHost ifaces cache x = (case SplitHostPort (rs_listenAddr x) of None \<Rightarrow> (dflt, c)
      | Some (h, p) \<Rightarrow> if h \<noteq> [] \<and> h \<noteq> ''0.0.0.0'' \<and> h \<noteq> ''::'' then (h, cache) else (dflt, c))"
    by (cases r; cases "SplitHostPort (rs_listenAddr x)") (auto simp: advertiseHost_def top Let_def dflt_def)
  show ?thesis
  proof (cases "\<exists>h p. SplitHostPort (rs_listenAddr x) = Some (h, p) \<and> h \<noteq> [] \<and> h \<noteq> ''0.0.0.0'' \<and> h \<noteq> ''::''")
    case True
    then obtain h p where h: "SplitHostPort (rs_listenAddr x) = Some (h, p)" "h \<noteq> []" "h \<noteq> ''0.0.0.0''" "h \<noteq> ''::''" by blast
    then have "host = h" "cache' = cache" using assms(2) adv by simp_all
    then show ?thesis using h assms(1) SplitHostPort_parts [OF h(1)] by simp
  next
    case False
    then have "host = dflt" "cache' = c" using assms(2) adv by (auto split: option.splits if_splits)
    then show ?thesis using dflt False GetTop_ok [OF assms(1) top] by blast
  qed
qed

text \<open>
  C38. What a started node tells its peers can be dialled: the advertised address splits back into a
  host that names one interface (never empty or a wildcard) and the port that was bound, and a host
  the configuration gives is advertised as given.
\<close>
theorem advertised_address_dialable:
  assumes "ips_ok cache" and "rpc_Start listen ifaces cache (NewRpcServer addr) = Inr (x, cache')"
  shows "\<exists>bound h port host. listen (rs_listenAddr x) = Some bound \<and> SplitHostPort bound = Some (h, port) \<and>
     SplitHostPort (rpc_Addr x) = Some (host, port) \<and> host \<noteq> [] \<and> host \<noteq> ''0.0.0.0'' \<and> host \<noteq> ''::'' \<and>
     (\<forall>g p. SplitHostPort addr = Some (g, p) \<and> g \<noteq> [] \<and> g \<noteq> ''0.0.0.0'' \<and> g \<noteq> ''::'' \<longrightarrow> host = g) \<and> ips_ok cache'"
proof -
  let ?x = "NewRpcServer addr"
  obtain bound h port where b: "listen (rs_listenAddr ?x) = Some bound" "SplitHostPort bound = Some (h, port)"
    using assms(2) by (auto simp: rpc_Start_def split: option.splits prod.splits)
  obtain host c where adv: "advertiseHost ifaces cache ?x = (host, c)" by (cases "advertiseHost ifaces cache ?x")
  have x: "x = ?x\<lparr>rs_addr := JoinHostPort host port, rs_gs := True\<rparr>" "cache' = c"
    using assms(2) by (simp_all add: rpc_Start_def b adv)
  have "SplitHostPort [] = None" by (simp add: SplitHostPort_def last_index_byte_def)
  then have listen: "SplitHostPort addr = Some y \<Longrightarrow> SplitHostPort (rs_listenAddr ?x) = Some y" for y
    by (auto simp: NewRpcServer_def)
  note ok = advertise_ok [OF assms(1) adv]
  have "SplitHostPort (rpc_Addr x) = Some (host, port)"
    using split_join [of host port] ok SplitHostPort_parts [OF b(2)] by (simp add: x rpc_Addr_def)
  then show ?thesis using b ok listen by (intro exI [of _ bound] exI [of _ h] exI [of _ port] exI [of _ host]) (auto simp: x)
qed

theorem advertised_address_dialable_witness:
  "\<exists>x cache'. rpc_Start (\<lambda>_. Some ''[::]:7001'') (Some sample_ifaces) None (NewRpcServer []) = Inr (x, cache') \<and>
     (\<exists>host. SplitHostPort (rpc_Addr x) = Some (host, ''7001'') \<and> host \<noteq> ''::'')"
proof -
  have b: "SplitHostPort ''[::]:7001'' = Some (''::'', ''7001'')" by code_simp
  then obtain x cache' where r: "rpc_Start (\<lambda>_. Some ''[::]:7001'') (Some sample_ifaces) None (NewRpcServer []) = Inr (x, cache')"
    by (cases "advertiseHost (Some sample_ifaces) None (NewRpcServer [])") (simp add: rpc_Start_def)
  have "ips_ok None" by (simp add: ips_ok_def)
  from advertised_address_dialable [OF this r] b r show ?thesis by auto
qed

end
