(* ===== verification/System_Life.thy ===== *)
theory System_Life
  imports System_Send Uuid Net_Addr
begin

section \<open>Life of a node: system_life.go, system_cluster.go\<close>

text \<open>
  Initialisation after the node id was claimed, the reaction to a membership change, and the shutdown: it
  refuses new activations, wakes the waiting asks, stops the actors in two phases, and gives up the etcd
  lease only if every actor has gone. The loop of a phase polls the registry until the deadline; between
  two rounds the node changes as it likes (\<open>env\<close>), and \<open>clock k\<close> is the \<open>k\<close>-th reading of the clock in
  nanoseconds.
\<close>

subsection \<open>Start\<close>

text \<open>
  \<open>system.init\<close>, called by \<open>register\<close> with the claimed id: a panic is \<open>None\<close>. \<open>wall\<close> is the time of day, and
  the generator is the package's.
\<close>

definition system_init :: "u64 \<Rightarrow> int \<Rightarrow> UUID option \<Rightarrow> node \<Rightarrow> (actor_ref \<times> UUID option \<times> node) option" where
  "system_init nodeId wall u x = (case markRunning (nd_config x) of None \<Rightarrow> None | Some conf \<Rightarrow>
     (case uuid_Init nodeId wall u of (u', ok) \<Rightarrow> if \<not> ok then None else
       (case GetAskStartId u' of None \<Rightarrow> None | Some start \<Rightarrow>
         let x = x\<lparr>nd_config := conf, nd_asks := (nd_asks x)\<lparr>as_askId := start\<rparr>\<rparr> in
         (case SpawnNamed 0 eventStreamWatchName [WithOptsKindName defaultSystemKind, WithOptsPoisonFirstOnQuit False] x of
            (Inl e, y) \<Rightarrow> None
          | (Inr ref, y) \<Rightarrow> Some (ref, u', y)))))"

subsection \<open>Membership changes\<close>

definition lost :: "tNodeState list \<Rightarrow> string \<Rightarrow> actor_ref \<Rightarrow> bool" where
  "lost clusterNodes addr self = (\<not> isDirect self \<and>
     (let newAddr = CalcAddrByKind8Name clusterNodes (GetKind self) (GetName self) in newAddr \<noteq> [] \<and> newAddr \<noteq> addr))"

definition clusterMemberChanged :: "node \<Rightarrow> node" where
  "clusterMemberChanged x =
     (let (clusterNodes, version) = GetNodes (rt_provider (nd_routing x)); addr = nd_addr x
      in reg_rangeIt (\<lambda>key v y. if lost clusterNodes addr (proc_self y v) then poison_proc v y else y) (nd_registry x) x)"

subsection \<open>Stopping the actors\<close>






text \<open>
  \<open>WaitStopSignal\<close>: the \<open>select\<close> takes a signal that has arrived or the forced stop that was requested, either
  when both are there (\<open>pick\<close>), and waits for ever without one (\<open>None\<close>). The callbacks are user code on the
  node and on etcd; \<open>beforeQuit\<close> runs on a signal only. Then the actors, the provider and gRPC stop, in this order.
\<close>

datatype stop_cause = BySignal | ByForce

definition stop_select :: "bool \<Rightarrow> bool \<Rightarrow> bool option \<Rightarrow> (stop_cause \<times> bool option) option" where
  "stop_select signalled pick forceCloseChan =
     (if signalled \<and> (pick \<or> forceCloseChan = None) then Some (BySignal, forceCloseChan)
      else if forceCloseChan \<noteq> None then Some (ByForce, None) else None)"




text \<open>\<open>ForceStop\<close> never blocks: the channel holds one request, a second one is dropped.\<close>

definition ForceStop :: "bool option \<Rightarrow> bool option" where
  "ForceStop forceCloseChan = (case forceCloseChan of None \<Rightarrow> Some True | Some b \<Rightarrow> Some b)"

subsection \<open>Asking the registered processors to stop\<close>

text \<open>\<open>flagged P es x z\<close>: of the processors listed in \<open>es\<close>, exactly those with \<open>P\<close> were asked to stop; nothing else changed.\<close>

definition flagged :: "(nat \<Rightarrow> bool) \<Rightarrow> nat set \<Rightarrow> node \<Rightarrow> node \<Rightarrow> bool" where
  "flagged P ps x z \<longleftrightarrow> node_wf z \<and> z = x\<lparr>nd_procs := nd_procs z\<rparr> \<and> length (nd_procs z) = length (nd_procs x) \<and>
     (\<forall>p < length (nd_procs x). pr_opts (nd_procs z ! p) = pr_opts (nd_procs x ! p) \<and> proc_self z p = proc_self x p \<and>
        sh_accepted (pr_state (nd_procs z ! p)) = sh_accepted (pr_state (nd_procs x ! p)) \<and>
        sh_stopRequested (pr_state (nd_procs z ! p)) = (sh_stopRequested (pr_state (nd_procs x ! p)) \<or> (P p \<and> p \<in> ps)))"

lemma poison_proc_flags:
  assumes "p < length (nd_procs x)"
  shows "q < length (nd_procs x) \<Longrightarrow> pr_opts (nd_procs (poison_proc p x) ! q) = pr_opts (nd_procs x ! q) \<and>
      proc_self (poison_proc p x) q = proc_self x q \<and>
      sh_accepted (pr_state (nd_procs (poison_proc p x) ! q)) = sh_accepted (pr_state (nd_procs x ! q)) \<and>
      sh_stopRequested (pr_state (nd_procs (poison_proc p x) ! q)) = (sh_stopRequested (pr_state (nd_procs x ! q)) \<or> p = q)"
    "length (nd_procs (poison_proc p x)) = length (nd_procs x)" "poison_proc p x = x\<lparr>nd_procs := nd_procs (poison_proc p x)\<rparr>"
  using assms by (cases "q = p"; simp add: poison_proc_def proc_self_def proc_poison_def Let_def)+

lemma flagged_step:
  assumes f: "flagged P ps x y" and p: "p < length (nd_procs x)"
  shows "flagged P (insert p ps) x (if P p then poison_proc p y else y)"
proof (cases "P p")
  case True
  have py: "p < length (nd_procs y)" using f p by (simp add: flagged_def)
  note F = poison_proc_flags [OF py]
  have wf: "node_wf (poison_proc p y)" using f py poison_proc_wf by (simp add: flagged_def)
  have "poison_proc p y = x\<lparr>nd_procs := nd_procs (poison_proc p y)\<rparr>" using f F(3) unfolding flagged_def by (metis node.update_convs(6) node.surjective)
  then show ?thesis using True f F(1,2) wf unfolding flagged_def by (simp, blast)
next
  case False
  then show ?thesis using f by (auto simp: flagged_def)
qed

lemma flagged_refl: "node_wf x \<Longrightarrow> flagged P {} x x"
  by (simp add: flagged_def)

definition entries :: "node \<Rightarrow> (string \<times> nat) list" where
  "entries x = cm_IterBuffered (nd_registry x)"

lemma rangeIt_entries: "reg_rangeIt f (nd_registry x) s = fold (\<lambda>(k, v) s. f k v s) (entries x) s"
  by (simp add: reg_rangeIt_def snapshot_entries entries_def)

lemma entries_lookup:
  assumes "node_wf x"
  shows "(k, p) \<in> set (entries x) \<longleftrightarrow> node_lookup x k = Some p"
proof -
  have "cm_wf (nd_registry x)" using assms by (simp add: node_wf_def)
  then show ?thesis using entries_distinct entries_Get
    by (metis entries_def map_of_eq_Some_iff node_lookup_def reg_lookup_def)
qed

lemma entries_in_range: "node_wf x \<Longrightarrow> \<forall>v \<in> snd ` set (entries x). v < length (nd_procs x)"
  using entries_lookup by (fastforce simp: node_wf_def)

lemma fold_flagged:
  assumes "flagged P ps x y" and "\<forall>v \<in> snd ` set es. v < length (nd_procs x)"
    and Q: "\<And>v ps y. v < length (nd_procs x) \<Longrightarrow> flagged P ps x y \<Longrightarrow> Q v y = P v"
  shows "flagged P (ps \<union> snd ` set es) x (fold (\<lambda>(k, v) y. if Q v y then poison_proc v y else y) es y)"
  using assms(1,2)
proof (induction es arbitrary: ps y)
  case (Cons e es)
  obtain k v where e: "e = (k, v)" by (cases e)
  have v: "v < length (nd_procs x)" using Cons.prems(2) e by simp
  have "flagged P (insert v ps) x (if Q v y then poison_proc v y else y)" using flagged_step [OF Cons.prems(1) v] Q [OF v Cons.prems(1)] by simp
  from Cons.IH [OF this] Cons.prems(2) show ?case by (simp add: e)
qed simp






subsection \<open>The loop of a phase\<close>










text \<open>Without a signal and without a request the call waits, and a request is taken once.\<close>

lemma stop_select_cases:
  "stop_select signalled pick chan = None \<longleftrightarrow> \<not> signalled \<and> chan = None"
  "stop_select False pick (ForceStop chan) = Some (ByForce, None)"
  by (auto simp: stop_select_def ForceStop_def split: option.splits)

text \<open>
  C35. A membership change stops exactly the actors the node has lost. After \<open>clusterMemberChanged\<close> a registered
  actor has been asked to stop if it had been before, or if it is a cluster actor whose owner in the
  published membership is another node. Direct actors and actors nobody owns are left alone, no
  registration, mailbox or dead letter changes, and nothing is activated.
\<close>

theorem member_change_stops_lost_actors:
  assumes wf: "node_wf x" and nodes: "GetNodes (rt_provider (nd_routing x)) = (nodes, version)"
  shows "let z = clusterMemberChanged x in node_wf z \<and> z = x\<lparr>nd_procs := nd_procs z\<rparr> \<and> length (nd_procs z) = length (nd_procs x) \<and>
    (\<forall>i p. node_lookup x i = Some p \<longrightarrow>
       sh_stopRequested (pr_state (nd_procs z ! p)) = (sh_stopRequested (pr_state (nd_procs x ! p)) \<or>
         (\<not> isDirect (proc_self x p) \<and>
          CalcAddrByKind8Name nodes (GetKind (proc_self x p)) (GetName (proc_self x p)) \<notin> {[], nd_addr x}))) \<and>
    (\<forall>p < length (nd_procs x). sh_accepted (pr_state (nd_procs z ! p)) = sh_accepted (pr_state (nd_procs x ! p)))"
proof -
  let ?P = "\<lambda>v. lost nodes (nd_addr x) (proc_self x v)"
  have "flagged ?P ({} \<union> snd ` set (entries x)) x
      (fold (\<lambda>(k, v) y. if lost nodes (nd_addr x) (proc_self y v) then poison_proc v y else y) (entries x) x)"
    by (rule fold_flagged [OF flagged_refl [OF wf] entries_in_range [OF wf]]) (simp add: flagged_def)
  then have F: "flagged ?P (snd ` set (entries x)) x (clusterMemberChanged x)"
    using nodes by (simp add: clusterMemberChanged_def rangeIt_entries)
  have "p \<in> snd ` set (entries x) \<and> p < length (nd_procs x)" if "node_lookup x i = Some p" for i p
    using that entries_lookup [OF wf, of i p] wf by (force simp: node_wf_def)
  then show ?thesis using F unfolding flagged_def Let_def lost_def by auto
qed

subsection \<open>Concrete runs\<close>




definition rival_node :: tNodeState where
  "rival_node = zero_state\<lparr>ns_NodeId := 2, ns_Address := ''b'', ns_Kinds := [''player'']\<rparr>"

theorem member_change_stops_lost_actors_witness:
  "let t = newClusterActorRef ''player'' ''p1'' 0 7;
       x = snd (ensureClusterKindActorExist t (new_node 0 ''a'' player_conf [(''2'', rival_node)])); z = clusterMemberChanged x
   in node_lookup x (GetId t) = Some 0 \<and> \<not> sh_stopRequested (pr_state (nd_procs x ! 0)) \<and>
      node_wf z \<and> sh_stopRequested (pr_state (nd_procs z ! 0))"
proof -
  let ?x0 = "new_node 0 ''a'' player_conf [(''2'', rival_node)]" and ?t = "newClusterActorRef ''player'' ''p1'' 0 7"
  let ?kind = "\<lparr>tk_producer = 1, tk_opts = []\<rparr>"
  have t: "GetKind ?t = ''player''" "isCluster ?t" using cluster_ref_parts [of "''player''" "''p1''" 0 7] by simp_all
  have d: "\<not> nd_draining ?x0" and k: "map_of (cf_kinds (nd_config ?x0)) (GetKind ?t) = Some ?kind" and p: "nd_procs ?x0 = []"
    by (simp_all add: new_node_def player_conf_def t(1))
  obtain x sh where x: "ensureClusterKindActorExist ?t ?x0 = (True, x)" "node_lookup x (GetId ?t) = Some 0" "nd_routing x = nd_routing ?x0"
      "nd_addr x = nd_addr ?x0" and sh: "pr_state (nd_procs x ! 0) = sh" "sh_self sh = ?t" "\<not> sh_stopRequested sh"
    using ensure_new [OF player_wf new_node_lookup d k refl] p by (metis append_Nil list.size(3) nth_Cons_0 process.select_convs(2))
  have wf: "node_wf x" using ensure_spec [of ?x0 ?t, OF player_wf] x(1) by (metis prod.inject)
  have g: "GetNodes (rt_provider (nd_routing x)) = ([rival_node], 1)"
    by (simp add: x(3) new_node_def GetNodes_def publishNodesLocked_def fresh_provider_def)
  have "candidates [rival_node] ''player'' = {''b''}" by (auto simp: candidates_def rival_node_def)
  then have own: "CalcAddrByKind8Name [rival_node] ''player'' (GetName ?t) = ''b''"
    using CalcAddr_owns [of "[rival_node]" "''player''" "GetName ?t"] by (simp add: owns_def)
  have addr: "nd_addr x = ''a''" by (simp add: x(4) new_node_def)
  show ?thesis
    using member_change_stops_lost_actors [OF wf g] x(1,2) sh own addr t cluster_not_direct [OF t(2)]
    by (simp add: Let_def proc_self_def)
qed

text \<open>
  On a node that does not run yet, \<open>init\<close> with an id the generator accepts succeeds: the node is marked as
  running, its serial numbers start in the range of its id, and the event stream actor is registered
  under its fixed name. A second \<open>init\<close> panics.
\<close>

lemma system_init_succeeds:
  assumes wf: "node_wf x" and run: "cf_running (nd_config x) = 0" and i: "nodeId \<le> nodeMax"
    and free: "node_lookup x (defaultActDirect @ ''/'' @ defaultSystemKind @ ''/'' @ eventStreamWatchName @ ''@'' @ nd_addr x) = None"
  shows "\<exists>ref u' y. system_init nodeId wall u x = Some (ref, u', y) \<and> node_wf y \<and> node_lookup y (GetId ref) \<noteq> None \<and>
    nd_config y = (nd_config x)\<lparr>cf_running := 1\<rparr> \<and> nd_addr y = nd_addr x \<and> GetAskStartId u' \<noteq> None \<and>
    (\<forall>n w v. system_init n w v y = None)"
proof -
  obtain n where n: "NewUUID nodeId wall = Some n" using i by (simp add: NewUUID_def not_less [symmetric])
  obtain start where start: "GetAskStartId (Some n) = Some start" by (simp add: GetAskStartId_def)
  let ?conf = "(nd_config x)\<lparr>cf_running := 1\<rparr>" and ?os = "[WithOptsKindName defaultSystemKind, WithOptsPoisonFirstOnQuit False]"
  let ?x = "x\<lparr>nd_config := ?conf, nd_asks := (nd_asks x)\<lparr>as_askId := start\<rparr>\<rparr>" let ?x1 = "?x\<lparr>nd_nextPtr := nd_nextPtr x + 1\<rparr>"
  let ?o = "newOpts 0 (?os @ [withOptsDirectSelf eventStreamWatchName (nd_addr x) (nd_self x) (nd_nextPtr x)])"
  let ?self = "newDirectActorRef defaultSystemKind eventStreamWatchName (nd_addr x) (nd_self x) (nd_nextPtr x)"
  have k: "kinds_ok ?conf" using wf by (simp add: node_wf_def kinds_ok_def)
  have wx: "node_wf ?x1" using wf k by (simp add: node_wf_def node_lookup_def proc_self_def)
  have o: "op_self ?o = Some ?self" "sizes_ok ?o"
    by (simp_all add: newOpts_def WithOptsKindName_def WithOptsPoisonFirstOnQuit_def withOptsDirectSelf_def Let_def sizes_ok_def
        defaultMailboxInitSize_def defaultMailboxMaxSize_def)
  obtain p y where y: "getOrSpawn ?o ?x1 = (p, y)" "node_wf y" "grown ?x1 y" "node_lookup y (GetId ?self) = Some p"
    using getOrSpawn_spec [OF wx o] by blast
  have nl: "node_lookup ?x1 (GetId ?self) = None" using free by (simp add: node_lookup_def newDirectActorRef_def Let_def)
  have v: "ValidateActorName eventStreamWatchName = None" by (simp add: ValidateActorName_ok name_constants)
  have sp: "SpawnNamed 0 eventStreamWatchName ?os ?x = (Inr (proc_self y p), y)"
    using v o(1) nl y(1) by (simp add: SpawnNamed_def Let_def)
  have id: "GetId (proc_self y p) = GetId ?self" using y(2,4) by (simp add: node_wf_def)
  have conf: "nd_config y = ?conf" "nd_addr y = nd_addr x" using y(3) by (simp_all add: grown_def)
  have "system_init nodeId wall u x = Some (proc_self y p, Some n, y)"
    using run n start sp by (simp add: system_init_def markRunning_def uuid_Init_def Let_def)
  moreover have "\<forall>n w v. system_init n w v y = None" using conf by (simp add: system_init_def markRunning_def)
  ultimately show ?thesis using y(2,4) id conf start by auto
qed

end
