(* ===== verification/System_Start.thy ===== *)
theory System_Start
  imports System_Life Net_Addr
begin

section \<open>Bringing a node up: NewSystem, Start and Spawn of system.go and system_life.go\<close>

text \<open>
  \<open>Start\<close> puts the parts together: the gRPC server binds its port and fixes the address, the provider joins
  the cluster under that address and claims an id, \<open>init\<close> is called with the id. A panic is \<open>None\<close>. \<open>register\<close> calls \<open>init\<close>
  from inside the provider's \<open>start\<close>, right after the claim and before the member watch is started; the
  provider records the call in \<open>pv_initialised\<close>, and its effect on the node is applied here, after
  the provider has returned.
\<close>

definition NewSystem :: "nat \<Rightarrow> string \<Rightarrow> string \<Rightarrow> string list \<Rightarrow> ConfigOptFunc list \<Rightarrow> node option" where
  "NewSystem self clusterName version clusterUrls opts = (case newConfig clusterName version clusterUrls opts of None \<Rightarrow> None
     | Some conf \<Rightarrow> Some \<lparr>nd_self = self, nd_addr = [], nd_config = conf, nd_draining = False,
         nd_registry = newRegistry stringFnv32, nd_procs = [], nd_asks = new_table 0,
         nd_routing = \<lparr>rt_self = self, rt_addr = [], rt_provider = fresh_provider conf, rt_gens = [], rt_current = None,
           rt_cache = (\<lambda>_. None), rt_nextPtr = 0, rt_hist = {}\<rparr>,
         nd_nextPtr = 0, nd_deadLetters = [], nd_foreign = [], nd_panic = False\<rparr>)"

text \<open>\<open>rt_hist\<close> records what the provider has published.\<close>

definition set_addr :: "string \<Rightarrow> node \<Rightarrow> node" where
  "set_addr addr x = x\<lparr>nd_addr := addr, nd_routing := (nd_routing x)\<lparr>rt_addr := addr\<rparr>\<rparr>"

definition set_provider :: "provider \<Rightarrow> node \<Rightarrow> node" where
  "set_provider pv x = x\<lparr>nd_config := pv_config pv, nd_routing := (nd_routing x)\<lparr>rt_provider := pv,
     rt_hist := (case pv_nodes pv of None \<Rightarrow> rt_hist (nd_routing x) | Some p \<Rightarrow> insert p (rt_hist (nd_routing x)))\<rparr>\<rparr>"

definition sys_Start ::
  "(string \<Rightarrow> string option) \<Rightarrow> iface list option \<Rightarrow> ip list option \<Rightarrow>
   'e etcd_client \<Rightarrow> (tNodeState \<Rightarrow> string) \<Rightarrow> (string \<Rightarrow> tNodeState option) \<Rightarrow> (nat \<Rightarrow> nat \<Rightarrow> nat) \<Rightarrow> (nat \<Rightarrow> string) \<Rightarrow>
   int \<Rightarrow> UUID option \<Rightarrow> node \<Rightarrow> 'e \<Rightarrow> (actor_ref \<times> UUID option \<times> node \<times> 'e) option" where
  "sys_Start listen ifaces ips c marshal unmarshal rnd clock wall u x e =
     (case rpc_Start listen ifaces ips (NewRpcServer (cf_grpcListenAddr (nd_config x))) of Inl err \<Rightarrow> None
      | Inr (rpc, ips') \<Rightarrow>
         let x = set_addr (rpc_Addr rpc) x in
         (case start_provider c marshal unmarshal rnd clock (nd_addr x) (nd_config x) (rt_provider (nd_routing x)) e of
            (False, pv, e') \<Rightarrow> None
          | (True, pv, e') \<Rightarrow>
             (case pv_initialised pv of None \<Rightarrow> None
              | Some i \<Rightarrow> map_option (\<lambda>(ref, u', y). (ref, u', y, e')) (system_init i wall u (set_provider pv x)))))"

text \<open>\<open>Spawn\<close>: a generated name. A panic is \<open>None\<close>, a clock that stands still \<open>Some None\<close>.\<close>

definition sys_Spawn ::
  "(nat \<Rightarrow> int) \<Rightarrow> nat \<Rightarrow> KindOptFunc list \<Rightarrow> UUID option \<Rightarrow> nat \<Rightarrow> node \<Rightarrow> (actor_ref \<times> UUID \<times> nat \<times> node) option option" where
  "sys_Spawn since producer opts u k x = (case global_Generate since u k of None \<Rightarrow> None
     | Some None \<Rightarrow> Some None
     | Some (Some (i, n, k')) \<Rightarrow> (case SpawnNamed producer (FormatUint i) opts x of
          (Inl err, y) \<Rightarrow> None
        | (Inr ref, y) \<Rightarrow> Some (Some (ref, n, k', y))))"

subsection \<open>What the provider has done when it starts\<close>

lemma loadMembers_distinct:
  assumes "loadMembers c um x e = (r, x', e')" "distinct (map fst (pv_nodeMap x))"
  shows "distinct (map fst (pv_nodeMap x'))"
proof -
  consider "x' = x" | kvs where "x' = load_all um kvs x"
    using assms(1) by (auto simp: loadMembers_def split: prod.splits option.splits)
  then show ?thesis using assms(2) load_all_published published_distinct by cases blast+
qed

definition same_setup :: "config \<Rightarrow> config \<Rightarrow> bool" where
  "same_setup a b \<longleftrightarrow> a\<lparr>cf_state := cf_state b\<rparr> = b"

lemma same_setupD:
  assumes "same_setup a b"
  shows "cf_kinds b = cf_kinds a" "cf_running b = cf_running a" "config_wf a \<Longrightarrow> config_wf b"
proof -
  have b: "b = a\<lparr>cf_state := cf_state b\<rparr>" using assms by (simp add: same_setup_def)
  show "cf_kinds b = cf_kinds a" "cf_running b = cf_running a" "config_wf a \<Longrightarrow> config_wf b"
    by (subst b, simp add: config_wf_def getKinds_def)+
qed

lemma same_setup_trans: "same_setup a b \<Longrightarrow> same_setup b c \<Longrightarrow> same_setup a c"
  by (cases a, cases b, cases c) (simp add: same_setup_def)

lemma register_loop_published:
  "register_loop c marshal um rnd clock addr left x e = (Registered i, x', e') \<Longrightarrow> distinct (map fst (pv_nodeMap x)) \<Longrightarrow>
     published x' \<and> same_setup (pv_config x) (pv_config x') \<and> pv_version x' < 2 ^ 63"
proof (induction left arbitrary: x e)
  case (Suc left)
  let ?rd = "registerRounds - Suc left" and ?free = "freeNodeIds x"
  let ?i = "?free ! rnd ?rd (length ?free)"
  let ?key = "getMemberPath (pv_config x) ?i"
  obtain st cf where sc: "config_init (clock ?rd) addr ?i (pv_config x) = (st, cf)" by fastforce
  obtain ok e1 where t: "setTxn c (pv_leaseId x) ?key (marshal st) e = (ok, e1)" by fastforce
  have free: "?free \<noteq> []" using Suc.prems(1) by (auto simp: Let_def)
  have cf: "same_setup (pv_config x) cf" using sc by (auto simp: config_init_def Let_def same_setup_def)
  let ?x = "x\<lparr>pv_config := cf\<rparr>"
  have d: "distinct (map fst (pv_nodeMap ?x))" using Suc.prems(2) by simp
  show ?case
  proof (cases ok)
    case True
    let ?y = "parseWatch um MPut ?key (marshal st) ?x"
    have x': "x' = ?y\<lparr>pv_initialised := Some ?i\<rparr>" using Suc.prems(1) free sc t True by (auto simp: Let_def)
    have "pv_config ?y = cf"
      using applyMember_frame [of um MPut ?key "marshal st" ?x] by (auto simp: parseWatch_def publishNodesLocked_def)
    moreover have "pv_version ?y < 2 ^ 63"
      using wrap_int64_range [of "pv_version x + 1"]
      by (simp add: parseWatch_def publishNodesLocked_def applyMemberLocked_def Let_def split: option.split)
    moreover have "published ?y" using d by (rule parseWatch_published)
    ultimately show ?thesis using cf by (simp add: x' published_def)
  next
    case False
    obtain rr x2 e2 where l: "loadMembers c um ?x e1 = (rr, x2, e2)" by (metis prod_cases3)
    then have r: "register_loop c marshal um rnd clock addr left x2 e2 = (Registered i, x', e')"
      using Suc.prems(1) free sc t False by (cases rr) (simp_all add: Let_def)
    have "pv_config x2 = cf" using loadMembers_frame [OF l] by auto
    then show ?thesis using Suc.IH [OF r loadMembers_distinct [OF l d]] same_setup_trans [OF cf] by simp
  qed
qed simp

lemma start_provider_ok:
  assumes c: "etcd_ok view c" and rnd: "\<And>rd n. 0 < n \<Longrightarrow> rnd rd n < n"
    and s: "start_provider c marshal um rnd clock addr conf x e = (True, pv, e')"
  shows "\<exists>i lease. claimed view marshal um conf lease addr i pv e' \<and> published pv \<and> same_setup conf (pv_config pv) \<and> pv_version pv < 2 ^ 63"
proof -
  let ?x0 = "publishNodesLocked (x\<lparr>pv_config := conf, pv_version := 1, pv_nodeMap := []\<rparr>)"
  obtain e1 e2 e3 lease where n: "ec_New c (cf_clusterUrls conf) (cf_etcdDialTimeout conf) e = (True, e1)"
      "ec_Grant c (cf_etcdLeaseTTLSecond conf) e1 = (Some lease, e2)" "ec_KeepAlive c lease e2 = (True, e3)"
    using s by (auto simp: start_provider_def Let_def split: prod.splits bool.splits option.splits)
  let ?x1 = "?x0\<lparr>pv_client := True, pv_leaseId := lease, pv_keepAlive := True\<rparr>"
  obtain rr x2 e4 where l: "loadMembers c um ?x1 e3 = (rr, x2, e4)" by (metis prod_cases3)
  obtain r x3 e5 where p: "provider_register c marshal um rnd clock addr x2 e4 = (r, x3, e5)" by (metis prod_cases3)
  obtain i revn where r: "r = Registered i" "pv = x3\<lparr>pv_watchFrom := Some (revn + 1)\<rparr>" "e5 = e'"
    using s n l p by (auto simp: start_provider_def Let_def split: option.splits register_result.splits prod.splits)
  have x2: "pv_config x2 = conf" "pv_leaseId x2 = lease"
    using loadMembers_frame [OF l] by (auto simp: publishNodesLocked_def)
  have d: "distinct (map fst (pv_nodeMap x2))"
    by (rule loadMembers_distinct [OF l]) (simp add: publishNodesLocked_def)
  note loop = p [unfolded provider_register_def r(1)]
  have "claimed view marshal um conf lease addr i x3 e5"
    using register_loop_claims [OF c rnd loop, where conf = conf] x2 by simp
  then have "claimed view marshal um conf lease addr i pv e'" by (simp add: claimed_def r(2,3) GetNodeId_def Let_def)
  moreover have "published pv \<and> same_setup conf (pv_config pv) \<and> pv_version pv < 2 ^ 63"
    using register_loop_published [OF loop d] x2 by (simp add: r(2) published_def)
  ultimately show ?thesis by blast
qed

lemma NewSystem_parts:
  assumes "NewSystem self cn ver urls opts = Some x"
  shows "newConfig cn ver urls opts = Some (nd_config x)" and "node_lookup x i = None"
    and "rt_provider (nd_routing x) = fresh_provider (nd_config x)"
proof -
  obtain conf where c: "newConfig cn ver urls opts = Some conf" using assms by (auto simp: NewSystem_def split: option.splits)
  then show "newConfig cn ver urls opts = Some (nd_config x)" "rt_provider (nd_routing x) = fresh_provider (nd_config x)"
    using assms by (auto simp: NewSystem_def)
  show "node_lookup x i = None"
    using assms c by (auto simp: NewSystem_def node_lookup_def reg_lookup_def newRegistry_def cm_create_wf)
qed

lemma joined_wf:
  assumes x: "NewSystem self cn ver urls opts = Some x" and k: "kinds_ok (nd_config x)"
    and pv: "published pv" "same_setup (nd_config x) (pv_config pv)" "0 \<le> pv_version pv" "pv_version pv < 2 ^ 63"
  shows "node_wf (set_provider pv (set_addr a x))"
proof -
  have "node_lookup (set_provider pv (set_addr a x)) i = None" for i
    using NewSystem_parts(2) [OF x, of i] by (simp add: node_lookup_def set_provider_def set_addr_def)
  moreover have "kinds_ok (pv_config pv)" using k same_setupD(1) [OF pv(2)] by (simp add: kinds_ok_def)
  ultimately show ?thesis using x pv
    by (auto simp: node_wf_def set_provider_def set_addr_def NewSystem_def newRegistry_def cm_create_wf new_table_def NewIntC_def
        inv_gens_def inv_published_def inv_cache_def published_def split: option.splits)
qed


lemma NewSystem_config:
  assumes "NewSystem self cn ver urls opts = Some x" and "\<forall>f \<in> set opts. config_option f"
  shows "config_wf (nd_config x) \<and> cf_running (nd_config x) = 0"
  using apply_options_keeps [OF _ assms(2) default_config_wf] NewSystem_parts(1) [OF assms(1)]
  by (simp add: newConfig_def default_config_def)

lemma no_second_start:
  assumes c: "etcd_ok view c" and rnd: "\<And>rd n. 0 < n \<Longrightarrow> rnd rd n < n" and run: "cf_running (nd_config x) = 1"
  shows "sys_Start listen ifaces ips c marshal um rnd clock wall u x e = None"
proof (rule ccontr)
  assume "\<not> ?thesis"
  then obtain rpc ips' pv e' i where s: "start_provider c marshal um rnd clock (rpc_Addr rpc) (nd_config x) (rt_provider (nd_routing x)) e = (True, pv, e')"
      and i: "system_init i wall u (set_provider pv (set_addr (rpc_Addr rpc) x)) \<noteq> None"
    by (auto simp: sys_Start_def Let_def set_addr_def split: sum.splits prod.splits bool.splits option.splits)
  have "same_setup (nd_config x) (pv_config pv)" using start_provider_ok [OF c rnd s] by blast
  then have "cf_running (pv_config pv) = 1" using same_setupD(2) run by simp
  then show False using i by (simp add: system_init_def set_provider_def markRunning_def)
qed

text \<open>
  C13. A node comes up whole: when the port is bound and the provider has joined the cluster, \<open>Start\<close> does not
  panic. The node is then well-formed and runs under a sound configuration, its event stream actor
  is registered, its member key is in etcd under its lease and names the address that the node uses and
  the id it has claimed, and it cannot be started a second time.
\<close>
theorem node_comes_up:
  assumes c: "etcd_ok view c" and rnd: "\<forall>rd n. 0 < n \<longrightarrow> rnd rd n < n"
    and x: "NewSystem self cn ver urls opts = Some x" and opts: "\<forall>f \<in> set opts. config_option f" and k: "kinds_ok (nd_config x)"
    and rpc: "rpc_Start listen ifaces ips (NewRpcServer (cf_grpcListenAddr (nd_config x))) = Inr (rpc, ips')"
    and pv: "start_provider c marshal um rnd clock (rpc_Addr rpc) (nd_config x) (fresh_provider (nd_config x)) e = (True, pv, e')"
    and version: "0 \<le> pv_version pv"
  shows "\<exists>ref u' x' i. sys_Start listen ifaces ips c marshal um rnd clock wall u x e = Some (ref, u', x', e') \<and>
    node_wf x' \<and> config_wf (nd_config x') \<and> node_lookup x' (GetId ref) \<noteq> None \<and> nd_addr x' = rpc_Addr rpc \<and>
    1 \<le> i \<and> i \<le> nodeMax \<and> ns_NodeId (cf_state (nd_config x')) = i \<and> ns_Address (cf_state (nd_config x')) = nd_addr x' \<and>
    view e' (getMemberPath (nd_config x) i) = Some (marshal (cf_state (nd_config x')), pv_leaseId pv) \<and>
    sys_Start listen ifaces ips c marshal um rnd clock wall u' x' e' = None"
proof -
  let ?y = "set_provider pv (set_addr (rpc_Addr rpc) x)"
  obtain i lease where cl: "claimed view marshal um (nd_config x) lease (rpc_Addr rpc) i pv e'" "published pv"
      "same_setup (nd_config x) (pv_config pv)" "pv_version pv < 2 ^ 63"
    using start_provider_ok [OF c _ pv] rnd by blast
  have wf: "node_wf ?y" by (rule joined_wf [OF x k cl(2,3) version cl(4)])
  have run: "cf_running (nd_config ?y) = 0" using NewSystem_config [OF x opts] same_setupD(2) [OF cl(3)] by (simp add: set_provider_def)
  have i: "i \<le> nodeMax" "pv_initialised pv = Some i" using cl(1) by (simp_all add: claimed_def)
  have free: "node_lookup ?y j = None" for j using NewSystem_parts(2) [OF x, of j] by (simp add: node_lookup_def set_provider_def set_addr_def)
  obtain ref u' x' where init: "system_init i wall u ?y = Some (ref, u', x')" "node_wf x'" "node_lookup x' (GetId ref) \<noteq> None"
      "nd_config x' = (nd_config ?y)\<lparr>cf_running := 1\<rparr>" "nd_addr x' = nd_addr ?y" "\<forall>n w v. system_init n w v x' = None"
    using system_init_succeeds [OF wf run i(1) free] by blast
  have start: "sys_Start listen ifaces ips c marshal um rnd clock wall u x e = Some (ref, u', x', e')"
    using rpc pv NewSystem_parts(3) [OF x] i(2) init(1) by (simp add: sys_Start_def set_addr_def)
  have conf: "nd_config x' = (pv_config pv)\<lparr>cf_running := 1\<rparr>" "nd_addr x' = rpc_Addr rpc"
    using init(4,5) by (simp_all add: set_provider_def set_addr_def)
  obtain now e0 where st: "cf_state (pv_config pv) = fst (config_init now (rpc_Addr rpc) i (nd_config x))" "pv_leaseId pv = lease"
      "view e' = (view e0)(getMemberPath (nd_config x) i \<mapsto> (marshal (cf_state (pv_config pv)), lease))"
    using cl(1) by (auto simp: claimed_def Let_def)
  have "config_wf (nd_config x')" using NewSystem_config [OF x opts] same_setupD(3) [OF cl(3)] by (simp add: conf config_wf_def getKinds_def)
  moreover have "1 \<le> i" "ns_NodeId (cf_state (nd_config x')) = i" "ns_Address (cf_state (nd_config x')) = nd_addr x'"
      "view e' (getMemberPath (nd_config x) i) = Some (marshal (cf_state (nd_config x')), pv_leaseId pv)"
    using cl(1) st by (simp_all add: claimed_def conf) (simp_all add: config_init_def Let_def)
  moreover have "cf_running (nd_config x') = 1" by (simp add: conf)
  ultimately show ?thesis
    using start init(2,3) i(1) conf(2) no_second_start [OF c, of rnd x' listen] rnd by blast
qed

theorem node_comes_up_witness:
  "\<exists>x ref u' x' e'. NewSystem 0 ''c'' ''v'' [] [WithConfigGrpcListenAddr ''h:7''] = Some x \<and>
     sys_Start (\<lambda>a. Some a) None None store_client (\<lambda>_. ''S'') (\<lambda>_. None) (\<lambda>_ _. 0) (\<lambda>_. []) 0 None x Map.empty = Some (ref, u', x', e') \<and>
     node_wf x' \<and> nd_addr x' = ''h:7''"
proof -
  let ?os = "[WithConfigGrpcListenAddr ''h:7'']" and ?m = "\<lambda>_ :: tNodeState. ''S''" and ?um = "\<lambda>_ :: string. None :: tNodeState option"
  obtain x where x: "NewSystem 0 ''c'' ''v'' [] ?os = Some x" "cf_grpcListenAddr (nd_config x) = ''h:7''" "cf_kinds (nd_config x) = []"
    by (simp add: NewSystem_def newConfig_def WithConfigGrpcListenAddr_def default_config_def)
  have split: "SplitHostPort ''h:7'' = Some (''h'', ''7'')" by code_simp
  have "JoinHostPort ''h'' ''7'' = ''h:7''" by code_simp
  then obtain rpc where rpc: "rpc_Start (\<lambda>a. Some a) None None (NewRpcServer (cf_grpcListenAddr (nd_config x))) = Inr (rpc, None)" "rpc_Addr rpc = ''h:7''"
    using split by (simp add: x(2) rpc_Start_def NewRpcServer_def advertiseHost_def rpc_Addr_def GetTopInnerIP_def innerIPs_def enumerateInnerIPs_def Let_def)
  obtain ok pv e' where s: "start_provider store_client ?m ?um (\<lambda>_ _. 0) (\<lambda>_. []) (rpc_Addr rpc) (nd_config x) (fresh_provider (nd_config x)) Map.empty = (ok, pv, e')"
    by (metis prod_cases3)
  have free: "freeNodeIds y \<noteq> []" if "pv_nodeMap y = []" for y using that by (simp add: freeNodeIds_def MaxNodeMax_def nodeMax_val)
  have ok: "ok" "0 \<le> pv_version pv"
    using s free
    by (auto simp: start_provider_def provider_register_def registerRounds_def numeral_eq_Suc Let_def setTxn_def store_client_def config_init_def
        loadMembers_def load_all_def publishNodesLocked_def parseWatch_def applyMemberLocked_def wrap_int64_def)
  have opts: "\<forall>f \<in> set ?os. config_option f" by (simp add: config_option.intros)
  have k: "kinds_ok (nd_config x)" by (simp add: kinds_ok_def x(3))
  have rnd: "\<forall>rd n. 0 < n \<longrightarrow> (0 :: nat) < n" by simp
  have s': "start_provider store_client ?m ?um (\<lambda>_ _. 0) (\<lambda>_. []) (rpc_Addr rpc) (nd_config x) (fresh_provider (nd_config x)) Map.empty = (True, pv, e')"
    using s ok(1) by simp
  from node_comes_up [OF store_client_ok rnd x(1) opts k rpc(1) s' ok(2), of 0 None] rpc(2) x(1) show ?thesis by auto
qed

text \<open>\<open>Spawn\<close> succeeds under every generated id whose name is free on the node, and registers the actor.\<close>

lemma Spawn_registers:
  assumes wf: "node_wf x" and g: "global_Generate since u k = Some (Some (i, n, k'))"
    and o: "op_self (newOpts producer (opts @ [withOptsDirectSelf (FormatUint i) (nd_addr x) (nd_self x) (nd_nextPtr x)])) = Some self"
      "sizes_ok (newOpts producer (opts @ [withOptsDirectSelf (FormatUint i) (nd_addr x) (nd_self x) (nd_nextPtr x)]))"
    and free: "node_lookup x (GetId self) = None"
  shows "\<exists>ref y. sys_Spawn since producer opts u k x = Some (Some (ref, n, k', y)) \<and> node_wf y \<and> node_lookup y (GetId ref) \<noteq> None"
proof -
  let ?x = "x\<lparr>nd_nextPtr := nd_nextPtr x + 1\<rparr>"
  have "node_wf ?x" using wf by (simp add: node_wf_def node_lookup_def proc_self_def)
  then obtain p y where y: "getOrSpawn (newOpts producer (opts @ [withOptsDirectSelf (FormatUint i) (nd_addr x) (nd_self x) (nd_nextPtr x)])) ?x = (p, y)"
      "node_wf y" "node_lookup y (GetId self) = Some p"
    using getOrSpawn_spec [OF _ o] by blast
  have "slash \<notin> set (FormatUint i)" "at_sign \<notin> set (FormatUint i)" by (auto intro!: FormatUint_notin)
  then have v: "ValidateActorName (FormatUint i) = None" by (simp add: ValidateActorName_ok)
  have nl: "node_lookup ?x (GetId self) = None" using free by (simp add: node_lookup_def)
  have "GetId (proc_self y p) = GetId self" using y(2,3) by (simp add: node_wf_def)
  then show ?thesis using y v nl o(1) g by (simp add: sys_Spawn_def SpawnNamed_def Let_def)
qed

end
