(* ===== verification/Map_Snapshot.thy ===== *)
theory Map_Snapshot
  imports Safe_Map
begin

section \<open>Iterating a map that others change: snapshot and fanIn\<close>

text \<open>
  \<open>IterBuffered\<close> of \<open>al/safemap\<close> with its goroutines, while other goroutines use the map. \<open>snapshot\<close>
  starts one goroutine per shard; it takes the shard's read lock, makes a channel as large as the
  shard, reports to a wait group, sends the entries, unlocks and closes the channel. \<open>IterBuffered\<close>
  goes on as soon as every channel is sized and starts \<open>fanIn\<close>, whose goroutines move the entries of
  every channel into one output channel as large as all of them together, and which closes that one at
  the end. The caller ranges over the output: \<open>Items\<close> and \<open>MarshalJSON\<close> collect the entries, \<open>Clear\<close>
  removes each key it receives, under the write lock of the shard.

  A goroutine takes one step at a time, in any order with the others. What another goroutine does to
  one key is one step under the lock of the key's shard: a write waits until no goroutine of
  \<open>snapshot\<close> holds the read lock of that shard. The order in which Go ranges over a map is arbitrary:
  the sending goroutine picks any entry of the shard it has not sent. A channel is its buffer, its
  capacity and whether it is closed.
\<close>

subsection \<open>State\<close>

record ('k, 'v) tuple_chan =
  ch_buf :: "('k \<times> 'v) list"
  ch_cap :: nat
  ch_closed :: bool

definition make_chan :: "nat \<Rightarrow> ('k, 'v) tuple_chan" where
  "make_chan n = \<lparr>ch_buf = [], ch_cap = n, ch_closed = False\<rparr>"

text \<open>
  A goroutine of \<open>snapshot\<close> is before \<open>RLock\<close>, inside the loop with the entries it has sent, past
  \<open>RUnlock\<close>, or done; one of \<open>fanIn\<close> receives, holds an entry it sends, or is done; the caller
  receives, removes the key it received (\<open>Clear\<close>), or has left its loop.
\<close>

datatype ('k, 'v) snap_pc = SLock | SSend "('k \<times> 'v) list" | SClose | SDone
datatype ('k, 'v) fan_pc = FRecv | FSend "'k \<times> 'v" | FDone
datatype 'k range_pc = CRecv | CRemove 'k | CEnd

record ('k, 'v) iter_state =
  it_map :: "('k, 'v) concurrent_map"
  it_clear :: bool
  it_snap :: "('k, 'v) snap_pc list"
  it_chs :: "('k, 'v) tuple_chan option list"
  it_wg :: nat
  it_out :: "('k, 'v) tuple_chan option"
  it_fan :: "('k, 'v) fan_pc list"
  it_fan_wg :: nat
  it_got :: "('k \<times> 'v) list"
  it_range :: "'k range_pc"

text \<open>The call of \<open>snapshot\<close>, which panics on a map that was never created.\<close>

definition snapshot_start :: "bool \<Rightarrow> ('k, 'v) concurrent_map \<Rightarrow> ('k, 'v) iter_state option" where
  "snapshot_start clear m = (if cm_shards m = [] then None
     else Some \<lparr>it_map = m, it_clear = clear,
       it_snap = replicate (length (cm_shards m)) SLock, it_chs = replicate ShardCount None,
       it_wg = ShardCount, it_out = None, it_fan = replicate ShardCount FRecv,
       it_fan_wg = ShardCount, it_got = [], it_range = CRecv\<rparr>)"

definition read_locked :: "('k, 'v) iter_state \<Rightarrow> nat \<Rightarrow> bool" where
  "read_locked s i = (case it_snap s ! i of SSend _ \<Rightarrow> True | _ \<Rightarrow> False)"

definition total_cap :: "('k, 'v) tuple_chan option list \<Rightarrow> nat" where
  "total_cap chs = sum_list (map (\<lambda>c. case c of None \<Rightarrow> 0 | Some ch \<Rightarrow> ch_cap ch) chs)"

subsection \<open>The goroutines\<close>

inductive snap_step :: "nat \<Rightarrow> ('k, 'v) iter_state \<Rightarrow> ('k, 'v) iter_state \<Rightarrow> bool" where
  snap_lock: "i < length (it_snap s) \<Longrightarrow> it_snap s ! i = SLock \<Longrightarrow>
    snap_step i s (s\<lparr>it_snap := (it_snap s)[i := SSend []],
      it_chs := (it_chs s)[i := Some (make_chan (length (cm_shards (it_map s) ! i)))],
      it_wg := it_wg s - 1\<rparr>)"
| snap_send: "i < length (it_snap s) \<Longrightarrow> it_snap s ! i = SSend sent \<Longrightarrow>
    e \<in> set (cm_shards (it_map s) ! i) \<Longrightarrow> e \<notin> set sent \<Longrightarrow>
    it_chs s ! i = Some ch \<Longrightarrow> length (ch_buf ch) < ch_cap ch \<Longrightarrow>
    snap_step i s (s\<lparr>it_snap := (it_snap s)[i := SSend (sent @ [e])],
      it_chs := (it_chs s)[i := Some (ch\<lparr>ch_buf := ch_buf ch @ [e]\<rparr>)]\<rparr>)"
| snap_unlock: "i < length (it_snap s) \<Longrightarrow> it_snap s ! i = SSend sent \<Longrightarrow>
    set (cm_shards (it_map s) ! i) \<subseteq> set sent \<Longrightarrow>
    snap_step i s (s\<lparr>it_snap := (it_snap s)[i := SClose]\<rparr>)"
| snap_close: "i < length (it_snap s) \<Longrightarrow> it_snap s ! i = SClose \<Longrightarrow> it_chs s ! i = Some ch \<Longrightarrow>
    snap_step i s (s\<lparr>it_snap := (it_snap s)[i := SDone],
      it_chs := (it_chs s)[i := Some (ch\<lparr>ch_closed := True\<rparr>)]\<rparr>)"

text \<open>\<open>wg.Wait\<close> in \<open>snapshot\<close>, then the output channel and \<open>go fanIn\<close> in \<open>IterBuffered\<close>.\<close>

inductive iter_return :: "('k, 'v) iter_state \<Rightarrow> ('k, 'v) iter_state \<Rightarrow> bool" where
  iter_returns: "it_out s = None \<Longrightarrow> it_wg s = 0 \<Longrightarrow>
    iter_return s (s\<lparr>it_out := Some (make_chan (total_cap (it_chs s)))\<rparr>)"

inductive fan_step :: "nat \<Rightarrow> ('k, 'v) iter_state \<Rightarrow> ('k, 'v) iter_state \<Rightarrow> bool" where
  fan_recv: "i < length (it_fan s) \<Longrightarrow> it_fan s ! i = FRecv \<Longrightarrow> it_out s = Some out \<Longrightarrow>
    it_chs s ! i = Some ch \<Longrightarrow> ch_buf ch = e # es \<Longrightarrow>
    fan_step i s (s\<lparr>it_fan := (it_fan s)[i := FSend e],
      it_chs := (it_chs s)[i := Some (ch\<lparr>ch_buf := es\<rparr>)]\<rparr>)"
| fan_send: "i < length (it_fan s) \<Longrightarrow> it_fan s ! i = FSend e \<Longrightarrow> it_out s = Some out \<Longrightarrow>
    length (ch_buf out) < ch_cap out \<Longrightarrow>
    fan_step i s (s\<lparr>it_fan := (it_fan s)[i := FRecv],
      it_out := Some (out\<lparr>ch_buf := ch_buf out @ [e]\<rparr>)\<rparr>)"
| fan_drained: "i < length (it_fan s) \<Longrightarrow> it_fan s ! i = FRecv \<Longrightarrow> it_out s = Some out \<Longrightarrow>
    it_chs s ! i = Some ch \<Longrightarrow> ch_buf ch = [] \<Longrightarrow> ch_closed ch \<Longrightarrow>
    fan_step i s (s\<lparr>it_fan := (it_fan s)[i := FDone], it_fan_wg := it_fan_wg s - 1\<rparr>)"

inductive fan_close :: "('k, 'v) iter_state \<Rightarrow> ('k, 'v) iter_state \<Rightarrow> bool" where
  fan_closes: "it_out s = Some out \<Longrightarrow> \<not> ch_closed out \<Longrightarrow> it_fan_wg s = 0 \<Longrightarrow>
    fan_close s (s\<lparr>it_out := Some (out\<lparr>ch_closed := True\<rparr>)\<rparr>)"

inductive range_step :: "('k, 'v) iter_state \<Rightarrow> ('k, 'v) iter_state \<Rightarrow> bool" where
  range_recv: "it_range s = CRecv \<Longrightarrow> it_out s = Some out \<Longrightarrow> ch_buf out = e # es \<Longrightarrow>
    range_step s (s\<lparr>it_out := Some (out\<lparr>ch_buf := es\<rparr>), it_got := it_got s @ [e],
      it_range := if it_clear s then CRemove (fst e) else CRecv\<rparr>)"
| range_remove: "it_range s = CRemove k \<Longrightarrow> \<not> read_locked s (shard_index (it_map s) k) \<Longrightarrow>
    range_step s (s\<lparr>it_map := cm_Remove (it_map s) k, it_range := CRecv\<rparr>)"
| range_end: "it_range s = CRecv \<Longrightarrow> it_out s = Some out \<Longrightarrow> ch_buf out = [] \<Longrightarrow> ch_closed out \<Longrightarrow>
    range_step s (s\<lparr>it_range := CEnd\<rparr>)"

text \<open>The operations of other goroutines on one key; \<open>Get\<close> and \<open>Has\<close> take the read lock only.\<close>

fun op_key :: "('k, 'v) map_op \<Rightarrow> 'k option" where
  "op_key (OSet k v) = Some k"
| "op_key (OSetIfNotExist k v) = Some k"
| "op_key (OSetIfAbsent k v) = Some k"
| "op_key (OUpsert k v cb) = Some k"
| "op_key (OGet k) = Some k"
| "op_key (OHas k) = Some k"
| "op_key (ORemove k) = Some k"
| "op_key (ORemoveCb k cb) = Some k"
| "op_key (OPop k) = Some k"
| "op_key OCount = None"
| "op_key OIsEmpty = None"
| "op_key OClear = None"

fun op_reads :: "('k, 'v) map_op \<Rightarrow> bool" where
  "op_reads (OGet k) = True"
| "op_reads (OHas k) = True"
| "op_reads _ = False"

inductive other_step :: "('k, 'v) map_op \<Rightarrow> ('k, 'v) iter_state \<Rightarrow> ('k, 'v) iter_state \<Rightarrow> bool" where
  other_op: "op_key x = Some k \<Longrightarrow> op_reads x \<or> \<not> read_locked s (shard_index (it_map s) k) \<Longrightarrow>
    other_step x s (s\<lparr>it_map := snd (cm_exec x (it_map s))\<rparr>)"

text \<open>The goroutines the call starts and the call itself, and these with the caller's loop.\<close>

inductive worker_step :: "('k, 'v) iter_state \<Rightarrow> ('k, 'v) iter_state \<Rightarrow> bool" where
  work_snap: "snap_step i s s' \<Longrightarrow> worker_step s s'"
| work_return: "iter_return s s' \<Longrightarrow> worker_step s s'"
| work_fan: "fan_step i s s' \<Longrightarrow> worker_step s s'"
| work_close: "fan_close s s' \<Longrightarrow> worker_step s s'"

inductive iter_step :: "('k, 'v) iter_state \<Rightarrow> ('k, 'v) iter_state \<Rightarrow> bool" where
  iter_work: "worker_step s s' \<Longrightarrow> iter_step s s'"
| iter_range: "range_step s s' \<Longrightarrow> iter_step s s'"

text \<open>
  A run of the iteration from its call, with the operations the others made meanwhile and the values
  the map has had since the call.
\<close>

inductive iter_run :: "('k, 'v) iter_state \<Rightarrow> ('k, 'v) map_op list \<Rightarrow> ('k, 'v) concurrent_map list \<Rightarrow>
    ('k, 'v) iter_state \<Rightarrow> bool" for s0 where
  run_start: "iter_run s0 [] [it_map s0] s0"
| run_iter: "iter_run s0 xs ms s \<Longrightarrow> iter_step s s' \<Longrightarrow> iter_run s0 xs (ms @ [it_map s']) s'"
| run_other: "iter_run s0 xs ms s \<Longrightarrow> other_step x s s' \<Longrightarrow> iter_run s0 (xs @ [x]) (ms @ [it_map s']) s'"

text \<open>What \<open>Items\<close> and \<open>MarshalJSON\<close> build from the entries they receive.\<close>

definition collect_items :: "('k \<times> 'v) list \<Rightarrow> ('k, 'v) go_map" where
  "collect_items es = fold (\<lambda>(k, v) tmp. AList.update k v tmp) es []"

inductive_cases snap_stepE: "snap_step i s s'"
inductive_cases iter_returnE: "iter_return s s'"
inductive_cases fan_stepE: "fan_step i s s'"
inductive_cases fan_closeE: "fan_close s s'"
inductive_cases range_stepE: "range_step s s'"
inductive_cases other_stepE: "other_step x s s'"
inductive_cases worker_stepE: "worker_step s s'"
inductive_cases iter_stepE: "iter_step s s'"


subsection \<open>What an operation on one key leaves alone\<close>

lemma shard_index_Remove [simp]: "shard_index (cm_Remove m k) = shard_index m"
  by (simp add: cm_Remove_def)

lemma op_index: "op_key x = Some k \<Longrightarrow> shard_index (snd (cm_exec x m)) = shard_index m"
  by (cases x) (auto simp: cm_ops split: option.splits)

lemma op_other_shards:
  "op_key x = Some k \<Longrightarrow> j \<noteq> shard_index m k \<Longrightarrow> cm_shards (snd (cm_exec x m)) ! j = cm_shards m ! j"
  by (cases x) (auto simp: cm_ops put_shard_def split: option.splits)

lemma op_reads_same: "op_reads x \<Longrightarrow> snd (cm_exec x m) = m"
  by (cases x) auto

lemma op_wf: "cm_wf m \<Longrightarrow> cm_wf (snd (cm_exec x m))"
  using cm_exec_refines [of m x] by blast

lemma op_other_keys:
  assumes "cm_wf m" "op_key x = Some k'" "k \<noteq> k'"
  shows "cm_Get (snd (cm_exec x m)) k = cm_Get m k"
  using cm_exec_refines [OF assms(1), of x] assms(2,3) by (cases x) auto

lemma Remove_wf: "cm_wf m \<Longrightarrow> cm_wf (cm_Remove m k)" "cm_wf m \<Longrightarrow> cm_Get (cm_Remove m k) = (cm_Get m)(k := None)"
  using put_delete [of m k] by (simp_all add: cm_Remove_def)

lemma Remove_other_shards: "j \<noteq> shard_index m k \<Longrightarrow> cm_shards (cm_Remove m k) ! j = cm_shards m ! j"
  by (simp add: cm_Remove_def put_shard_def)

subsection \<open>Where the entries of a shard are\<close>

definition opt_buf :: "('k, 'v) tuple_chan option \<Rightarrow> ('k \<times> 'v) list" where
  "opt_buf c = (case c of None \<Rightarrow> [] | Some ch \<Rightarrow> ch_buf ch)"

definition held :: "('k, 'v) fan_pc \<Rightarrow> ('k \<times> 'v) multiset" where
  "held pc = (case pc of FSend e \<Rightarrow> {#e#} | _ \<Rightarrow> {#})"

lemma opt_buf_simps [simp]: "opt_buf None = []" "opt_buf (Some ch) = ch_buf ch"
  by (simp_all add: opt_buf_def)

lemma held_simps [simp]: "held FRecv = {#}" "held FDone = {#}" "held (FSend e) = {#e#}"
  by (simp_all add: held_def)

text \<open>The entries in the output channel or with the caller, and those of shard \<open>i\<close> past their \<open>snapshot\<close> goroutine.\<close>

definition pool :: "('k, 'v) iter_state \<Rightarrow> ('k \<times> 'v) multiset" where
  "pool s = mset (opt_buf (it_out s)) + mset (it_got s)"

definition flow :: "('k \<Rightarrow> nat) \<Rightarrow> ('k, 'v) iter_state \<Rightarrow> nat \<Rightarrow> ('k \<times> 'v) multiset" where
  "flow ix s i = mset (opt_buf (it_chs s ! i)) + held (it_fan s ! i) + filter_mset (\<lambda>e. ix (fst e) = i) (pool s)"

text \<open>
  A shard that is not read yet has sent nothing; while its goroutine sends, what is past it is what it
  has sent; afterwards it is what the shard held at one moment since the call.
\<close>

definition read_from :: "('k \<Rightarrow> nat) \<Rightarrow> ('k, 'v) concurrent_map list \<Rightarrow> ('k, 'v) iter_state \<Rightarrow> nat \<Rightarrow> nat \<Rightarrow> bool" where
  "read_from ix ms s i n \<longleftrightarrow> (\<exists>m \<in> set ms. n = length (cm_shards m ! i) \<and> flow ix s i = mset (cm_shards m ! i))"

definition shard_inv :: "('k \<Rightarrow> nat) \<Rightarrow> ('k, 'v) concurrent_map list \<Rightarrow> ('k, 'v) iter_state \<Rightarrow> nat \<Rightarrow> bool" where
  "shard_inv ix ms s i \<longleftrightarrow> (case it_snap s ! i of
     SLock \<Rightarrow> it_chs s ! i = None \<and> flow ix s i = {#} \<and> it_fan s ! i \<noteq> FDone
   | SSend sent \<Rightarrow> (\<exists>ch. it_chs s ! i = Some ch \<and> \<not> ch_closed ch \<and> ch_cap ch = length (cm_shards (it_map s) ! i) \<and>
       distinct sent \<and> set sent \<subseteq> set (cm_shards (it_map s) ! i) \<and> flow ix s i = mset sent) \<and> it_fan s ! i \<noteq> FDone
   | SClose \<Rightarrow> (\<exists>ch. it_chs s ! i = Some ch \<and> \<not> ch_closed ch \<and> read_from ix ms s i (ch_cap ch)) \<and> it_fan s ! i \<noteq> FDone
   | SDone \<Rightarrow> (\<exists>ch. it_chs s ! i = Some ch \<and> ch_closed ch \<and> read_from ix ms s i (ch_cap ch) \<and>
       (it_fan s ! i = FDone \<longrightarrow> ch_buf ch = [])))"

definition maps_inv :: "('k \<Rightarrow> nat) \<Rightarrow> ('k, 'v) concurrent_map list \<Rightarrow> ('k, 'v) iter_state \<Rightarrow> bool" where
  "maps_inv ix ms s \<longleftrightarrow> it_map s \<in> set ms \<and> (\<forall>m \<in> set ms. cm_wf m \<and> shard_index m = ix)"

text \<open>The wait groups count the goroutines that have not reported, and the output channel fits all entries.\<close>

definition waits_inv :: "('k, 'v) iter_state \<Rightarrow> bool" where
  "waits_inv s \<longleftrightarrow> length (it_snap s) = ShardCount \<and> length (it_chs s) = ShardCount \<and> length (it_fan s) = ShardCount \<and>
     it_wg s = num (\<lambda>p. p = SLock) (it_snap s) \<and> it_fan_wg s = num (\<lambda>p. p \<noteq> FDone) (it_fan s)"

definition out_inv :: "('k, 'v) iter_state \<Rightarrow> bool" where
  "out_inv s \<longleftrightarrow> (case it_out s of
     None \<Rightarrow> it_got s = [] \<and> (\<forall>i < ShardCount. it_fan s ! i = FRecv) \<and> it_range s = CRecv
   | Some out \<Rightarrow> it_wg s = 0 \<and> ch_cap out = total_cap (it_chs s) \<and> (ch_closed out \<longrightarrow> it_fan_wg s = 0) \<and>
       (it_range s = CEnd \<longrightarrow> ch_closed out \<and> ch_buf out = []))"

definition iter_inv :: "('k \<Rightarrow> nat) \<Rightarrow> ('k, 'v) concurrent_map list \<Rightarrow> ('k, 'v) iter_state \<Rightarrow> bool" where
  "iter_inv ix ms s \<longleftrightarrow> maps_inv ix ms s \<and> waits_inv s \<and> out_inv s \<and> (\<forall>i < ShardCount. shard_inv ix ms s i)"

lemma ms_shard:
  assumes "maps_inv ix ms s" "m \<in> set ms" "i < ShardCount"
  shows "distinct (map fst (cm_shards m ! i))" "e \<in> set (cm_shards m ! i) \<Longrightarrow> ix (fst e) = i"
  using assms by (auto simp: maps_inv_def cm_wf_def)

lemma flow_index:
  assumes "iter_inv ix ms s" "i < ShardCount" "e \<in># flow ix s i"
  shows "ix (fst e) = i"
proof -
  have m: "maps_inv ix ms s" "shard_inv ix ms s i" "it_map s \<in> set ms"
    using assms by (auto simp: iter_inv_def maps_inv_def)
  show ?thesis
  proof (cases "it_snap s ! i")
    case (SSend sent)
    then have "e \<in> set (cm_shards (it_map s) ! i)" using m(2) assms(3) by (auto simp: shard_inv_def)
    then show ?thesis by (rule ms_shard(2) [OF m(1,3) assms(2)])
  next
    case SLock
    then show ?thesis using m(2) assms(3) by (simp add: shard_inv_def)
  qed (use m(2) assms(3) in \<open>auto simp: shard_inv_def read_from_def intro: ms_shard(2) [OF m(1) _ assms(2)]\<close>)
qed

text \<open>A step that keeps the goroutines of a shard keeps its invariant, when the shard is unchanged or not being read.\<close>

lemma shard_inv_frame:
  assumes "shard_inv ix ms s j" and "it_snap s' ! j = it_snap s ! j" "it_chs s' ! j = it_chs s ! j"
    "it_fan s' ! j = it_fan s ! j" "flow ix s' j = flow ix s j" "set ms \<subseteq> set ms'"
    and "\<And>sent. it_snap s ! j = SSend sent \<Longrightarrow> cm_shards (it_map s') ! j = cm_shards (it_map s) ! j"
  shows "shard_inv ix ms' s' j"
  using assms by (cases "it_snap s ! j") (auto simp: shard_inv_def read_from_def)


lemma total_cap_update:
  assumes "i < length chs" "chs ! i = Some ch" "ch_cap ch' = ch_cap ch"
  shows "total_cap (chs[i := Some ch']) = total_cap chs"
proof -
  let ?cap = "\<lambda>c. case c of None \<Rightarrow> 0 | Some ch \<Rightarrow> ch_cap ch"
  have "map ?cap (chs[i := Some ch']) = map ?cap chs"
    using assms by (intro nth_equalityI) (auto simp: nth_list_update)
  then show ?thesis by (simp add: total_cap_def)
qed

lemma maps_inv_same: "maps_inv ix ms s \<Longrightarrow> it_map s' = it_map s \<Longrightarrow> maps_inv ix (ms @ [it_map s']) s'"
  by (auto simp: maps_inv_def)

lemma flow_frame:
  assumes "it_chs s' ! j = it_chs s ! j" "it_fan s' ! j = it_fan s ! j" "pool s' = pool s"
  shows "flow ix s' j = flow ix s j"
  using assms by (simp add: flow_def)

lemma pool_same: "it_out s' = it_out s \<Longrightarrow> it_got s' = it_got s \<Longrightarrow> pool s' = pool s"
  by (simp add: pool_def)

lemmas inv_parts = iter_inv_def waits_inv_def

lemma snap_waits:
  assumes "iter_inv ix ms s" "snap_step i s s'"
  shows "waits_inv s' \<and> i < ShardCount"
  using assms(2,1) by cases (auto simp: inv_parts num_update)

lemma snap_out:
  assumes "iter_inv ix ms s" "snap_step i s s'"
  shows "out_inv s'"
proof -
  note i = snap_waits [OF assms]
  have l: "it_out s = None" if "it_snap s ! i = SLock"
    using num_pos_if_nth [of i "it_snap s" "\<lambda>p. p = SLock"] that i assms(1)
    by (cases "it_out s") (auto simp: inv_parts out_inv_def)
  from assms(2) show ?thesis
  proof cases
    case snap_lock
    then show ?thesis using l assms(1) by (simp add: inv_parts out_inv_def)
  qed (use i assms(1) in \<open>auto simp: inv_parts out_inv_def total_cap_update split: option.splits\<close>)
qed

lemma snap_own_shard:
  assumes inv: "iter_inv ix ms s" and step: "snap_step i s s'"
  shows "shard_inv ix (ms @ [it_map s']) s' i"
proof -
  have i: "i < ShardCount" using snap_waits [OF assms] by simp
  have len: "length (it_snap s) = ShardCount" "length (it_chs s) = ShardCount" and m: "maps_inv ix ms s" "it_map s \<in> set ms"
    and sh: "shard_inv ix ms s i" using inv i by (auto simp: inv_parts maps_inv_def)
  from step show ?thesis
  proof cases
    case snap_lock
    then show ?thesis using sh i len
      by (auto simp: shard_inv_def flow_def pool_def make_chan_def)
  next
    case (snap_send sent e ch)
    have "flow ix s' i = add_mset e (flow ix s i)"
      using snap_send i len by (simp add: flow_def pool_def)
    then show ?thesis using snap_send sh i len by (auto simp: shard_inv_def)
  next
    case (snap_unlock sent)
    have d: "distinct (cm_shards (it_map s) ! i)" using ms_shard(1) [OF m i] by (simp add: distinct_map)
    have "mset sent = mset (cm_shards (it_map s) ! i)"
      using snap_unlock(3,4) sh d by (auto simp: shard_inv_def intro!: set_eq_iff_mset_eq_distinct [THEN iffD1])
    moreover have "flow ix s' i = flow ix s i" using snap_unlock by (intro flow_frame) (auto simp: pool_def)
    ultimately show ?thesis using snap_unlock sh i len m(2) by (auto simp: shard_inv_def read_from_def)
  next
    case (snap_close ch)
    have "flow ix s' i = flow ix s i" using snap_close i len by (auto simp: flow_def pool_def)
    then show ?thesis using snap_close sh i len by (auto simp: shard_inv_def read_from_def)
  qed
qed

lemma snap_frame:
  assumes "snap_step i s s'"
  shows "it_map s' = it_map s \<and> pool s' = pool s \<and> it_fan s' = it_fan s \<and>
    (j \<noteq> i \<longrightarrow> it_snap s' ! j = it_snap s ! j \<and> it_chs s' ! j = it_chs s ! j)"
  using assms by cases (simp_all add: pool_def)

lemma snap_inv:
  assumes "iter_inv ix ms s" "snap_step i s s'"
  shows "iter_inv ix (ms @ [it_map s']) s'"
proof -
  have "shard_inv ix (ms @ [it_map s']) s' j" if "j < ShardCount" "j \<noteq> i" for j
  proof (rule shard_inv_frame [of ix ms s])
    show "flow ix s' j = flow ix s j" using snap_frame [OF assms(2), of j] that by (intro flow_frame) auto
  qed (use snap_frame [OF assms(2), of j] assms(1) that in \<open>auto simp: iter_inv_def\<close>)
  then have "\<forall>j < ShardCount. shard_inv ix (ms @ [it_map s']) s' j"
    using snap_own_shard [OF assms] by (metis)
  then show ?thesis
    using assms(1) snap_waits [OF assms] snap_out [OF assms] maps_inv_same [of ix ms s s'] snap_frame [OF assms(2)]
    by (simp add: iter_inv_def)
qed

lemma fan_index:
  assumes "iter_inv ix ms s" "fan_step i s s'"
  shows "i < ShardCount" "length (it_chs s) = ShardCount" "length (it_fan s) = ShardCount"
  using assms(2,1) by (cases; simp add: inv_parts)+

lemma fan_flow:
  assumes inv: "iter_inv ix ms s" and step: "fan_step i s s'"
  shows "flow ix s' j = flow ix s j"
proof -
  note i = fan_index [OF assms]
  from step show ?thesis
  proof cases
    case (fan_send e out)
    have "e \<in># flow ix s i" using fan_send(3) by (simp add: flow_def)
    then have "ix (fst e) = i" by (rule flow_index [OF inv i(1)])
    then show ?thesis using fan_send i by (cases "i = j") (auto simp: flow_def pool_def)
  qed (use i in \<open>auto simp: flow_def pool_def nth_list_update\<close>)
qed

lemma fan_shard:
  assumes inv: "iter_inv ix ms s" and step: "fan_step i s s'" and j: "j < ShardCount"
  shows "shard_inv ix (ms @ [it_map s']) s' j"
proof -
  note i = fan_index [OF assms(1,2)] and f = fan_flow [OF assms(1,2), of j]
  have sh: "shard_inv ix ms s j" using inv j by (simp add: iter_inv_def)
  show ?thesis
  proof (cases "i = j")
    case True
    from step show ?thesis
      by cases (use True sh f i in \<open>auto simp: shard_inv_def read_from_def split: snap_pc.splits\<close>)
  next
    case False
    show ?thesis
      using step by (rule fan_step.cases; intro shard_inv_frame [OF sh _ _ _ f]) (use False in \<open>auto\<close>)
  qed
qed

lemma fan_inv:
  assumes inv: "iter_inv ix ms s" and step: "fan_step i s s'"
  shows "iter_inv ix (ms @ [it_map s']) s'"
proof -
  note i = fan_index [OF assms]
  have w: "0 < num (\<lambda>p. p \<noteq> FDone) (it_fan s)" if "it_fan s ! i \<noteq> FDone"
    using num_pos_if_nth [of i "it_fan s" "\<lambda>p. p \<noteq> FDone"] that i by simp
  have "waits_inv s'"
    using step by cases (use w i inv in \<open>auto simp: inv_parts num_update\<close>)
  moreover have "out_inv s'"
    using step by cases (use w inv i in \<open>auto simp: inv_parts out_inv_def total_cap_update\<close>)
  moreover have "it_map s' = it_map s" using step by cases auto
  ultimately show ?thesis
    using inv fan_shard [OF assms] maps_inv_same [of ix ms s s'] by (simp add: iter_inv_def)
qed

lemma pool_inv:
  assumes "iter_inv ix ms s" and "waits_inv s'" "out_inv s'" "it_map s' = it_map s" "pool s' = pool s"
    and "it_snap s' = it_snap s" "it_chs s' = it_chs s" "it_fan s' = it_fan s"
  shows "iter_inv ix (ms @ [it_map s']) s'"
proof -
  have "shard_inv ix (ms @ [it_map s']) s' j" if "j < ShardCount" for j
  proof (rule shard_inv_frame [of ix ms s])
    show "flow ix s' j = flow ix s j" using assms by (intro flow_frame) auto
  qed (use assms that in \<open>simp_all add: iter_inv_def\<close>, blast)
  then show ?thesis using assms maps_inv_same [of ix ms s s'] by (simp add: iter_inv_def)
qed

lemma return_inv: "iter_inv ix ms s \<Longrightarrow> iter_return s s' \<Longrightarrow> iter_inv ix (ms @ [it_map s']) s'"
  by (erule iter_returnE, rule pool_inv) (auto simp: inv_parts out_inv_def pool_def make_chan_def)

lemma close_inv: "iter_inv ix ms s \<Longrightarrow> fan_close s s' \<Longrightarrow> iter_inv ix (ms @ [it_map s']) s'"
  by (erule fan_closeE, rule pool_inv) (auto simp: inv_parts out_inv_def pool_def)

text \<open>A write to a shard nobody reads.\<close>

lemma write_inv:
  assumes inv: "iter_inv ix ms s" and s': "s' = s\<lparr>it_map := m', it_range := r\<rparr>" and "cm_wf m'" "shard_index m' = ix"
    and same: "\<And>j. read_locked s j \<Longrightarrow> cm_shards m' ! j = cm_shards (it_map s) ! j"
    and r: "r = it_range s \<or> it_range s = CRemove k \<and> r = CRecv"
  shows "iter_inv ix (ms @ [it_map s']) s'"
proof -
  have "shard_inv ix (ms @ [it_map s']) s' j" if "j < ShardCount" for j
  proof (rule shard_inv_frame [of ix ms s])
    show "cm_shards (it_map s') ! j = cm_shards (it_map s) ! j" if "it_snap s ! j = SSend sent" for sent
      using same [of j] that s' by (simp add: read_locked_def)
  qed (use inv s' that in \<open>simp_all add: iter_inv_def flow_def pool_def, blast?\<close>)
  moreover have "maps_inv ix (ms @ [it_map s']) s'" using assms by (auto simp: iter_inv_def maps_inv_def)
  moreover have "waits_inv s'" "out_inv s'" using inv s' r by (auto simp: inv_parts out_inv_def split: option.splits)
  ultimately show ?thesis by (simp add: iter_inv_def)
qed

lemma range_inv:
  assumes inv: "iter_inv ix ms s" and step: "range_step s s'"
  shows "iter_inv ix (ms @ [it_map s']) s'"
  using step
proof cases
  case (range_recv out e es)
  then show ?thesis using inv by (intro pool_inv [OF inv]) (auto simp: inv_parts out_inv_def pool_def)
next
  case (range_remove k)
  have m: "cm_wf (it_map s)" "shard_index (it_map s) = ix" using inv by (auto simp: iter_inv_def maps_inv_def)
  have "cm_shards (cm_Remove (it_map s) k) ! j = cm_shards (it_map s) ! j" if "read_locked s j" for j
    using range_remove(3) that by (intro Remove_other_shards) auto
  then show ?thesis
    using m range_remove Remove_wf(1) [OF m(1), of k] by (intro write_inv [OF inv range_remove(1), of k]) auto
next
  case (range_end out)
  then show ?thesis using inv by (intro pool_inv [OF inv]) (auto simp: inv_parts out_inv_def pool_def)
qed

lemma other_inv:
  assumes inv: "iter_inv ix ms s" and step: "other_step x s s'"
  shows "iter_inv ix (ms @ [it_map s']) s'"
  using step
proof cases
  case (other_op k)
  have m: "cm_wf (it_map s)" "shard_index (it_map s) = ix" using inv by (auto simp: iter_inv_def maps_inv_def)
  have "cm_shards (snd (cm_exec x (it_map s))) ! j = cm_shards (it_map s) ! j" if "read_locked s j" for j
    using other_op(3) that op_reads_same [of x "it_map s"] op_other_shards [OF other_op(2), of j "it_map s"] by auto
  moreover have "s' = s\<lparr>it_map := snd (cm_exec x (it_map s)), it_range := it_range s\<rparr>" using other_op(1) by simp
  moreover have "cm_wf (snd (cm_exec x (it_map s)))" "shard_index (snd (cm_exec x (it_map s))) = ix"
    using m op_wf [of "it_map s" x] op_index [OF other_op(2), of "it_map s"] by simp_all
  ultimately show ?thesis by (intro write_inv [OF inv, where r = "it_range s" and m' = "snd (cm_exec x (it_map s))"]) simp_all
qed

lemma iter_start_inv:
  assumes "cm_wf m" "snapshot_start clear m = Some s"
  shows "iter_inv (shard_index m) [it_map s] s" "it_map s = m"
proof -
  have "length (cm_shards m) = ShardCount" using assms(1) by (simp add: cm_wf_def)
  then have s: "s = \<lparr>it_map = m, it_clear = clear, it_snap = replicate ShardCount SLock, it_chs = replicate ShardCount None,
       it_wg = ShardCount, it_out = None, it_fan = replicate ShardCount FRecv,
       it_fan_wg = ShardCount, it_got = [], it_range = CRecv\<rparr>"
    using assms(2) by (auto simp: snapshot_start_def split: if_splits)
  show "it_map s = m" by (simp add: s)
  show "iter_inv (shard_index m) [it_map s] s"
    using assms(1) by (simp add: s iter_inv_def maps_inv_def waits_inv_def out_inv_def shard_inv_def flow_def pool_def num_def)
qed

lemma worker_inv: "iter_inv ix ms s \<Longrightarrow> worker_step s s' \<Longrightarrow> iter_inv ix (ms @ [it_map s']) s'"
  by (erule worker_stepE) (auto intro: snap_inv return_inv fan_inv close_inv)

lemma run_inv:
  assumes "iter_run s0 xs ms s" "iter_inv ix [it_map s0] s0"
  shows "iter_inv ix ms s"
  using assms
proof induction
  case (run_iter xs ms s s')
  note inv = run_iter(3) [OF run_iter(4)]
  from run_iter(2) show ?case
    by cases (rule worker_inv [OF inv] range_inv [OF inv], assumption)+
next
  case (run_other xs ms s x s')
  show ?case by (rule other_inv [OF run_other(3) [OF run_other(4)] run_other(2)])
qed simp

subsection \<open>What the caller receives\<close>

lemma ended_read:
  assumes inv: "iter_inv ix ms s" and "it_range s = CEnd" and i: "i < ShardCount"
  shows "\<exists>m \<in> set ms. mset (filter (\<lambda>e. ix (fst e) = i) (it_got s)) = mset (cm_shards m ! i)"
proof -
  obtain out where out: "it_out s = Some out" "ch_buf out = []" "it_fan_wg s = 0"
    using assms(1,2) by (auto simp: iter_inv_def out_inv_def split: option.splits)
  have "it_fan s ! i = FDone" using out(3) inv i by (simp add: inv_parts num_zero_iff)
  moreover have "shard_inv ix ms s i" using inv i by (simp add: iter_inv_def)
  ultimately show ?thesis
    using out by (cases "it_snap s ! i") (auto simp: shard_inv_def read_from_def flow_def pool_def)
qed

lemma distinct_by_class:
  "(\<And>x. x \<in> set xs \<Longrightarrow> distinct (map f (filter (\<lambda>y. ix (f y) = ix (f x)) xs))) \<Longrightarrow> distinct (map f xs)"
proof (induction xs)
  case (Cons x xs)
  have "distinct (map f (filter (\<lambda>y. ix (f y) = ix (f z)) xs))" if "z \<in> set xs" for z
    using Cons.prems [of z] that by (auto split: if_splits)
  moreover have "f x \<notin> f ` set xs" using Cons.prems [of x] by fastforce
  ultimately show ?case using Cons.IH by simp
qed simp

lemma got_distinct:
  assumes inv: "iter_inv ix ms s" and fin: "it_range s = CEnd"
  shows "distinct (map fst (it_got s))"
proof (rule distinct_by_class)
  fix e assume "e \<in> set (it_got s)"
  have m: "maps_inv ix ms s" using inv by (simp add: iter_inv_def)
  then have i: "ix (fst e) < ShardCount" using shard_index_less [of "it_map s" "fst e"] by (auto simp: maps_inv_def)
  obtain m' where m': "m' \<in> set ms" "mset (filter (\<lambda>y. ix (fst y) = ix (fst e)) (it_got s)) = mset (cm_shards m' ! ix (fst e))"
    using ended_read [OF inv fin i] by blast
  have "mset (map fst (filter (\<lambda>y. ix (fst y) = ix (fst e)) (it_got s))) = mset (map fst (cm_shards m' ! ix (fst e)))"
    using m'(2) by simp
  then show "distinct (map fst (filter (\<lambda>y. ix (fst y) = ix (fst e)) (it_got s)))"
    using ms_shard(1) [OF m m'(1) i] mset_eq_imp_distinct_iff by blast
qed

lemma option_eqI: "(\<And>v. a = Some v \<longleftrightarrow> b = Some v) \<Longrightarrow> a = b"
  by (metis not_Some_eq)

lemma got_lookup:
  assumes inv: "iter_inv ix ms s" and fin: "it_range s = CEnd" and i: "i < ShardCount"
  shows "\<exists>m' \<in> set ms. \<forall>k. ix k = i \<longrightarrow> map_of (collect_items (it_got s)) k = cm_Get m' k"
proof -
  have m: "maps_inv ix ms s" using inv by (simp add: iter_inv_def)
  obtain m' where m': "m' \<in> set ms" "mset (filter (\<lambda>e. ix (fst e) = i) (it_got s)) = mset (cm_shards m' ! i)"
    using ended_read [OF assms] by blast
  have d: "distinct (map fst (it_got s))" by (rule got_distinct [OF inv fin])
  have st: "set (cm_shards m' ! i) = set (filter (\<lambda>e. ix (fst e) = i) (it_got s))"
    by (rule mset_eq_setD [OF m'(2) [symmetric]])
  have "map_of (collect_items (it_got s)) k = cm_Get m' k" if k: "ix k = i" for k
  proof -
    have "(k, v) \<in> set (it_got s) \<longleftrightarrow> (k, v) \<in> set (cm_shards m' ! i)" for v
      using k by (simp add: st)
    then have "map_of (it_got s) k = Some v \<longleftrightarrow> map_of (cm_shards m' ! i) k = Some v" for v
      using d ms_shard(1) [OF m m'(1) i] by (simp add: map_of_eq_Some_iff)
    then have "map_of (it_got s) k = map_of (cm_shards m' ! i) k" by (rule option_eqI)
    moreover have "shard_index m' k = i" using m m'(1) k by (simp add: maps_inv_def)
    then have "cm_shards m' ! i = GetShard m' k" by (simp add: GetShard_def)
    moreover have "map_of (collect_items (it_got s)) = map_of (it_got s)"
      using d by (simp add: collect_items_def fold_update_Get map_of_rev_distinct)
    ultimately show ?thesis by simp
  qed
  then show ?thesis using m'(1) by blast
qed


subsection \<open>Nobody waits for the caller\<close>

lemma sum_move_one:
  fixes f g :: "nat \<Rightarrow> nat"
  assumes "i < n" "\<And>j. j < n \<Longrightarrow> j \<noteq> i \<Longrightarrow> f j = g j"
  shows "sum f {..<n} + g i = sum g {..<n} + f i"
proof -
  have "sum f ({..<n} - {i}) = sum g ({..<n} - {i})" using assms(2) by (intro sum.cong) auto
  then show ?thesis using assms(1) sum.remove [of "{..<n}" i f] sum.remove [of "{..<n}" i g] by simp
qed

lemma sum_classes:
  fixes f :: "'a \<Rightarrow> nat"
  shows "(\<And>x. x \<in># M \<Longrightarrow> f x < n) \<Longrightarrow> (\<Sum>i<n. size (filter_mset (\<lambda>x. f x = i) M)) = size M"
proof (induction M)
  case (add x M)
  show ?case
    using add sum_move_one [of "f x" n "\<lambda>i. size (filter_mset (\<lambda>y. f y = i) (add_mset x M))"
      "\<lambda>i. size (filter_mset (\<lambda>y. f y = i) M)"] by simp
qed simp

lemma subset_shorter:
  assumes "distinct sent" "set sent \<subseteq> set items"
  shows "length sent \<le> length items" "e \<in> set items \<Longrightarrow> e \<notin> set sent \<Longrightarrow> length sent < length items"
proof -
  show "length sent \<le> length items"
    using assms card_mono [of "set items" "set sent"] card_length [of items] distinct_card [of sent] by simp
  assume "e \<in> set items" "e \<notin> set sent"
  then show "length sent < length items"
    using assms card_mono [of "set items" "insert e (set sent)"] card_length [of items] distinct_card [of sent] by simp
qed

text \<open>What is past the goroutine of a shard never exceeds the capacity of its channel.\<close>

lemma flow_fits:
  assumes "shard_inv ix ms s i" "it_chs s ! i = Some ch"
  shows "size (flow ix s i) \<le> ch_cap ch"
  using assms subset_shorter(1)
  by (cases "it_snap s ! i") (auto simp: shard_inv_def read_from_def)

lemma send_fits:
  assumes "shard_inv ix ms s i" "it_snap s ! i = SSend sent" "e \<in> set (cm_shards (it_map s) ! i)" "e \<notin> set sent"
  shows "\<exists>ch. it_chs s ! i = Some ch \<and> length (ch_buf ch) < ch_cap ch"
proof -
  obtain ch where ch: "it_chs s ! i = Some ch" "ch_cap ch = length (cm_shards (it_map s) ! i)" "flow ix s i = mset sent"
    and sent: "distinct sent" "set sent \<subseteq> set (cm_shards (it_map s) ! i)"
    using assms(1,2) by (auto simp: shard_inv_def)
  have "length (ch_buf ch) \<le> size (flow ix s i)" using ch(1) by (simp add: flow_def)
  also have "\<dots> < ch_cap ch" using subset_shorter(2) [OF sent assms(3,4)] ch(2,3) by simp
  finally show ?thesis using ch(1) by blast
qed

lemma not_locked_chan: "shard_inv ix ms s i \<Longrightarrow> it_snap s ! i \<noteq> SLock \<Longrightarrow> \<exists>ch. it_chs s ! i = Some ch"
  by (cases "it_snap s ! i") (auto simp: shard_inv_def)

lemma out_fits:
  assumes inv: "iter_inv ix ms s" and fan: "it_fan s ! i = FSend e" "i < ShardCount" and out: "it_out s = Some out"
  shows "length (ch_buf out) < ch_cap out"
proof -
  let ?cap = "\<lambda>j. case it_chs s ! j of None \<Rightarrow> 0 | Some ch \<Rightarrow> ch_cap ch"
  let ?in = "\<lambda>j. size (filter_mset (\<lambda>e. ix (fst e) = j) (pool s))"
  have wg: "num (\<lambda>p. p = SLock) (it_snap s) = 0" and cap: "ch_cap out = total_cap (it_chs s)"
    using inv out by (simp_all add: inv_parts out_inv_def)
  have "size (flow ix s j) \<le> ?cap j" if "j < ShardCount" for j
  proof -
    have sh: "shard_inv ix ms s j" "it_snap s ! j \<noteq> SLock"
      using inv wg that by (auto simp: inv_parts num_zero_iff)
    then show ?thesis using flow_fits [OF sh(1)] not_locked_chan [OF sh] by auto
  qed
  moreover have "?in j + (if j = i then 1 else 0) \<le> size (flow ix s j)" for j
    using fan by (simp add: flow_def)
  ultimately have "(\<Sum>j<ShardCount. ?in j + (if j = i then 1 else 0)) \<le> (\<Sum>j<ShardCount. ?cap j)"
    by (intro sum_mono) (meson le_trans lessThan_iff)
  also have "(\<Sum>j<ShardCount. ?cap j) = ch_cap out"
    using inv cap by (simp add: inv_parts total_cap_def sum_list_sum_nth atLeast0LessThan)
  finally have "(\<Sum>j<ShardCount. ?in j) + 1 \<le> ch_cap out" using fan(2) by (simp add: sum.distrib)
  moreover have "(\<Sum>j<ShardCount. ?in j) = size (pool s)"
    by (rule sum_classes) (use inv shard_index_less in \<open>force simp: iter_inv_def maps_inv_def\<close>)
  moreover have "length (ch_buf out) \<le> size (pool s)" using out by (simp add: pool_def)
  ultimately show ?thesis by simp
qed


definition workers_done :: "('k, 'v) iter_state \<Rightarrow> bool" where
  "workers_done s = (list_all (\<lambda>p. p = SDone) (it_snap s) \<and>
     (case it_out s of None \<Rightarrow> False | Some out \<Rightarrow> ch_closed out))"

lemma snap_can_step:
  assumes inv: "iter_inv ix ms s" and i: "i < ShardCount" and "it_snap s ! i \<noteq> SDone"
  shows "\<exists>s'. snap_step i s s'"
proof -
  have l: "i < length (it_snap s)" and sh: "shard_inv ix ms s i" using inv i by (simp_all add: inv_parts)
  show ?thesis
  proof (cases "it_snap s ! i")
    case SLock
    then show ?thesis using snap_lock [OF l] by blast
  next
    case (SSend sent)
    show ?thesis
    proof (cases "set (cm_shards (it_map s) ! i) \<subseteq> set sent")
      case True
      then show ?thesis using snap_unlock [OF l SSend] by blast
    next
      case False
      then obtain e where e: "e \<in> set (cm_shards (it_map s) ! i)" "e \<notin> set sent" by blast
      then show ?thesis using snap_send [OF l SSend e] send_fits [OF sh SSend e] by blast
    qed
  next
    case SClose
    then show ?thesis using snap_close [OF l SClose] sh by (auto simp: shard_inv_def)
  qed (use assms in simp)
qed

lemma fan_can_step:
  assumes inv: "iter_inv ix ms s" and i: "i < ShardCount" and "it_fan s ! i \<noteq> FDone"
    and snap: "it_snap s ! i = SDone" and out: "it_out s = Some out"
  shows "\<exists>s'. fan_step i s s'"
proof -
  have l: "i < length (it_fan s)" using inv i by (simp add: inv_parts)
  have "shard_inv ix ms s i" using inv i by (simp add: iter_inv_def)
  then obtain ch where ch: "it_chs s ! i = Some ch" "ch_closed ch" using snap by (auto simp: shard_inv_def)
  show ?thesis
  proof (cases "it_fan s ! i")
    case FRecv
    then show ?thesis
      using fan_recv [OF l FRecv out ch(1)] fan_drained [OF l FRecv out ch(1) _ ch(2)] by (cases "ch_buf ch") blast+
  next
    case (FSend e)
    then show ?thesis using fan_send [OF l FSend out out_fits [OF inv FSend i out]] by blast
  qed (use assms in simp)
qed

lemma worker_can_step:
  assumes inv: "iter_inv ix ms s" and "\<not> workers_done s"
  shows "\<exists>s'. worker_step s s'"
proof -
  have len: "length (it_snap s) = ShardCount" "length (it_fan s) = ShardCount" using inv by (simp_all add: inv_parts)
  consider (snap) i where "i < ShardCount" "it_snap s ! i \<noteq> SDone"
    | (ret) "\<forall>i < ShardCount. it_snap s ! i = SDone" "it_out s = None"
    | (fan) i out where "\<forall>i < ShardCount. it_snap s ! i = SDone" "it_out s = Some out" "i < ShardCount" "it_fan s ! i \<noteq> FDone"
    | (cls) out where "it_out s = Some out" "\<not> ch_closed out" "\<forall>i < ShardCount. it_fan s ! i = FDone"
    using assms(2) len by (cases "it_out s") (auto simp: workers_done_def list_all_length)
  then show ?thesis
  proof cases
    case snap
    then show ?thesis using snap_can_step [OF inv] work_snap by blast
  next
    case ret
    have "it_wg s = 0" using ret(1) inv len by (auto simp: inv_parts num_zero_iff in_set_conv_nth)
    then show ?thesis using iter_returns [OF ret(2)] work_return by blast
  next
    case fan
    then show ?thesis using fan_can_step [OF inv] work_fan by blast
  next
    case cls
    have "it_fan_wg s = 0" using cls(3) inv len by (auto simp: inv_parts num_zero_iff in_set_conv_nth)
    then show ?thesis using fan_closes [OF cls(1,2)] work_close by blast
  qed
qed

lemma range_can_step:
  assumes inv: "iter_inv ix ms s" and w: "workers_done s" and "it_range s \<noteq> CEnd"
  shows "\<exists>s'. range_step s s'"
proof -
  obtain out where out: "it_out s = Some out" "ch_closed out" and snap: "\<forall>i < ShardCount. it_snap s ! i = SDone"
    using w inv by (auto simp: workers_done_def inv_parts list_all_length split: option.splits)
  show ?thesis
  proof (cases "it_range s")
    case CRecv
    then show ?thesis
      using range_recv [OF CRecv out(1)] range_end [OF CRecv out(1) _ out(2)] by (cases "ch_buf out") blast+
  next
    case (CRemove k)
    have "\<not> read_locked s (shard_index (it_map s) k)"
      using snap shard_index_less [of "it_map s" k] by (simp add: read_locked_def)
    then show ?thesis using range_remove [OF CRemove] by blast
  qed (use assms in simp)
qed

subsection \<open>The iteration ends\<close>

text \<open>
  The work left: first the shards not read yet, whose size others still change, then for every entry
  the hands it still has to pass through, and the goroutines that have not ended.
\<close>

fun snap_work :: "('k, 'v) go_map \<Rightarrow> ('k, 'v) snap_pc \<Rightarrow> nat" where
  "snap_work items (SSend sent) = 2 + 5 * (length items - length sent)"
| "snap_work items SClose = 1"
| "snap_work items _ = 0"

fun fan_work :: "('k, 'v) fan_pc \<Rightarrow> nat" where
  "fan_work FRecv = 1"
| "fan_work (FSend _) = 4"
| "fan_work FDone = 0"

definition shard_work :: "('k, 'v) iter_state \<Rightarrow> nat \<Rightarrow> nat" where
  "shard_work s i = snap_work (cm_shards (it_map s) ! i) (it_snap s ! i) +
     4 * length (opt_buf (it_chs s ! i)) + fan_work (it_fan s ! i)"

definition tail_work :: "('k, 'v) iter_state \<Rightarrow> nat" where
  "tail_work s = 2 * length (opt_buf (it_out s)) +
     (case it_out s of None \<Rightarrow> 2 | Some out \<Rightarrow> if ch_closed out then 0 else 1) +
     (case it_range s of CRecv \<Rightarrow> 1 | CRemove _ \<Rightarrow> 2 | CEnd \<Rightarrow> 0)"

definition iter_work_left :: "('k, 'v) iter_state \<Rightarrow> nat \<times> nat" where
  "iter_work_left s = (it_wg s, (\<Sum>i<ShardCount. shard_work s i) + tail_work s)"

abbreviation less_work :: "((nat \<times> nat) \<times> nat \<times> nat) set" where
  "less_work \<equiv> less_than <*lex*> less_than"

lemma shard_less_work:
  assumes "i < ShardCount" "it_wg s' \<le> it_wg s" "\<And>j. j \<noteq> i \<Longrightarrow> shard_work s' j = shard_work s j"
    and "it_wg s' = it_wg s \<Longrightarrow> shard_work s' i + tail_work s' < shard_work s i + tail_work s"
  shows "(iter_work_left s', iter_work_left s) \<in> less_work"
  using assms sum_move_one [of i ShardCount "shard_work s'" "shard_work s"]
  by (cases "it_wg s' = it_wg s") (auto simp: iter_work_left_def)

lemma snap_less_work:
  assumes inv: "iter_inv ix ms s" and step: "snap_step i s s'"
  shows "(iter_work_left s', iter_work_left s) \<in> less_work"
proof (rule shard_less_work [of i])
  show i: "i < ShardCount" using snap_waits [OF assms] by simp
  have len: "length (it_snap s) = ShardCount" "length (it_chs s) = ShardCount" and sh: "shard_inv ix ms s i"
    using inv i by (auto simp: inv_parts)
  show "it_wg s' \<le> it_wg s" using step by cases auto
  show "shard_work s' j = shard_work s j" if "j \<noteq> i" for j
    using step that by cases (simp_all add: shard_work_def)
  show "shard_work s' i + tail_work s' < shard_work s i + tail_work s" if "it_wg s' = it_wg s"
    using step
  proof cases
    case snap_lock
    have "0 < it_wg s" using num_pos_if_nth [of i "it_snap s" "\<lambda>p. p = SLock"] snap_lock inv by (simp add: inv_parts)
    then show ?thesis using that snap_lock by simp
  next
    case (snap_send sent e ch)
    have "length sent < length (cm_shards (it_map s) ! i)"
      using snap_send sh subset_shorter(2) [of sent _ e] by (auto simp: shard_inv_def)
    then show ?thesis using snap_send i len by (simp add: shard_work_def tail_work_def)
  qed (use i len in \<open>simp_all add: shard_work_def tail_work_def\<close>)
qed

lemma fan_less_work:
  assumes inv: "iter_inv ix ms s" and step: "fan_step i s s'"
  shows "(iter_work_left s', iter_work_left s) \<in> less_work"
proof (rule shard_less_work [of i])
  note i = fan_index [OF assms]
  show "i < ShardCount" by (rule i)
  show "it_wg s' \<le> it_wg s" using step by cases auto
  show "shard_work s' j = shard_work s j" if "j \<noteq> i" for j
    using step that by cases (simp_all add: shard_work_def)
  show "shard_work s' i + tail_work s' < shard_work s i + tail_work s"
    using step by cases (use i in \<open>simp_all add: shard_work_def tail_work_def\<close>)
qed

lemma tail_less_work:
  assumes "it_wg s' = it_wg s" "\<And>j. shard_work s' j = shard_work s j" "tail_work s' < tail_work s"
  shows "(iter_work_left s', iter_work_left s) \<in> less_work"
  using assms by (simp add: iter_work_left_def)

lemma range_less_work: "range_step s s' \<Longrightarrow> (iter_work_left s', iter_work_left s) \<in> less_work"
proof (rule tail_less_work)
  assume step: "range_step s s'"
  show "it_wg s' = it_wg s" using step by cases auto
  show "tail_work s' < tail_work s" using step by cases (auto simp: tail_work_def)
  show "shard_work s' j = shard_work s j" for j
    using step
  proof cases
    case (range_remove k)
    then show ?thesis using Remove_other_shards [of j "it_map s" k]
      by (cases "j = shard_index (it_map s) k") (cases "it_snap s ! j", auto simp: shard_work_def read_locked_def)
  qed (simp_all add: shard_work_def)
qed

lemma iter_less_work:
  assumes inv: "iter_inv ix ms s" and step: "iter_step s s'"
  shows "(iter_work_left s', iter_work_left s) \<in> less_work"
  using step
proof cases
  case iter_work
  then show ?thesis
  proof (cases rule: worker_step.cases)
    case work_return
    then show ?thesis by cases (rule tail_less_work; simp add: shard_work_def tail_work_def make_chan_def)
  next
    case work_close
    then show ?thesis by cases (rule tail_less_work; simp add: shard_work_def tail_work_def)
  qed (rule snap_less_work [OF inv] fan_less_work [OF inv], assumption)+
next
  case iter_range
  then show ?thesis by (rule range_less_work)
qed

lemma other_same_work:
  assumes "other_step x s s'"
  shows "iter_work_left s' = iter_work_left s"
  using assms
proof cases
  case (other_op k)
  have "shard_work s' j = shard_work s j" for j
    using other_op op_reads_same [of x "it_map s"] op_other_shards [of x k j "it_map s"]
    by (cases "j = shard_index (it_map s) k") (cases "it_snap s ! j", auto simp: shard_work_def read_locked_def)
  then show ?thesis using other_op by (simp add: iter_work_left_def tail_work_def)
qed

lemma run_to_end:
  assumes "iter_run s0 xs ms s" "iter_inv ix [it_map s0] s0"
  shows "\<exists>ms' s'. iter_run s0 xs ms' s' \<and> it_range s' = CEnd"
  using assms(1)
proof (induction "iter_work_left s" arbitrary: ms s rule: wf_induct_rule [OF wf_lex_prod [OF wf_less_than wf_less_than]])
  case (1 s ms)
  note inv = run_inv [OF 1(2) assms(2)]
  show ?case
  proof (cases "it_range s = CEnd")
    case False
    then obtain s' where s': "iter_step s s'"
      using worker_can_step [OF inv] range_can_step [OF inv] iter_work iter_range by metis
    show ?thesis by (rule 1(1) [OF iter_less_work [OF inv s'] run_iter [OF 1(2) s']])
  qed (use 1(2) in blast)
qed


subsection \<open>Clear\<close>

text \<open>A key nobody else writes is still to be sent, or on its way to the caller, or being removed, or gone.\<close>

fun still_to_send :: "('k, 'v) snap_pc \<Rightarrow> 'k \<times> 'v \<Rightarrow> bool" where
  "still_to_send SLock e = True"
| "still_to_send (SSend sent) e = (e \<notin> set sent)"
| "still_to_send _ e = False"

definition on_its_way :: "('k, 'v) iter_state \<Rightarrow> 'k \<Rightarrow> bool" where
  "on_its_way s k \<longleftrightarrow> (let i = shard_index (it_map s) k in
     k \<in> fst ` (set (opt_buf (it_chs s ! i)) \<union> set_mset (held (it_fan s ! i)) \<union> set (opt_buf (it_out s)))) \<or>
     it_range s = CRemove k"

definition clear_inv :: "'k \<Rightarrow> ('k, 'v) iter_state \<Rightarrow> bool" where
  "clear_inv k s \<longleftrightarrow> it_clear s \<and> (\<forall>v. cm_Get (it_map s) k = Some v \<longrightarrow>
     still_to_send (it_snap s ! shard_index (it_map s) k) (k, v) \<or> on_its_way s k)"

lemma Get_in_shard: "cm_Get m k = Some v \<Longrightarrow> (k, v) \<in> set (cm_shards m ! shard_index m k)"
  by (simp add: cm_Get_def GetShard_def map_of_SomeD)

lemma clear_inv_mono:
  assumes "clear_inv k s" "it_clear s' = it_clear s" "cm_Get (it_map s') k = cm_Get (it_map s) k \<or> cm_Get (it_map s') k = None"
    and "\<And>v. cm_Get (it_map s) k = Some v \<Longrightarrow> still_to_send (it_snap s ! shard_index (it_map s) k) (k, v) \<Longrightarrow>
      still_to_send (it_snap s' ! shard_index (it_map s') k) (k, v) \<or> on_its_way s' k"
    and "\<And>v. cm_Get (it_map s') k = Some v \<Longrightarrow> on_its_way s k \<Longrightarrow> on_its_way s' k"
  shows "clear_inv k s'"
  using assms unfolding clear_inv_def by (metis option.distinct(1))

lemma snap_clear:
  assumes inv: "iter_inv ix ms s" and step: "snap_step i s s'" and c: "clear_inv k s"
  shows "clear_inv k s'"
proof -
  have len: "length (it_snap s) = ShardCount" "length (it_chs s) = ShardCount" and sh: "shard_inv ix ms s i"
    using inv snap_waits [OF inv step] by (auto simp: inv_parts)
  let ?i = "shard_index (it_map s) k"
  have i: "?i < ShardCount" by (rule shard_index_less)
  from step show ?thesis
  proof cases
    case snap_lock
    have "opt_buf (it_chs s ! i) = []" using sh snap_lock(3) by (simp add: shard_inv_def)
    then show ?thesis
      by (intro clear_inv_mono [OF c]) (use snap_lock len i in \<open>auto simp: on_its_way_def Let_def nth_list_update\<close>)
  next
    case (snap_send sent e ch)
    then show ?thesis
      by (intro clear_inv_mono [OF c]) (use snap_send len i in \<open>auto simp: on_its_way_def Let_def nth_list_update\<close>)
  next
    case (snap_unlock sent)
    then show ?thesis
      by (intro clear_inv_mono [OF c])
        (use snap_unlock len i Get_in_shard [of "it_map s" k] in \<open>auto simp: on_its_way_def Let_def nth_list_update\<close>)
  next
    case (snap_close ch)
    then show ?thesis
      by (intro clear_inv_mono [OF c]) (use snap_close len i in \<open>auto simp: on_its_way_def Let_def nth_list_update\<close>)
  qed
qed

lemma fan_clear:
  assumes inv: "iter_inv ix ms s" and step: "fan_step i s s'" and c: "clear_inv k s"
  shows "clear_inv k s'"
  using step
  by cases (intro clear_inv_mono [OF c];
    use fan_index [OF inv step] in \<open>auto simp: on_its_way_def Let_def nth_list_update split: if_splits\<close>)+

lemma range_clear:
  assumes inv: "iter_inv ix ms s" and step: "range_step s s'" and c: "clear_inv k s"
  shows "clear_inv k s'"
  using step
proof cases
  case (range_recv out e es)
  have "it_clear s" using c by (simp add: clear_inv_def)
  then show ?thesis
    by (intro clear_inv_mono [OF c]) (use range_recv in \<open>auto simp: on_its_way_def Let_def\<close>)
next
  case (range_remove k')
  have "cm_wf (it_map s)" using inv by (auto simp: iter_inv_def maps_inv_def)
  then have g: "cm_Get (it_map s') = (cm_Get (it_map s))(k' := None)" using Remove_wf(2) range_remove by simp
  show ?thesis
    by (intro clear_inv_mono [OF c]) (use range_remove g in \<open>auto simp: on_its_way_def Let_def split: if_splits\<close>)
next
  case range_end
  then show ?thesis by (intro clear_inv_mono [OF c]) (auto simp: on_its_way_def Let_def)
qed

lemma other_clear:
  assumes inv: "iter_inv ix ms s" and step: "other_step x s s'" and c: "clear_inv k s" and "op_key x \<noteq> Some k"
  shows "clear_inv k s'"
  using step
proof cases
  case (other_op k')
  have "cm_wf (it_map s)" using inv by (auto simp: iter_inv_def maps_inv_def)
  then have "cm_Get (it_map s') k = cm_Get (it_map s) k"
    using op_other_keys [OF _ other_op(2), of "it_map s" k] assms(4) other_op by auto
  then show ?thesis
    by (intro clear_inv_mono [OF c]) (use other_op op_index [OF other_op(2)] in \<open>auto simp: on_its_way_def Let_def\<close>)
qed

lemma run_clear:
  assumes "iter_run s0 xs ms s" "iter_inv ix [it_map s0] s0" "clear_inv k s0" "\<forall>x \<in> set xs. op_key x \<noteq> Some k"
  shows "clear_inv k s"
  using assms
proof induction
  case (run_iter xs ms s s')
  note inv = run_inv [OF run_iter(1,4)] and c = run_iter(3) [OF run_iter(4-6)]
  from run_iter(2) show ?case
  proof cases
    case iter_work
    then show ?thesis
    proof (cases rule: worker_step.cases)
      case work_return
      then show ?thesis
        by cases (intro clear_inv_mono [OF c]; auto simp: on_its_way_def Let_def)
    next
      case work_close
      then show ?thesis
        by cases (intro clear_inv_mono [OF c]; auto simp: on_its_way_def Let_def)
    qed (rule snap_clear [OF inv _ c] fan_clear [OF inv _ c], assumption)+
  next
    case iter_range
    then show ?thesis by (rule range_clear [OF inv _ c])
  qed
next
  case (run_other xs ms s x s')
  show ?case
    by (rule other_clear [OF run_inv [OF run_other(1,4)] run_other(2)]) (use run_other in auto)
qed simp

lemma ended_clear:
  assumes inv: "iter_inv ix ms s" and fin: "it_range s = CEnd" and c: "clear_inv k s"
  shows "cm_Get (it_map s) k = None"
proof -
  let ?i = "shard_index (it_map s) k"
  have i: "?i < ShardCount" by (rule shard_index_less)
  obtain out where out: "it_out s = Some out" "ch_buf out = []" "it_fan_wg s = 0"
    using inv fin by (auto simp: iter_inv_def out_inv_def split: option.splits)
  have "it_fan s ! ?i = FDone" using out(3) inv i by (simp add: inv_parts num_zero_iff)
  moreover have "shard_inv ix ms s ?i" using inv i by (simp add: iter_inv_def)
  ultimately have "it_snap s ! ?i = SDone \<and> opt_buf (it_chs s ! ?i) = []"
    by (cases "it_snap s ! ?i") (auto simp: shard_inv_def)
  then show ?thesis
    using c out fin \<open>it_fan s ! ?i = FDone\<close>
    by (cases "cm_Get (it_map s) k") (auto simp: clear_inv_def on_its_way_def)
qed


subsection \<open>IterCb and Count beside writers\<close>

text \<open>
  \<open>IterCb\<close> and \<open>Count\<close> read one shard after the other, each under its read lock; between two shards other
  goroutines may write anywhere. What the callback adds up is threaded as a state.
\<close>

record ('k, 'v, 's) cb_state =
  cb_map :: "('k, 'v) concurrent_map"
  cb_idx :: nat
  cb_acc :: 's

inductive cb_run :: "('k \<Rightarrow> 'v \<Rightarrow> 's \<Rightarrow> 's) \<Rightarrow> ('k, 'v) concurrent_map \<Rightarrow> 's \<Rightarrow> ('k, 'v) concurrent_map list \<Rightarrow>
    ('k, 'v, 's) cb_state \<Rightarrow> bool" for fn m0 acc0 where
  cb_start: "cb_run fn m0 acc0 [m0] \<lparr>cb_map = m0, cb_idx = 0, cb_acc = acc0\<rparr>"
| cb_shard: "cb_run fn m0 acc0 ms s \<Longrightarrow> cb_idx s < length (cm_shards (cb_map s)) \<Longrightarrow>
    cb_run fn m0 acc0 ms (s\<lparr>cb_acc := fold (\<lambda>(k, v) a. fn k v a) (cm_shards (cb_map s) ! cb_idx s) (cb_acc s),
      cb_idx := Suc (cb_idx s)\<rparr>)"
| cb_other: "cb_run fn m0 acc0 ms s \<Longrightarrow> op_key x = Some k \<Longrightarrow>
    cb_run fn m0 acc0 (ms @ [snd (cm_exec x (cb_map s))]) (s\<lparr>cb_map := snd (cm_exec x (cb_map s))\<rparr>)"

text \<open>The shards read so far, each as it was at some moment since the call.\<close>

lemma cb_visited:
  assumes "cb_run fn m0 acc0 ms s" "cm_wf m0"
  shows "cb_map s \<in> set ms \<and> (\<forall>m \<in> set ms. cm_wf m \<and> shard_index m = shard_index m0) \<and> cb_idx s \<le> ShardCount \<and>
    (\<exists>f. (\<forall>i < cb_idx s. f i \<in> set ms) \<and>
      cb_acc s = fold (\<lambda>(k, v) a. fn k v a) (concat (map (\<lambda>i. cm_shards (f i) ! i) [0..<cb_idx s])) acc0)"
  using assms
proof induction
  case (cb_shard ms s)
  then obtain f where f: "\<forall>i < cb_idx s. f i \<in> set ms"
    "cb_acc s = fold (\<lambda>(k, v) a. fn k v a) (concat (map (\<lambda>i. cm_shards (f i) ! i) [0..<cb_idx s])) acc0" by blast
  let ?f = "f(cb_idx s := cb_map s)"
  have mp: "map (\<lambda>i. cm_shards (?f i) ! i) [0..<Suc (cb_idx s)]
      = map (\<lambda>i. cm_shards (f i) ! i) [0..<cb_idx s] @ [cm_shards (cb_map s) ! cb_idx s]" by simp
  have "fold (\<lambda>(k, v) a. fn k v a) (cm_shards (cb_map s) ! cb_idx s) (cb_acc s)
      = fold (\<lambda>(k, v) a. fn k v a) (concat (map (\<lambda>i. cm_shards (?f i) ! i) [0..<Suc (cb_idx s)])) acc0"
    unfolding mp using f(2) by simp
  moreover have ms: "cb_map s \<in> set ms" "\<forall>m \<in> set ms. cm_wf m \<and> shard_index m = shard_index m0"
    using cb_shard(3) [OF cb_shard(4)] by blast+
  moreover have "cb_idx s < ShardCount"
  proof -
    have "cm_wf (cb_map s)" using ms by blast
    then show ?thesis using cb_shard(2) by (simp add: cm_wf_def)
  qed
  moreover have "\<forall>i < Suc (cb_idx s). ?f i \<in> set ms" using f(1) ms(1) by (simp add: less_Suc_eq)
  ultimately show ?case by (auto intro!: exI [of _ ?f] simp del: fun_upd_apply upt_Suc)
next
  case (cb_other ms s x k)
  then obtain f where f: "\<forall>i < cb_idx s. f i \<in> set ms"
    "cb_acc s = fold (\<lambda>(k, v) a. fn k v a) (concat (map (\<lambda>i. cm_shards (f i) ! i) [0..<cb_idx s])) acc0" by blast
  have "cm_wf (snd (cm_exec x (cb_map s)))" "shard_index (snd (cm_exec x (cb_map s))) = shard_index m0"
    using cb_other op_wf op_index [OF cb_other(2)] by auto
  then show ?case using cb_other f by (auto intro!: exI [of _ f])
qed simp

text \<open>
  \<open>IterCb\<close> on a map that others change: when the last shard is read, the callback has run exactly once
  for each of a list of entries with distinct keys, which shard by shard are what the map held at one
  moment since the call. So a key whose value never changed meanwhile is visited exactly once with that
  value, and one that was never there is not visited; with a callback that counts, this is \<open>Count\<close>.
\<close>

lemma IterCb_beside_writers:
  assumes run: "cb_run fn m acc0 ms s" and wf: "cm_wf m" and fin: "cb_idx s = ShardCount"
  shows "\<exists>es. cb_acc s = fold (\<lambda>(k, v) a. fn k v a) es acc0 \<and> distinct (map fst es) \<and>
    (\<forall>k r. (\<forall>m' \<in> set ms. cm_Get m' k = r) \<longrightarrow> map_of es k = r)"
proof -
  obtain f where f: "\<forall>i < ShardCount. f i \<in> set ms" and ms: "\<forall>m' \<in> set ms. cm_wf m' \<and> shard_index m' = shard_index m"
    and acc: "cb_acc s = fold (\<lambda>(k, v) a. fn k v a) (concat (map (\<lambda>i. cm_shards (f i) ! i) [0..<ShardCount])) acc0"
    using cb_visited [OF run wf] fin by auto
  text \<open>The shards read are the shards of one well-formed map.\<close>
  define g where "g = m\<lparr>cm_shards := map (\<lambda>i. cm_shards (f i) ! i) [0..<ShardCount]\<rparr>"
  have ix: "shard_index g = shard_index m" by (simp add: g_def shard_index_def fun_eq_iff)
  have "distinct (map fst (cm_shards (f i) ! i)) \<and> (\<forall>k \<in> fst ` set (cm_shards (f i) ! i). shard_index m k = i)"
    if i: "i < ShardCount" for i
  proof -
    have "cm_wf (f i)" "shard_index (f i) = shard_index m" using f ms i by auto
    then show ?thesis using i by (simp add: cm_wf_def)
  qed
  then have "cm_wf g" unfolding cm_wf_def ix by (simp add: g_def)
  moreover have es: "cm_IterBuffered g = concat (map (\<lambda>i. cm_shards (f i) ! i) [0..<ShardCount])"
    by (simp add: cm_IterBuffered_def g_def)
  moreover have "cm_Get g k = r" if "\<forall>m' \<in> set ms. cm_Get m' k = r" for k r
  proof -
    have i: "shard_index m k < ShardCount" by (rule shard_index_less)
    then have "cm_Get g k = cm_Get (f (shard_index m k)) k"
      using f ms by (simp add: cm_Get_def GetShard_def ix) (simp add: g_def)
    then show ?thesis using that f i by simp
  qed
  ultimately show ?thesis using acc entries_distinct [of g] entries_Get [of g] by (metis (no_types))
qed

subsection \<open>Properties\<close>

text \<open>
  C26. Iterating a map that others change gives a snapshot of every shard: once \<open>IterBuffered\<close> is
  drained, whatever operations other goroutines made meanwhile and however the goroutines interleaved,
  no key was delivered twice, and for every shard there is one moment since the call at which the map
  held, on the keys of that shard, exactly the entries \<open>Items\<close> returns. A key whose value never changed
  during the iteration is returned with that value, and one that was never there is not returned.
\<close>

theorem iteration_is_a_snapshot_per_shard:
  assumes "cm_wf m" "snapshot_start clear m = Some s0" "iter_run s0 xs ms s" "it_range s = CEnd"
  shows "distinct (map fst (it_got s)) \<and>
    (\<forall>i < ShardCount. \<exists>m' \<in> set ms. \<forall>k. shard_index m k = i \<longrightarrow> map_of (collect_items (it_got s)) k = cm_Get m' k) \<and>
    (\<forall>k r. (\<forall>m' \<in> set ms. cm_Get m' k = r) \<longrightarrow> map_of (collect_items (it_got s)) k = r)"
proof -
  note inv = run_inv [OF assms(3) iter_start_inv(1) [OF assms(1,2)]]
  have "map_of (collect_items (it_got s)) k = r" if "\<forall>m' \<in> set ms. cm_Get m' k = r" for k r
    using got_lookup [OF inv assms(4) shard_index_less [of m k]] that by force
  then show ?thesis using got_distinct [OF inv assms(4)] got_lookup [OF inv assms(4)] by blast
qed

text \<open>A small map, and an iteration of it that has ended.\<close>

definition sample_map :: "(u64, nat) concurrent_map" where
  "sample_map = snd (cm_Set (snd (cm_Set NewIntC 1 10)) 2 20)"

lemma sample_wf: "cm_wf sample_map"
  unfolding sample_map_def cm_Set_def Let_def NewIntC_def snd_conv
  by (rule put_update(1), rule put_update(1), rule cm_create_wf(1))

lemma sample_run:
  obtains s0 ms s where "snapshot_start clear sample_map = Some s0" "iter_run s0 [] ms s" "it_range s = CEnd"
proof -
  have "cm_shards sample_map \<noteq> []" using sample_wf by (auto simp: cm_wf_def ShardCount_def)
  then obtain s0 where s0: "snapshot_start clear sample_map = Some s0" by (simp add: snapshot_start_def)
  show ?thesis
    using run_to_end [OF run_start iter_start_inv(1) [OF sample_wf s0]] that [OF s0] by blast
qed

theorem iteration_is_a_snapshot_per_shard_witness:
  "\<exists>s0 ms s. snapshot_start False sample_map = Some s0 \<and> iter_run s0 [] ms s \<and> it_range s = CEnd \<and>
     distinct (map fst (it_got s)) \<and>
     (\<exists>m' \<in> set ms. \<forall>k. shard_index sample_map k = 0 \<longrightarrow> map_of (collect_items (it_got s)) k = cm_Get m' k)"
proof (rule sample_run [of False])
  fix s0 ms s
  assume r: "snapshot_start False sample_map = Some s0" "iter_run s0 [] ms s" "it_range s = CEnd"
  have "(0 :: nat) < ShardCount" by (simp add: ShardCount_def)
  then show ?thesis using iteration_is_a_snapshot_per_shard [OF sample_wf r] r by blast
qed

text \<open>
  Iterating neither hangs nor pins a lock: in every state of an iteration, each goroutine of
  \<open>snapshot\<close> that has not ended can go on by itself (so it gives its read lock back even if nobody
  receives), as long as the goroutines are not all done one of them can go on without the caller, and
  the caller's loop can always go on to its end. Every step lowers the work left, which the operations
  of other goroutines leave as it is.
\<close>

lemma iteration_never_waits_for_its_caller:
  assumes "cm_wf m" "snapshot_start clear m = Some s0" "iter_run s0 xs ms s"
  shows "(\<forall>i < ShardCount. it_snap s ! i \<noteq> SDone \<longrightarrow> (\<exists>s'. snap_step i s s')) \<and>
    (\<not> workers_done s \<longrightarrow> (\<exists>s'. worker_step s s')) \<and>
    (it_range s \<noteq> CEnd \<longrightarrow> (\<exists>s'. iter_step s s')) \<and>
    (\<forall>s'. iter_step s s' \<longrightarrow> (iter_work_left s', iter_work_left s) \<in> less_than <*lex*> less_than) \<and>
    (\<forall>x s'. other_step x s s' \<longrightarrow> iter_work_left s' = iter_work_left s)"
proof -
  note inv = run_inv [OF assms(3) iter_start_inv(1) [OF assms(1,2)]]
  have "\<exists>s'. iter_step s s'" if "it_range s \<noteq> CEnd"
    using worker_can_step [OF inv] range_can_step [OF inv _ that] iter_work iter_range by metis
  then show ?thesis
    using snap_can_step [OF inv] worker_can_step [OF inv] iter_less_work [OF inv] other_same_work by blast
qed

text \<open>
  \<open>Clear\<close> beside other writers: when its loop has ended, a key that no other goroutine operated on
  meanwhile is gone.
\<close>

lemma clear_removes_what_nobody_rewrites:
  assumes "cm_wf m" "snapshot_start True m = Some s0" "iter_run s0 xs ms s" "it_range s = CEnd"
    and "\<forall>x \<in> set xs. op_key x \<noteq> Some k"
  shows "cm_Get (it_map s) k = None"
proof -
  note s0 = iter_start_inv [OF assms(1,2)]
  have "length (cm_shards m) = ShardCount" using assms(1) by (simp add: cm_wf_def)
  then have "clear_inv k s0"
    using assms(2) shard_index_less [of m k] by (auto simp: clear_inv_def snapshot_start_def split: if_splits)
  then show ?thesis
    using ended_clear [OF run_inv [OF assms(3) s0(1)] assms(4)] run_clear [OF assms(3) s0(1) _ assms(5)] by blast
qed

end
