(* ===== verification/Map_Keys.thy ===== *)
theory Map_Keys
  imports Map_Snapshot
begin

section \<open>Listing the keys of a map that others change: Keys\<close>

text \<open>
  \<open>Keys\<close> of \<open>al/safemap\<close> with its goroutines, while other goroutines use the map. The caller counts the entries shard by
  shard, makes a channel of that capacity, and ranges over it; one goroutine per shard sends the keys
  of the shard while it holds the read lock, and one more closes the channel when all have reported.
  The count may be stale when the keys are sent, so that a sender may find the channel full, or of
  capacity zero: then it waits for the caller, who receives from it directly when the buffer is empty.
\<close>

datatype 'k key_pc = KeyLock | KeySend "'k list" | KeyUnlocked | KeyDone

record ('k, 'v) keys_state =
  ky_map :: "('k, 'v) concurrent_map"
  ky_idx :: nat
  ky_count :: nat
  ky_cap :: "nat option"
  ky_pcs :: "'k key_pc list"
  ky_wg :: nat
  ky_buf :: "'k list"
  ky_closed :: bool
  ky_got :: "'k list"
  ky_end :: bool

definition keys_start :: "('k, 'v) concurrent_map \<Rightarrow> ('k, 'v) keys_state" where
  "keys_start m = \<lparr>ky_map = m, ky_idx = 0, ky_count = 0, ky_cap = None, ky_pcs = replicate (length (cm_shards m)) KeyLock,
     ky_wg = ShardCount, ky_buf = [], ky_closed = False, ky_got = [], ky_end = False\<rparr>"

abbreviation ky_items :: "('k, 'v) keys_state \<Rightarrow> nat \<Rightarrow> 'k list" where
  "ky_items s i \<equiv> map fst (cm_shards (ky_map s) ! i)"

definition keys_locked :: "('k, 'v) keys_state \<Rightarrow> nat \<Rightarrow> bool" where
  "keys_locked s i = (case ky_pcs s ! i of KeySend _ \<Rightarrow> True | _ \<Rightarrow> False)"

text \<open>\<open>Count\<close>, then the channel.\<close>

inductive keys_count :: "('k, 'v) keys_state \<Rightarrow> ('k, 'v) keys_state \<Rightarrow> bool" where
  count_shard: "ky_cap s = None \<Longrightarrow> ky_idx s < ShardCount \<Longrightarrow>
    keys_count s (s\<lparr>ky_count := ky_count s + length (cm_shards (ky_map s) ! ky_idx s), ky_idx := Suc (ky_idx s)\<rparr>)"
| count_done: "ky_cap s = None \<Longrightarrow> \<not> ky_idx s < ShardCount \<Longrightarrow> keys_count s (s\<lparr>ky_cap := Some (ky_count s)\<rparr>)"

text \<open>The goroutine of shard \<open>i\<close>; a send goes into the buffer, or to the caller who waits on an empty one.\<close>

inductive key_step :: "nat \<Rightarrow> ('k, 'v) keys_state \<Rightarrow> ('k, 'v) keys_state \<Rightarrow> bool" for i where
  key_lock: "i < length (ky_pcs s) \<Longrightarrow> ky_pcs s ! i = KeyLock \<Longrightarrow> ky_cap s = Some n \<Longrightarrow>
    key_step i s (s\<lparr>ky_pcs := (ky_pcs s)[i := KeySend []]\<rparr>)"
| key_send: "i < length (ky_pcs s) \<Longrightarrow> ky_pcs s ! i = KeySend sent \<Longrightarrow> k \<in> set (ky_items s i) \<Longrightarrow> k \<notin> set sent \<Longrightarrow>
    ky_cap s = Some n \<Longrightarrow> length (ky_buf s) < n \<Longrightarrow>
    key_step i s (s\<lparr>ky_pcs := (ky_pcs s)[i := KeySend (sent @ [k])], ky_buf := ky_buf s @ [k]\<rparr>)"
| key_hand: "i < length (ky_pcs s) \<Longrightarrow> ky_pcs s ! i = KeySend sent \<Longrightarrow> k \<in> set (ky_items s i) \<Longrightarrow> k \<notin> set sent \<Longrightarrow>
    ky_buf s = [] \<Longrightarrow> \<not> ky_end s \<Longrightarrow>
    key_step i s (s\<lparr>ky_pcs := (ky_pcs s)[i := KeySend (sent @ [k])], ky_got := ky_got s @ [k]\<rparr>)"
| key_unlock: "i < length (ky_pcs s) \<Longrightarrow> ky_pcs s ! i = KeySend sent \<Longrightarrow> set (ky_items s i) \<subseteq> set sent \<Longrightarrow>
    key_step i s (s\<lparr>ky_pcs := (ky_pcs s)[i := KeyUnlocked]\<rparr>)"
| key_report: "i < length (ky_pcs s) \<Longrightarrow> ky_pcs s ! i = KeyUnlocked \<Longrightarrow>
    key_step i s (s\<lparr>ky_pcs := (ky_pcs s)[i := KeyDone], ky_wg := ky_wg s - 1\<rparr>)"

inductive keys_close :: "('k, 'v) keys_state \<Rightarrow> ('k, 'v) keys_state \<Rightarrow> bool" where
  keys_closes: "\<not> ky_closed s \<Longrightarrow> ky_cap s = Some n \<Longrightarrow> ky_wg s = 0 \<Longrightarrow> keys_close s (s\<lparr>ky_closed := True\<rparr>)"

inductive keys_range :: "('k, 'v) keys_state \<Rightarrow> ('k, 'v) keys_state \<Rightarrow> bool" where
  keys_recv: "\<not> ky_end s \<Longrightarrow> ky_buf s = k # ks \<Longrightarrow> keys_range s (s\<lparr>ky_buf := ks, ky_got := ky_got s @ [k]\<rparr>)"
| keys_ends: "\<not> ky_end s \<Longrightarrow> ky_buf s = [] \<Longrightarrow> ky_closed s \<Longrightarrow> keys_range s (s\<lparr>ky_end := True\<rparr>)"

inductive keys_step :: "('k, 'v) keys_state \<Rightarrow> ('k, 'v) keys_state \<Rightarrow> bool" where
  ks_count: "keys_count s s' \<Longrightarrow> keys_step s s'"
| ks_key: "key_step i s s' \<Longrightarrow> keys_step s s'"
| ks_close: "keys_close s s' \<Longrightarrow> keys_step s s'"
| ks_range: "keys_range s s' \<Longrightarrow> keys_step s s'"

inductive keys_other :: "('k, 'v) map_op \<Rightarrow> ('k, 'v) keys_state \<Rightarrow> ('k, 'v) keys_state \<Rightarrow> bool" where
  keys_op: "op_key x = Some k \<Longrightarrow> op_reads x \<or> \<not> keys_locked s (shard_index (ky_map s) k) \<Longrightarrow>
    keys_other x s (s\<lparr>ky_map := snd (cm_exec x (ky_map s))\<rparr>)"

inductive keys_run :: "('k, 'v) concurrent_map \<Rightarrow> ('k, 'v) concurrent_map list \<Rightarrow> ('k, 'v) keys_state \<Rightarrow> bool" for m where
  keys_init: "keys_run m [m] (keys_start m)"
| keys_own: "keys_run m ms s \<Longrightarrow> keys_step s s' \<Longrightarrow> keys_run m ms s'"
| keys_env: "keys_run m ms s \<Longrightarrow> keys_other x s s' \<Longrightarrow> keys_run m (ms @ [ky_map s']) s'"

inductive_cases keys_countE: "keys_count s s'"
inductive_cases key_stepE: "key_step i s s'"
inductive_cases keys_closeE: "keys_close s s'"
inductive_cases keys_rangeE: "keys_range s s'"
inductive_cases keys_otherE: "keys_other x s s'"

subsection \<open>Invariant\<close>

definition key_flow :: "('k \<Rightarrow> nat) \<Rightarrow> ('k, 'v) keys_state \<Rightarrow> nat \<Rightarrow> 'k multiset" where
  "key_flow ix s i = filter_mset (\<lambda>k. ix k = i) (mset (ky_buf s) + mset (ky_got s))"

definition keys_from :: "('k \<Rightarrow> nat) \<Rightarrow> ('k, 'v) concurrent_map list \<Rightarrow> ('k, 'v) keys_state \<Rightarrow> nat \<Rightarrow> bool" where
  "keys_from ix ms s i \<longleftrightarrow> (\<exists>m \<in> set ms. key_flow ix s i = mset (map fst (cm_shards m ! i)))"

definition key_inv :: "('k \<Rightarrow> nat) \<Rightarrow> ('k, 'v) concurrent_map list \<Rightarrow> ('k, 'v) keys_state \<Rightarrow> nat \<Rightarrow> bool" where
  "key_inv ix ms s i \<longleftrightarrow> (case ky_pcs s ! i of
     KeyLock \<Rightarrow> key_flow ix s i = {#}
   | KeySend sent \<Rightarrow> distinct sent \<and> set sent \<subseteq> set (ky_items s i) \<and> key_flow ix s i = mset sent
   | _ \<Rightarrow> keys_from ix ms s i)"

definition keys_inv :: "('k \<Rightarrow> nat) \<Rightarrow> ('k, 'v) concurrent_map list \<Rightarrow> ('k, 'v) keys_state \<Rightarrow> bool" where
  "keys_inv ix ms s \<longleftrightarrow> ky_map s \<in> set ms \<and> (\<forall>m \<in> set ms. cm_wf m \<and> shard_index m = ix) \<and>
     length (ky_pcs s) = ShardCount \<and> ky_wg s = num (\<lambda>p. p \<noteq> KeyDone) (ky_pcs s) \<and>
     (ky_cap s = None \<longrightarrow> list_all (\<lambda>p. p = KeyLock) (ky_pcs s) \<and> ky_idx s \<le> ShardCount) \<and>
     (ky_closed s \<longrightarrow> ky_wg s = 0) \<and> (ky_end s \<longrightarrow> ky_closed s \<and> ky_buf s = []) \<and>
     (\<forall>i < ShardCount. key_inv ix ms s i)"

lemma key_frame:
  assumes "key_inv ix ms s j" "ky_pcs s' ! j = ky_pcs s ! j" "key_flow ix s' j = key_flow ix s j" "set ms \<subseteq> set ms'"
    and "\<And>sent. ky_pcs s ! j = KeySend sent \<Longrightarrow> cm_shards (ky_map s') ! j = cm_shards (ky_map s) ! j"
  shows "key_inv ix ms' s' j"
  using assms by (cases "ky_pcs s ! j") (auto simp: key_inv_def keys_from_def)

text \<open>A step that moves no goroutine of a shard and no key.\<close>

lemma keys_inv_move:
  assumes inv: "keys_inv ix ms s" and same: "ky_map s' = ky_map s" "ky_pcs s' = ky_pcs s" "ky_wg s' = ky_wg s"
    and pool: "mset (ky_buf s') + mset (ky_got s') = mset (ky_buf s) + mset (ky_got s)"
    and "ky_cap s' = None \<longrightarrow> ky_cap s = None \<and> ky_idx s' \<le> ShardCount"
    and "ky_closed s' \<longrightarrow> ky_wg s = 0" "ky_end s' \<longrightarrow> ky_closed s' \<and> ky_buf s' = []"
  shows "keys_inv ix ms s'"
proof -
  have "key_inv ix ms s' j" if "j < ShardCount" for j
    by (rule key_frame [of ix ms s]) (use that inv pool same in \<open>simp_all add: keys_inv_def key_flow_def\<close>)
  then show ?thesis using assms by (simp add: keys_inv_def)
qed

lemma keys_shard:
  assumes "keys_inv ix ms s" "m \<in> set ms" "i < ShardCount"
  shows "distinct (map fst (cm_shards m ! i))" "k \<in> set (map fst (cm_shards m ! i)) \<Longrightarrow> ix k = i"
proof -
  have w: "cm_wf m" "shard_index m = ix" using assms(1,2) by (auto simp: keys_inv_def)
  show "distinct (map fst (cm_shards m ! i))" "k \<in> set (map fst (cm_shards m ! i)) \<Longrightarrow> ix k = i"
    using w assms(3) by (auto simp: cm_wf_def)
qed

lemma key_step_bounds:
  assumes inv: "keys_inv ix ms s" and step: "key_step i s s'"
  shows "i < ShardCount" "length (ky_pcs s) = ShardCount" "ky_cap s \<noteq> None" "\<not> ky_closed s" "\<not> ky_end s"
proof -
  have i: "i < length (ky_pcs s)" "ky_pcs s ! i \<noteq> KeyDone" "ky_pcs s ! i = KeyLock \<longrightarrow> ky_cap s \<noteq> None"
    using step by (auto elim!: key_stepE)
  show len: "length (ky_pcs s) = ShardCount" using inv by (simp add: keys_inv_def)
  then show "i < ShardCount" using i(1) by simp
  show "ky_cap s \<noteq> None" using inv i by (auto simp: keys_inv_def list_all_length)
  have "0 < ky_wg s" using inv num_pos_if_nth [OF i(1), of "\<lambda>p. p \<noteq> KeyDone"] i(2) by (simp add: keys_inv_def)
  then show "\<not> ky_closed s" "\<not> ky_end s" using inv by (auto simp: keys_inv_def)
qed

lemma key_step_own:
  assumes inv: "keys_inv ix ms s" and step: "key_step i s s'"
  shows "key_inv ix ms s' i"
proof -
  note b = key_step_bounds [OF assms]
  have k: "key_inv ix ms s i" and m: "ky_map s \<in> set ms" using inv b(1) by (auto simp: keys_inv_def)
  note sh = keys_shard [OF inv m b(1)]
  from step show ?thesis
  proof cases
    case (key_lock n)
    then show ?thesis using k b by (simp add: key_inv_def key_flow_def)
  next
    case (key_send sent k n)
    then show ?thesis using k b sh(2) [of k] \<open>key_inv ix ms s i\<close> by (auto simp: key_inv_def key_flow_def)
  next
    case (key_hand sent k)
    then show ?thesis using b sh(2) [of k] \<open>key_inv ix ms s i\<close> by (auto simp: key_inv_def key_flow_def)
  next
    case (key_unlock sent)
    have "distinct sent" "set sent = set (ky_items s i)" using key_unlock(3,4) k by (auto simp: key_inv_def)
    then have "mset sent = mset (ky_items s i)" using set_eq_iff_mset_eq_distinct [OF _ sh(1)] by blast
    then show ?thesis using key_unlock k b m by (auto simp: key_inv_def key_flow_def keys_from_def)
  next
    case key_report
    then show ?thesis using k b by (simp add: key_inv_def key_flow_def keys_from_def)
  qed
qed

lemma key_step_inv:
  assumes inv: "keys_inv ix ms s" and step: "key_step i s s'"
  shows "keys_inv ix ms s'"
proof -
  note b = key_step_bounds [OF assms]
  have m: "ky_map s \<in> set ms" using inv by (simp add: keys_inv_def)
  have other: "key_inv ix ms s' j" if "j < ShardCount" "j \<noteq> i" for j
  proof (rule key_frame [of ix ms s])
    show "key_flow ix s' j = key_flow ix s j"
      using step that keys_shard(2) [OF inv m b(1)] by cases (auto simp: key_flow_def)
  qed (use step that inv in \<open>auto simp: keys_inv_def elim!: key_stepE\<close>)
  have "ky_wg s' = num (\<lambda>p. p \<noteq> KeyDone) (ky_pcs s')"
  proof -
    have n: "0 < num (\<lambda>p. p \<noteq> KeyDone) (ky_pcs s)" if "ky_pcs s ! i \<noteq> KeyDone"
      using num_pos_if_nth [of i "ky_pcs s" "\<lambda>p. p \<noteq> KeyDone"] that b by simp
    from step show ?thesis by cases (use n inv b in \<open>auto simp: keys_inv_def num_update\<close>)
  qed
  moreover have "\<forall>j < ShardCount. key_inv ix ms s' j" using other key_step_own [OF assms] by blast
  moreover have "ky_map s' = ky_map s" "length (ky_pcs s') = length (ky_pcs s)" "ky_cap s' = ky_cap s"
    "ky_closed s' = ky_closed s" "ky_end s' = ky_end s" using step by (cases; simp)+
  ultimately show ?thesis using inv b by (auto simp: keys_inv_def)
qed

lemma keys_step_inv:
  assumes inv: "keys_inv ix ms s" and step: "keys_step s s'"
  shows "keys_inv ix ms s'"
  using step
proof cases
  case ks_count
  then show ?thesis by cases (rule keys_inv_move [OF inv]; use inv in \<open>auto simp: keys_inv_def\<close>)+
next
  case (ks_key i)
  then show ?thesis by (rule key_step_inv [OF inv])
next
  case ks_close
  then show ?thesis by cases (rule keys_inv_move [OF inv]; use inv in \<open>auto simp: keys_inv_def\<close>)
next
  case ks_range
  then show ?thesis by cases (rule keys_inv_move [OF inv]; use inv in \<open>auto simp: keys_inv_def\<close>)+
qed

lemma keys_other_inv:
  assumes inv: "keys_inv ix ms s" and step: "keys_other x s s'"
  shows "keys_inv ix (ms @ [ky_map s']) s'"
  using step
proof cases
  case (keys_op k)
  have m: "cm_wf (ky_map s)" "shard_index (ky_map s) = ix" using inv by (auto simp: keys_inv_def)
  have same: "cm_shards (ky_map s') ! j = cm_shards (ky_map s) ! j" if "keys_locked s j" for j
    using keys_op that op_reads_same [of x "ky_map s"] op_other_shards [OF keys_op(2), of j "ky_map s"] by auto
  have "key_inv ix (ms @ [ky_map s']) s' j" if "j < ShardCount" for j
  proof (rule key_frame [of ix ms s])
    show "cm_shards (ky_map s') ! j = cm_shards (ky_map s) ! j" if "ky_pcs s ! j = KeySend sent" for sent
      using same [of j] that by (simp add: keys_locked_def)
  qed (use inv that keys_op in \<open>auto simp: keys_inv_def key_flow_def\<close>)
  moreover have "cm_wf (ky_map s')" "shard_index (ky_map s') = ix"
    using m op_wf [of "ky_map s" x] op_index [OF keys_op(2), of "ky_map s"] keys_op(1) by simp_all
  ultimately show ?thesis using inv keys_op(1) by (auto simp: keys_inv_def)
qed

lemma keys_run_inv: "keys_run m ms s \<Longrightarrow> cm_wf m \<Longrightarrow> keys_inv (shard_index m) ms s"
proof (induction rule: keys_run.induct)
  case keys_init
  then show ?case
    by (simp add: keys_inv_def keys_start_def key_inv_def key_flow_def cm_wf_def num_def list_all_length)
next
  case (keys_own ms s s')
  show ?case by (rule keys_step_inv [OF keys_own(3) [OF keys_own(4)] keys_own(2)])
next
  case (keys_env ms s x s')
  show ?case by (rule keys_other_inv [OF keys_env(3) [OF keys_env(4)] keys_env(2)])
qed

subsection \<open>What Keys returns\<close>

lemma keys_ended:
  assumes inv: "keys_inv ix ms s" and fin: "ky_end s" and i: "i < ShardCount"
  shows "\<exists>m' \<in> set ms. mset (filter (\<lambda>k. ix k = i) (ky_got s)) = mset (map fst (cm_shards m' ! i))"
proof -
  have "num (\<lambda>p. p \<noteq> KeyDone) (ky_pcs s) = 0" "ky_buf s = []" "length (ky_pcs s) = ShardCount" "key_inv ix ms s i"
    using inv fin i by (auto simp: keys_inv_def)
  then have "ky_pcs s ! i = KeyDone" using i by (auto simp: num_zero_iff)
  then show ?thesis using \<open>key_inv ix ms s i\<close> \<open>ky_buf s = []\<close> by (simp add: key_inv_def keys_from_def key_flow_def)
qed

text \<open>
  \<open>Keys\<close> on a map that others change: it returns no key twice, and shard by shard exactly the keys the
  map held at one moment since the call, however stale the count was that sized its channel.
\<close>

lemma keys_are_a_snapshot_per_shard:
  assumes "cm_wf m" "keys_run m ms s" "ky_end s"
  shows "distinct (ky_got s) \<and>
    (\<forall>i < ShardCount. \<exists>m' \<in> set ms. \<forall>k. shard_index m k = i \<longrightarrow> (k \<in> set (ky_got s) \<longleftrightarrow> cm_Get m' k \<noteq> None))"
proof -
  let ?ix = "shard_index m"
  note inv = keys_run_inv [OF assms(2,1)]
  have "distinct (map (\<lambda>k. k) (ky_got s))"
  proof (rule distinct_by_class [where ix = ?ix])
    fix k
    obtain m' where m': "m' \<in> set ms" "mset (filter (\<lambda>y. ?ix y = ?ix k) (ky_got s)) = mset (map fst (cm_shards m' ! ?ix k))"
      using keys_ended [OF inv assms(3) shard_index_less [of m k]] by blast
    show "distinct (map (\<lambda>k. k) (filter (\<lambda>y. ?ix y = ?ix k) (ky_got s)))"
      using keys_shard(1) [OF inv m'(1) shard_index_less, of m k] mset_eq_imp_distinct_iff [OF m'(2)] by simp
  qed
  moreover have "\<exists>m' \<in> set ms. \<forall>k. ?ix k = i \<longrightarrow> (k \<in> set (ky_got s) \<longleftrightarrow> cm_Get m' k \<noteq> None)" if i: "i < ShardCount" for i
  proof -
    obtain m' where m': "m' \<in> set ms" "mset (filter (\<lambda>y. ?ix y = i) (ky_got s)) = mset (map fst (cm_shards m' ! i))"
      using keys_ended [OF inv assms(3) i] by blast
    have st: "set (filter (\<lambda>y. ?ix y = i) (ky_got s)) = set (map fst (cm_shards m' ! i))" by (rule mset_eq_setD [OF m'(2)])
    have "k \<in> set (ky_got s) \<longleftrightarrow> cm_Get m' k \<noteq> None" if k: "?ix k = i" for k
    proof -
      have "shard_index m' = ?ix" using inv m'(1) unfolding keys_inv_def by blast
      then have "shard_index m' k = i" using k by simp
      moreover have "k \<in> set (ky_got s) \<longleftrightarrow> k \<in> set (map fst (cm_shards m' ! i))" using k unfolding st [symmetric] by simp
      ultimately show ?thesis by (simp add: cm_Get_def GetShard_def map_of_eq_None_iff)
    qed
    then show ?thesis using m'(1) by blast
  qed
  ultimately show ?thesis by simp
qed


subsection \<open>Keys returns\<close>

fun key_work :: "'k list \<Rightarrow> 'k key_pc \<Rightarrow> nat" where
  "key_work items (KeySend sent) = 2 + 3 * (length items - length sent)"
| "key_work items KeyUnlocked = 1"
| "key_work items _ = 0"

definition keys_work :: "('k, 'v) keys_state \<Rightarrow> nat \<times> nat \<times> nat" where
  "keys_work s = (ShardCount - ky_idx s + (if ky_cap s = None then 1 else 0), num (\<lambda>p. p = KeyLock) (ky_pcs s),
     (\<Sum>i<ShardCount. key_work (ky_items s i) (ky_pcs s ! i)) + 2 * length (ky_buf s) +
     (if ky_closed s then 0 else 1) + (if ky_end s then 0 else 1))"

abbreviation less_keys :: "((nat \<times> nat \<times> nat) \<times> nat \<times> nat \<times> nat) set" where
  "less_keys \<equiv> less_than <*lex*> less_than <*lex*> less_than"

lemma key_less_work:
  assumes inv: "keys_inv ix ms s" and step: "key_step i s s'"
  shows "(keys_work s', keys_work s) \<in> less_keys"
proof -
  note b = key_step_bounds [OF assms]
  have k: "key_inv ix ms s i" using inv b(1) by (simp add: keys_inv_def)
  let ?f = "\<lambda>s j. key_work (ky_items s j) (ky_pcs s ! j)"
  have same: "ky_map s' = ky_map s" "ky_cap s' = ky_cap s" "ky_idx s' = ky_idx s" "ky_closed s' = ky_closed s" "ky_end s' = ky_end s"
    "\<And>j. j \<noteq> i \<Longrightarrow> ky_pcs s' ! j = ky_pcs s ! j" using step by (cases; simp)+
  have sum: "sum (?f s') {..<ShardCount} + ?f s i = sum (?f s) {..<ShardCount} + ?f s' i"
    by (rule sum_move_one [OF b(1)]) (simp add: same)
  have fewer: "length sent < length (ky_items s i)" if "ky_pcs s ! i = KeySend sent" "k \<in> set (ky_items s i)" "k \<notin> set sent" for sent k
    using subset_shorter(2) [of sent "ky_items s i" k] that k by (simp add: key_inv_def)
  show ?thesis
  proof (cases "ky_pcs s ! i = KeyLock")
    case True
    have "num (\<lambda>p. p = KeyLock) (ky_pcs s') < num (\<lambda>p. p = KeyLock) (ky_pcs s)"
      using step num_pos_if_nth [of i "ky_pcs s" "\<lambda>p. p = KeyLock"] True b by cases (simp_all add: num_update)
    then show ?thesis using same by (simp add: keys_work_def)
  next
    case False
    have "num (\<lambda>p. p = KeyLock) (ky_pcs s') = num (\<lambda>p. p = KeyLock) (ky_pcs s)"
      using step False b by cases (simp_all add: num_update)
    moreover have "?f s' i + 2 * length (ky_buf s') < ?f s i + 2 * length (ky_buf s)"
      using step
    proof cases
      case (key_send sent k n)
      then show ?thesis using fewer [OF key_send(3-5)] b by simp
    next
      case (key_hand sent k)
      then show ?thesis using fewer [OF key_hand(3-5)] b by simp
    qed (use False b in simp_all)
    ultimately show ?thesis using same sum by (simp add: keys_work_def)
  qed
qed


lemma keys_less_work:
  assumes inv: "keys_inv ix ms s" and step: "keys_step s s'"
  shows "(keys_work s', keys_work s) \<in> less_keys"
  using step
proof cases
  case ks_count
  then show ?thesis by cases (simp_all add: keys_work_def)
next
  case (ks_key i)
  then show ?thesis by (rule key_less_work [OF inv])
next
  case ks_close
  then show ?thesis by cases (simp add: keys_work_def)
next
  case ks_range
  then show ?thesis by cases (simp_all add: keys_work_def)
qed

lemma keys_can_step:
  assumes inv: "keys_inv ix ms s" and "\<not> ky_end s"
  shows "\<exists>s'. keys_step s s'"
proof -
  have len: "length (ky_pcs s) = ShardCount" using inv by (simp add: keys_inv_def)
  show ?thesis
  proof (cases "ky_cap s")
    case None
    then show ?thesis using count_shard [OF None] count_done [OF None] ks_count by blast
  next
    case (Some n)
    consider (recv) k ks where "ky_buf s = k # ks" | (key) i where "ky_buf s = []" "i < ShardCount" "ky_pcs s ! i \<noteq> KeyDone"
      | (drained) "ky_buf s = []" "\<forall>i < ShardCount. ky_pcs s ! i = KeyDone" by (cases "ky_buf s") auto
    then show ?thesis
    proof cases
      case recv
      then show ?thesis using keys_recv [OF assms(2) recv] ks_range by blast
    next
      case key
      have i: "i < length (ky_pcs s)" using key(2) len by simp
      have "\<exists>s'. key_step i s s'"
      proof (cases "ky_pcs s ! i")
        case KeyLock
        then show ?thesis using key_lock [OF i KeyLock Some] by blast
      next
        case (KeySend sent)
        then show ?thesis using key_unlock [OF i KeySend] key_hand [OF i KeySend _ _ key(1) assms(2)] by blast
      next
        case KeyUnlocked
        then show ?thesis using key_report [OF i KeyUnlocked] by blast
      qed (use key in simp)
      then show ?thesis using ks_key by blast
    next
      case drained
      have "ky_wg s = 0" using drained(2) inv len by (auto simp: keys_inv_def num_zero_iff in_set_conv_nth)
      then show ?thesis
        using keys_closes [OF _ Some] keys_ends [OF assms(2) drained(1)] ks_close ks_range by blast
    qed
  qed
qed

text \<open>
  \<open>Keys\<close> returns: as long as it has not, one of its goroutines or the caller can go on, every such step lowers
  the work left, and what other goroutines do to the map leaves it as it is.
\<close>

lemma Keys_returns:
  assumes "cm_wf m" "keys_run m ms s"
  shows "(\<not> ky_end s \<longrightarrow> (\<exists>s'. keys_step s s')) \<and>
    (\<forall>s'. keys_step s s' \<longrightarrow> (keys_work s', keys_work s) \<in> less_than <*lex*> less_than <*lex*> less_than) \<and>
    (\<forall>x s'. keys_other x s s' \<longrightarrow> keys_work s' = keys_work s)"
proof -
  note inv = keys_run_inv [OF assms(2,1)]
  have "keys_work s' = keys_work s" if "keys_other x s s'" for x s'
    using that
  proof cases
    case (keys_op k)
    have "key_work (ky_items s' j) (ky_pcs s' ! j) = key_work (ky_items s j) (ky_pcs s ! j)" for j
      using keys_op op_reads_same [of x "ky_map s"] op_other_shards [of x k j "ky_map s"]
      by (cases "j = shard_index (ky_map s) k"; cases "ky_pcs s ! j") (auto simp: keys_locked_def)
    then show ?thesis using keys_op(1) by (simp add: keys_work_def)
  qed
  then show ?thesis using keys_can_step [OF inv] keys_less_work [OF inv] by blast
qed

subsection \<open>What a caller of a whole-map operation may rely on\<close>

text \<open>
  The contract the whole-map operations share: what an operation that has ended has seen is, shard by
  shard, what the map held at one moment since the call. Its clients conclude about single keys.
\<close>

locale shard_reader =
  fixes ended :: "('k, 'v) concurrent_map \<Rightarrow> ('k, 'v) concurrent_map list \<Rightarrow> 's \<Rightarrow> bool"
    and seen :: "'s \<Rightarrow> 'k set"
  assumes per_shard: "cm_wf m \<Longrightarrow> ended m ms s \<Longrightarrow> i < ShardCount \<Longrightarrow>
    \<exists>m' \<in> set ms. \<forall>k. shard_index m k = i \<longrightarrow> (k \<in> seen s \<longleftrightarrow> cm_Get m' k \<noteq> None)"
begin

lemma key_moment:
  assumes "cm_wf m" "ended m ms s"
  shows "\<exists>m' \<in> set ms. k \<in> seen s \<longleftrightarrow> cm_Get m' k \<noteq> None"
  using per_shard [OF assms shard_index_less [of m k]] by blast

lemma stays_seen: "cm_wf m \<Longrightarrow> ended m ms s \<Longrightarrow> \<forall>m' \<in> set ms. cm_Get m' k \<noteq> None \<Longrightarrow> k \<in> seen s"
  using key_moment [of m ms s k] by blast

lemma absent_unseen: "cm_wf m \<Longrightarrow> ended m ms s \<Longrightarrow> \<forall>m' \<in> set ms. cm_Get m' k = None \<Longrightarrow> k \<notin> seen s"
  by (drule (1) key_moment [of m ms s k]) auto

text \<open>Keys of one shard are seen as of one moment: of two, one of which is always there when the other is, both or none are seen.\<close>

lemma same_shard_together:
  assumes "cm_wf m" "ended m ms s" "shard_index m k = shard_index m l"
    and "\<forall>m' \<in> set ms. cm_Get m' k \<noteq> None \<longleftrightarrow> cm_Get m' l \<noteq> None"
  shows "k \<in> seen s \<longleftrightarrow> l \<in> seen s"
proof -
  obtain m' where "m' \<in> set ms" "\<forall>j. shard_index m j = shard_index m k \<longrightarrow> (j \<in> seen s \<longleftrightarrow> cm_Get m' j \<noteq> None)"
    using per_shard [OF assms(1,2) shard_index_less [of m k]] by blast
  then show ?thesis using assms(3,4) by metis
qed

end

interpretation keys_reader: shard_reader "\<lambda>m ms s. keys_run m ms s \<and> ky_end s" "\<lambda>s. set (ky_got s)"
  by unfold_locales (use keys_are_a_snapshot_per_shard in blast)

interpretation iter_reader: shard_reader
  "\<lambda>m ms s. \<exists>clear s0 xs. snapshot_start clear m = Some s0 \<and> iter_run s0 xs ms s \<and> it_range s = CEnd"
  "\<lambda>s. fst ` set (it_got s)"
proof unfold_locales
  fix m :: "('a, 'b) concurrent_map" and ms s i
  assume "cm_wf m" "\<exists>clear s0 xs. snapshot_start clear m = Some s0 \<and> iter_run s0 xs ms s \<and> it_range s = CEnd" "i < ShardCount"
  then obtain clear s0 xs where r: "snapshot_start clear m = Some s0" "iter_run s0 xs ms s" "it_range s = CEnd" by blast
  note inv = run_inv [OF r(2) iter_start_inv(1) [OF \<open>cm_wf m\<close> r(1)]]
  obtain m' where m': "m' \<in> set ms" "\<forall>k. shard_index m k = i \<longrightarrow> map_of (collect_items (it_got s)) k = cm_Get m' k"
    using got_lookup [OF inv r(3) \<open>i < ShardCount\<close>] by blast
  have "k \<in> fst ` set (it_got s) \<longleftrightarrow> map_of (collect_items (it_got s)) k \<noteq> None" for k
    using got_distinct [OF inv r(3)]
    by (simp add: collect_items_def fold_update_Get map_of_rev_distinct map_of_eq_None_iff)
  then show "\<exists>m' \<in> set ms. \<forall>k. shard_index m k = i \<longrightarrow> (k \<in> fst ` set (it_got s) \<longleftrightarrow> cm_Get m' k \<noteq> None)"
    using m' by auto
qed

lemma count_list_distinct: "distinct xs \<Longrightarrow> x \<in> set xs \<Longrightarrow> count_list xs x = 1"
  by (induction xs) (auto simp: count_list_0_iff)

text \<open>
  A key that is in the map during the whole call is returned by \<open>Keys\<close> and delivered by \<open>IterBuffered\<close>, exactly
  once, whatever happens to the other keys meanwhile.
\<close>

lemma present_keys_listed:
  assumes "cm_wf m" "keys_run m ms s" "ky_end s" "\<forall>m' \<in> set ms. cm_Get m' k \<noteq> None"
  shows "count_list (ky_got s) k = 1"
proof (rule count_list_distinct)
  show "distinct (ky_got s)" using keys_are_a_snapshot_per_shard [OF assms(1-3)] by simp
  show "k \<in> set (ky_got s)" by (rule keys_reader.stays_seen [OF assms(1) conjI [OF assms(2,3)] assms(4)])
qed

end
