(* ===== verification/Ask_Timer.thy ===== *)
theory Ask_Timer
  imports Ask_Table
begin

section \<open>The timeout of an ask and its pooled timer: request_helper.go\<close>

text \<open>
  \<open>awaitReply\<close> borrows a timer from \<open>askTimerPool\<close>, resets it to the ask timeout, waits for the reply or
  the tick, and stops the timer and puts it back on the way out. The model has the clock, all timers
  ever made, the pool and one goroutine per call; a step is one call into the pool or the timer, the
  choice of the \<open>select\<close>, a tick, or time passing. A timer is the deadline it is armed with and whether
  a tick waits in its channel. As of Go 1.23 (the module requires a later version) \<open>Stop\<close> and \<open>Reset\<close>
  take a tick out of the channel that nobody received. \<open>sync.Pool\<close> hands out any of its elements or
  makes a new one, and may drop elements. Which reply arrives is left open: \<open>Ask_Table\<close> says which can.
\<close>

subsection \<open>State\<close>

record ask_timer =
  tm_armed :: "nat option"
  tm_tick :: bool

text \<open>A call is about to borrow, to reset, waits, is about to stop, to put back, or has its answer (\<open>None\<close>: timeout).\<close>

datatype wait_pc = TGet | TReset | TSelect | TStop "proto_message option" | TPut "proto_message option"
  | TEnd "proto_message option"

record ask_wait =
  wt_timer :: nat
  wt_since :: nat
  wt_pc :: wait_pc

record timers =
  ts_clock :: nat
  ts_timers :: "ask_timer list"
  ts_pool :: "nat list"
  ts_waits :: "ask_wait list"

subsection \<open>Operations\<close>

text \<open>\<open>New\<close> of the pool: a timer of an hour, stopped at once.\<close>

definition new_ask_timer :: ask_timer where
  "new_ask_timer = \<lparr>tm_armed = None, tm_tick = False\<rparr>"

definition timer_Reset :: "nat \<Rightarrow> ask_timer \<Rightarrow> ask_timer" where
  "timer_Reset deadline t = \<lparr>tm_armed = Some deadline, tm_tick = False\<rparr>"

definition timer_Stop :: "ask_timer \<Rightarrow> ask_timer" where
  "timer_Stop t = \<lparr>tm_armed = None, tm_tick = False\<rparr>"

abbreviation set_wait :: "nat \<Rightarrow> ask_wait \<Rightarrow> timers \<Rightarrow> timers" where
  "set_wait j w s \<equiv> s\<lparr>ts_waits := (ts_waits s)[j := w]\<rparr>"

abbreviation set_timer :: "nat \<Rightarrow> ask_timer \<Rightarrow> timers \<Rightarrow> timers" where
  "set_timer i t s \<equiv> s\<lparr>ts_timers := (ts_timers s)[i := t]\<rparr>"

text \<open>The steps of call \<open>j\<close> of \<open>awaitReply\<close> with the given timeout.\<close>

inductive wait_step :: "nat \<Rightarrow> nat \<Rightarrow> timers \<Rightarrow> timers \<Rightarrow> bool" for timeout j where
  wait_borrow: "j < length (ts_waits s) \<Longrightarrow> wt_pc (ts_waits s ! j) = TGet \<Longrightarrow> i \<in> set (ts_pool s) \<Longrightarrow>
    wait_step timeout j s (set_wait j ((ts_waits s ! j)\<lparr>wt_timer := i, wt_pc := TReset\<rparr>)
      (s\<lparr>ts_pool := remove1 i (ts_pool s)\<rparr>))"
| wait_make: "j < length (ts_waits s) \<Longrightarrow> wt_pc (ts_waits s ! j) = TGet \<Longrightarrow>
    wait_step timeout j s (set_wait j ((ts_waits s ! j)\<lparr>wt_timer := length (ts_timers s), wt_pc := TReset\<rparr>)
      (s\<lparr>ts_timers := ts_timers s @ [new_ask_timer]\<rparr>))"
| wait_reset: "j < length (ts_waits s) \<Longrightarrow> wt_pc (ts_waits s ! j) = TReset \<Longrightarrow> i = wt_timer (ts_waits s ! j) \<Longrightarrow>
    wait_step timeout j s (set_wait j ((ts_waits s ! j)\<lparr>wt_since := ts_clock s, wt_pc := TSelect\<rparr>)
      (set_timer i (timer_Reset (ts_clock s + timeout) (ts_timers s ! i)) s))"
| wait_reply: "j < length (ts_waits s) \<Longrightarrow> wt_pc (ts_waits s ! j) = TSelect \<Longrightarrow>
    wait_step timeout j s (set_wait j ((ts_waits s ! j)\<lparr>wt_pc := TStop (Some resp)\<rparr>) s)"
| wait_timeout: "j < length (ts_waits s) \<Longrightarrow> wt_pc (ts_waits s ! j) = TSelect \<Longrightarrow> i = wt_timer (ts_waits s ! j) \<Longrightarrow>
    tm_tick (ts_timers s ! i) \<Longrightarrow>
    wait_step timeout j s (set_wait j ((ts_waits s ! j)\<lparr>wt_pc := TStop None\<rparr>)
      (set_timer i ((ts_timers s ! i)\<lparr>tm_tick := False\<rparr>) s))"
| wait_stop: "j < length (ts_waits s) \<Longrightarrow> wt_pc (ts_waits s ! j) = TStop r \<Longrightarrow> i = wt_timer (ts_waits s ! j) \<Longrightarrow>
    wait_step timeout j s (set_wait j ((ts_waits s ! j)\<lparr>wt_pc := TPut r\<rparr>)
      (set_timer i (timer_Stop (ts_timers s ! i)) s))"
| wait_put: "j < length (ts_waits s) \<Longrightarrow> wt_pc (ts_waits s ! j) = TPut r \<Longrightarrow>
    wait_step timeout j s (set_wait j ((ts_waits s ! j)\<lparr>wt_pc := TEnd r\<rparr>)
      (s\<lparr>ts_pool := wt_timer (ts_waits s ! j) # ts_pool s\<rparr>))"

text \<open>The run-time: a new call, time passing, an armed timer whose deadline has come, the pool dropping an element.\<close>

inductive clock_step :: "timers \<Rightarrow> timers \<Rightarrow> bool" where
  clock_call: "clock_step s (s\<lparr>ts_waits := ts_waits s @ [\<lparr>wt_timer = 0, wt_since = 0, wt_pc = TGet\<rparr>]\<rparr>)"
| clock_pass: "clock_step s (s\<lparr>ts_clock := ts_clock s + d\<rparr>)"
| clock_fire: "i < length (ts_timers s) \<Longrightarrow> tm_armed (ts_timers s ! i) = Some d \<Longrightarrow> d \<le> ts_clock s \<Longrightarrow>
    clock_step s (set_timer i \<lparr>tm_armed = None, tm_tick = True\<rparr> s)"
| clock_drop: "clock_step s (s\<lparr>ts_pool := remove1 i (ts_pool s)\<rparr>)"

inductive timers_reach :: "nat \<Rightarrow> timers \<Rightarrow> bool" for timeout where
  timers_init: "timers_reach timeout \<lparr>ts_clock = 0, ts_timers = [], ts_pool = [], ts_waits = []\<rparr>"
| timers_wait: "timers_reach timeout s \<Longrightarrow> wait_step timeout j s s' \<Longrightarrow> timers_reach timeout s'"
| timers_clock: "timers_reach timeout s \<Longrightarrow> clock_step s s' \<Longrightarrow> timers_reach timeout s'"

inductive_cases wait_stepE: "wait_step timeout j s s'"
inductive_cases clock_stepE: "clock_step s s'"

subsection \<open>One holder per timer\<close>

fun holds_timer :: "wait_pc \<Rightarrow> bool" where
  "holds_timer TGet = False"
| "holds_timer (TEnd r) = False"
| "holds_timer _ = True"

text \<open>What a call knows of its own timer, and a timer in the pool of its own.\<close>

fun timed_out :: "wait_pc \<Rightarrow> bool" where
  "timed_out (TStop r) = (r = None)"
| "timed_out (TPut r) = (r = None)"
| "timed_out (TEnd r) = (r = None)"
| "timed_out _ = False"

definition wait_inv :: "nat \<Rightarrow> timers \<Rightarrow> ask_wait \<Rightarrow> bool" where
  "wait_inv timeout s w \<longleftrightarrow>
     (holds_timer (wt_pc w) \<longrightarrow> wt_timer w < length (ts_timers s)) \<and>
     (timed_out (wt_pc w) \<longrightarrow> wt_since w + timeout \<le> ts_clock s) \<and>
     (wt_pc w = TSelect \<longrightarrow> (let t = ts_timers s ! wt_timer w in
        tm_armed t = Some (wt_since w + timeout) \<and> \<not> tm_tick t \<or> tm_armed t = None \<and> tm_tick t \<and> wt_since w + timeout \<le> ts_clock s))"

text \<open>No two calls hold one timer, a held timer is not in the pool, and the timers of the pool are stopped.\<close>

definition holder :: "timers \<Rightarrow> nat \<Rightarrow> nat \<Rightarrow> bool" where
  "holder s k i \<longleftrightarrow> k < length (ts_waits s) \<and> holds_timer (wt_pc (ts_waits s ! k)) \<and> wt_timer (ts_waits s ! k) = i"

definition holders_inv :: "timers \<Rightarrow> bool" where
  "holders_inv s \<longleftrightarrow> distinct (ts_pool s) \<and>
     (\<forall>i \<in> set (ts_pool s). i < length (ts_timers s) \<and> ts_timers s ! i = new_ask_timer) \<and>
     (\<forall>k i. holder s k i \<longrightarrow> i \<notin> set (ts_pool s)) \<and>
     (\<forall>k l i. holder s k i \<longrightarrow> holder s l i \<longrightarrow> k = l)"

definition stopped_inv :: "timers \<Rightarrow> ask_wait \<Rightarrow> bool" where
  "stopped_inv s w \<longleftrightarrow> ((\<exists>r. wt_pc w = TPut r) \<longrightarrow> ts_timers s ! wt_timer w = new_ask_timer)"

definition timers_inv :: "nat \<Rightarrow> timers \<Rightarrow> bool" where
  "timers_inv timeout s \<longleftrightarrow> holders_inv s \<and>
     (\<forall>j < length (ts_waits s). wait_inv timeout s (ts_waits s ! j) \<and> stopped_inv s (ts_waits s ! j))"

lemmas timers_defs = timers_inv_def holders_inv_def wait_inv_def stopped_inv_def new_ask_timer_def
  timer_Reset_def timer_Stop_def Let_def

lemma wait_frame:
  assumes "wait_inv timeout s w \<and> stopped_inv s w" "ts_clock s \<le> ts_clock s'" "length (ts_timers s) \<le> length (ts_timers s')"
    and "holds_timer (wt_pc w) \<Longrightarrow> ts_timers s' ! wt_timer w = ts_timers s ! wt_timer w"
  shows "wait_inv timeout s' w \<and> stopped_inv s' w"
  using assms by (cases "wt_pc w") (auto simp: wait_inv_def stopped_inv_def Let_def)

lemma holders_update:
  assumes h: "holders_inv s" and s': "s' = s\<lparr>ts_timers := ts, ts_pool := p, ts_waits := (ts_waits s)[j := w]\<rparr>"
    and j: "j < length (ts_waits s)"
    and p: "distinct p" "\<And>i. i \<in> set p \<Longrightarrow> i < length ts \<and> ts ! i = new_ask_timer"
    and other: "\<And>k i. k \<noteq> j \<Longrightarrow> holder s k i \<Longrightarrow> i \<notin> set p \<and> (holds_timer (wt_pc w) \<longrightarrow> wt_timer w \<noteq> i)"
    and own: "holds_timer (wt_pc w) \<Longrightarrow> wt_timer w \<notin> set p"
  shows "holders_inv s'"
proof -
  have e: "holder s' k i \<longleftrightarrow> (if k = j then holds_timer (wt_pc w) \<and> wt_timer w = i else holder s k i)" for k i
    using j by (simp add: holder_def s')
  have one: "holder s k i \<Longrightarrow> holder s l i \<Longrightarrow> k = l" for k l i using h by (simp add: holders_inv_def)
  have "k = l" if "holder s' k i" "holder s' l i" for k l i
    using that one [of k i l] other [of k i] other [of l i] unfolding e by (cases "k = j"; cases "l = j") simp_all
  moreover have "i \<notin> set p" if "holder s' k i" for k i
    using that other [of k i] own unfolding e by (cases "k = j") auto
  ultimately show ?thesis using p by (simp add: holders_inv_def s')
qed

text \<open>A call that keeps its timer, and changes at most that.\<close>

lemma holders_keep:
  assumes h: "holders_inv s" and s': "s' = s\<lparr>ts_timers := (ts_timers s)[i := t], ts_waits := (ts_waits s)[j := w]\<rparr>"
    and j: "holder s j i" and w: "wt_timer w = i"
  shows "holders_inv s'"
proof (rule holders_update [OF h])
  have i: "i \<notin> set (ts_pool s)" and one: "\<And>k. holder s k i \<Longrightarrow> k = j" using h j by (auto simp: holders_inv_def)
  show "s' = s\<lparr>ts_timers := (ts_timers s)[i := t], ts_pool := ts_pool s, ts_waits := (ts_waits s)[j := w]\<rparr>" using s' by simp
  show "j < length (ts_waits s)" using j by (simp add: holder_def)
  show "distinct (ts_pool s)" using h by (simp add: holders_inv_def)
  show "l < length ((ts_timers s)[i := t]) \<and> (ts_timers s)[i := t] ! l = new_ask_timer" if "l \<in> set (ts_pool s)" for l
    using h i that by (cases "l = i") (auto simp: holders_inv_def)
  show "l \<notin> set (ts_pool s) \<and> (holds_timer (wt_pc w) \<longrightarrow> wt_timer w \<noteq> l)" if "k \<noteq> j" "holder s k l" for k l
    using that h one w by (auto simp: holders_inv_def)
  show "wt_timer w \<notin> set (ts_pool s)" using i w by simp
qed

text \<open>A call that gives its stopped timer back.\<close>

lemma holders_put:
  assumes h: "holders_inv s" and j: "holder s j i" and i: "i < length (ts_timers s)" "ts_timers s ! i = new_ask_timer"
    and s': "s' = s\<lparr>ts_pool := i # ts_pool s, ts_waits := (ts_waits s)[j := w]\<rparr>" and w: "\<not> holds_timer (wt_pc w)"
  shows "holders_inv s'"
  by (rule holders_update [OF h, where ts = "ts_timers s" and p = "i # ts_pool s" and j = j and w = w])
    (use h j i s' w in \<open>auto simp: holders_inv_def holder_def\<close>)

lemma wait_step_holders:
  assumes inv: "timers_inv timeout s" and step: "wait_step timeout j s s'"
  shows "holders_inv s'"
proof -
  let ?w = "ts_waits s ! j"
  have h: "holders_inv s" and j: "j < length (ts_waits s)" and st: "stopped_inv s ?w"
    using inv step by (auto simp: timers_inv_def elim!: wait_stepE)
  have l: "i < length (ts_timers s)" if "holder s k i" for k i
    using inv that by (auto simp: timers_inv_def wait_inv_def holder_def)
  have own: "holder s j (wt_timer ?w)" if "holds_timer (wt_pc ?w)" using that j by (simp add: holder_def)
  from step show ?thesis
  proof cases
    case (wait_borrow i)
    show ?thesis
      by (rule holders_update [OF h, where ts = "ts_timers s" and p = "remove1 i (ts_pool s)" and j = j
            and w = "?w\<lparr>wt_timer := i, wt_pc := TReset\<rparr>"])
        (use wait_borrow h in \<open>auto simp: holders_inv_def\<close>)
  next
    case wait_make
    show ?thesis
      by (rule holders_update [OF h, where ts = "ts_timers s @ [new_ask_timer]" and p = "ts_pool s" and j = j
            and w = "?w\<lparr>wt_timer := length (ts_timers s), wt_pc := TReset\<rparr>"])
        (use wait_make h l in \<open>auto simp: holders_inv_def nth_append\<close>)
  next
    case (wait_put r)
    have "holder s j (wt_timer ?w)" using wait_put own by simp
    then show ?thesis
      by (rule holders_put [OF h, where w = "?w\<lparr>wt_pc := TEnd r\<rparr>"]) (use l own st wait_put in \<open>auto simp: stopped_inv_def\<close>)
  next
    case (wait_reply resp)
    then show ?thesis
      by (intro holders_keep [OF h _ own, where t = "ts_timers s ! wt_timer ?w" and w = "?w\<lparr>wt_pc := TStop (Some resp)\<rparr>"]) auto
  next
    case (wait_reset i)
    then show ?thesis
      using own by (intro holders_keep [OF h, where i = i and j = j and w = "?w\<lparr>wt_since := ts_clock s, wt_pc := TSelect\<rparr>"
            and t = "timer_Reset (ts_clock s + timeout) (ts_timers s ! i)"]) auto
  next
    case (wait_timeout i)
    then show ?thesis
      using own by (intro holders_keep [OF h, where i = i and j = j and w = "?w\<lparr>wt_pc := TStop None\<rparr>"
            and t = "(ts_timers s ! i)\<lparr>tm_tick := False\<rparr>"]) auto
  next
    case (wait_stop r i)
    then show ?thesis
      using own by (intro holders_keep [OF h, where i = i and j = j and w = "?w\<lparr>wt_pc := TPut r\<rparr>"
            and t = "timer_Stop (ts_timers s ! i)"]) auto
  qed
qed

lemma wait_step_own:
  assumes inv: "timers_inv timeout s" and step: "wait_step timeout j s s'"
  shows "wait_inv timeout s' (ts_waits s' ! j) \<and> stopped_inv s' (ts_waits s' ! j)"
proof -
  have h: "holders_inv s" and w: "wait_inv timeout s (ts_waits s ! j)" "stopped_inv s (ts_waits s ! j)"
    using inv step by (auto simp: timers_inv_def elim!: wait_stepE)
  from step show ?thesis
    by cases (use h w in \<open>auto simp: timers_defs\<close>)
qed

lemma wait_step_inv:
  assumes inv: "timers_inv timeout s" and step: "wait_step timeout j s s'"
  shows "timers_inv timeout s'"
proof -
  have "wait_inv timeout s' (ts_waits s' ! k) \<and> stopped_inv s' (ts_waits s' ! k)"
    if k: "k < length (ts_waits s')" "k \<noteq> j" for k
  proof (rule wait_frame [of timeout s])
    have j: "j < length (ts_waits s)" "length (ts_waits s') = length (ts_waits s)" "ts_waits s' ! k = ts_waits s ! k"
      using step k(2) by (auto elim!: wait_stepE)
    then show "wait_inv timeout s (ts_waits s' ! k) \<and> stopped_inv s (ts_waits s' ! k)"
      using inv k(1) by (simp add: timers_inv_def)
    show "ts_clock s \<le> ts_clock s'" "length (ts_timers s) \<le> length (ts_timers s')" using step by (auto elim!: wait_stepE)
    show "ts_timers s' ! wt_timer (ts_waits s' ! k) = ts_timers s ! wt_timer (ts_waits s' ! k)"
      if hk: "holds_timer (wt_pc (ts_waits s' ! k))"
    proof -
      have kl: "wt_timer (ts_waits s ! k) < length (ts_timers s)"
        using inv k j hk by (simp add: timers_inv_def wait_inv_def)
      have one: "\<forall>i. holder s k i \<longrightarrow> holder s j i \<longrightarrow> k = j" using inv by (simp add: timers_inv_def holders_inv_def)
      have ne: "wt_timer (ts_waits s ! k) \<noteq> wt_timer (ts_waits s ! j)" if "holds_timer (wt_pc (ts_waits s ! j))"
        using one k j hk that by (simp add: holder_def)
      from step show ?thesis by cases (use kl ne k(2) in \<open>auto simp: nth_append\<close>)
    qed
  qed
  then show ?thesis using wait_step_own [OF assms] wait_step_holders [OF assms] by (auto simp: timers_inv_def)
qed

lemma clock_step_inv:
  assumes inv: "timers_inv timeout s" and step: "clock_step s s'"
  shows "timers_inv timeout s'"
  using step
proof cases
  case clock_call
  have w: "wait_inv timeout s' \<lparr>wt_timer = 0, wt_since = 0, wt_pc = TGet\<rparr> \<and> stopped_inv s' \<lparr>wt_timer = 0, wt_since = 0, wt_pc = TGet\<rparr>"
    by (simp add: wait_inv_def stopped_inv_def)
  have "holder s' k i \<longleftrightarrow> holder s k i" for k i using clock_call by (auto simp: holder_def nth_append)
  moreover have "wait_inv timeout s' v = wait_inv timeout s v" "stopped_inv s' v = stopped_inv s v" for v
    using clock_call by (simp_all add: wait_inv_def stopped_inv_def)
  ultimately show ?thesis
    using inv w clock_call by (auto simp: timers_inv_def holders_inv_def nth_append less_Suc_eq)
next
  case (clock_pass d)
  have "wait_inv timeout s' v \<and> stopped_inv s' v" if "wait_inv timeout s v \<and> stopped_inv s v" for v
    using wait_frame [OF that, of s'] clock_pass by simp
  moreover have "holder s' = holder s" using clock_pass by (simp add: holder_def fun_eq_iff)
  ultimately show ?thesis using inv clock_pass by (simp add: timers_inv_def holders_inv_def)
next
  case (clock_fire i d)
  have ne: "tm_armed new_ask_timer \<noteq> Some d" by (simp add: new_ask_timer_def)
  have "wait_inv timeout s' v \<and> stopped_inv s' v" if v: "wait_inv timeout s v \<and> stopped_inv s v" for v
  proof (cases "holds_timer (wt_pc v) \<and> wt_timer v = i")
    case True
    then show ?thesis using v clock_fire ne by (cases "wt_pc v") (auto simp: wait_inv_def stopped_inv_def Let_def)
  next
    case False
    then show ?thesis using wait_frame [OF v, of s'] clock_fire(1) by auto
  qed
  moreover have "holder s' = holder s" using clock_fire by (simp add: holder_def fun_eq_iff)
  moreover have "ts_timers s' ! l = ts_timers s ! l" if "l \<in> set (ts_pool s)" for l
    using inv that clock_fire ne by (cases "l = i") (auto simp: timers_inv_def holders_inv_def)
  ultimately show ?thesis using inv clock_fire by (simp add: timers_inv_def holders_inv_def)
next
  case (clock_drop i)
  have "holder s' = holder s" "wait_inv timeout s' = wait_inv timeout s" "stopped_inv s' = stopped_inv s"
    using clock_drop by (simp_all add: holder_def wait_inv_def stopped_inv_def fun_eq_iff)
  then show ?thesis
    using inv clock_drop by (auto simp: timers_inv_def holders_inv_def dest: notin_set_remove1)
qed

lemma timers_reach_inv: "timers_reach timeout s \<Longrightarrow> timers_inv timeout s"
proof (induction rule: timers_reach.induct)
  case timers_init
  show ?case by (simp add: timers_inv_def holders_inv_def holder_def)
qed (rule wait_step_inv clock_step_inv, assumption+)+

text \<open>
  C32. An ask times out on its own deadline and on no other: whatever asks shared the pooled timers
  before or run beside it, a call that returns a timeout has waited at least the timeout since it reset
  its timer, before its deadline its channel holds no tick, so a tick left over from an earlier ask is
  never taken for its own, and once the deadline has come the tick is there or the timer is due, so the
  call does not wait forever. While it holds the timer nobody else does and the pool does not have it.
\<close>

theorem ask_times_out_on_its_own_deadline:
  assumes "timers_reach timeout s" "j < length (ts_waits s)" and w_def: "w = ts_waits s ! j"
  shows "(wt_pc w = TEnd None \<longrightarrow> wt_since w + timeout \<le> ts_clock s) \<and>
    (wt_pc w = TSelect \<longrightarrow> ts_clock s < wt_since w + timeout \<longrightarrow> \<not> tm_tick (ts_timers s ! wt_timer w)) \<and>
    (wt_pc w = TSelect \<longrightarrow> wt_since w + timeout \<le> ts_clock s \<longrightarrow>
       (\<exists>s' s''. (s' = s \<or> clock_step s s') \<and> wait_step timeout j s' s'' \<and> wt_pc (ts_waits s'' ! j) = TStop None)) \<and>
    (holds_timer (wt_pc w) \<longrightarrow> wt_timer w \<notin> set (ts_pool s) \<and>
       (\<forall>k < length (ts_waits s). k \<noteq> j \<longrightarrow> holds_timer (wt_pc (ts_waits s ! k)) \<longrightarrow> wt_timer (ts_waits s ! k) \<noteq> wt_timer w))"
proof -
  have inv: "timers_inv timeout s" by (rule timers_reach_inv [OF assms(1)])
  then have w: "wait_inv timeout s w" using assms(2) by (simp add: timers_inv_def w_def)
  have fires: "\<exists>s' s''. (s' = s \<or> clock_step s s') \<and> wait_step timeout j s' s'' \<and> wt_pc (ts_waits s'' ! j) = TStop None"
    if pc: "wt_pc w = TSelect" and due: "wt_since w + timeout \<le> ts_clock s"
  proof (cases "tm_tick (ts_timers s ! wt_timer w)")
    case True
    then show ?thesis
      using wait_timeout [OF assms(2) pc [unfolded w_def] refl] assms(2) by (fastforce simp: w_def)
  next
    case False
    have i: "wt_timer w < length (ts_timers s)" "tm_armed (ts_timers s ! wt_timer w) = Some (wt_since w + timeout)"
      using w pc False by (auto simp: wait_inv_def Let_def)
    let ?s = "set_timer (wt_timer w) \<lparr>tm_armed = None, tm_tick = True\<rparr> s"
    have "clock_step s ?s" by (rule clock_fire [OF i due])
    moreover have "\<exists>s''. wait_step timeout j ?s s'' \<and> wt_pc (ts_waits s'' ! j) = TStop None"
      using wait_timeout [of j ?s "wt_timer w" timeout] assms(2) pc i(1) by (fastforce simp: w_def)
    ultimately show ?thesis by blast
  qed
  have early: "\<not> tm_tick (ts_timers s ! wt_timer w)" if "wt_pc w = TSelect" "ts_clock s < wt_since w + timeout"
    using w that by (auto simp: wait_inv_def Let_def)
  have late: "wt_since w + timeout \<le> ts_clock s" if "wt_pc w = TEnd None" using w that by (simp add: wait_inv_def)
  have out: "\<forall>i. holder s j i \<longrightarrow> i \<notin> set (ts_pool s)" and one: "\<forall>k i. holder s k i \<longrightarrow> holder s j i \<longrightarrow> k = j"
    using inv by (simp_all add: timers_inv_def holders_inv_def)
  have "wt_timer w \<notin> set (ts_pool s) \<and>
      (\<forall>k < length (ts_waits s). k \<noteq> j \<longrightarrow> holds_timer (wt_pc (ts_waits s ! k)) \<longrightarrow> wt_timer (ts_waits s ! k) \<noteq> wt_timer w)"
    if "holds_timer (wt_pc w)"
    using out one that assms(2) by (auto simp: holder_def w_def)
  then show ?thesis using fires early late by blast
qed

text \<open>An ask that has timed out and a second one that waits on the timer the first put back.\<close>

definition two_asks :: timers where
  "two_asks = \<lparr>ts_clock = 7, ts_timers = [\<lparr>tm_armed = Some 12, tm_tick = False\<rparr>], ts_pool = [],
     ts_waits = [\<lparr>wt_timer = 0, wt_since = 2, wt_pc = TEnd None\<rparr>, \<lparr>wt_timer = 0, wt_since = 7, wt_pc = TSelect\<rparr>]\<rparr>"

lemma two_asks_reached: "timers_reach 5 two_asks"
proof -
  let ?w = "\<lambda>t p. \<lparr>wt_timer = 0, wt_since = t, wt_pc = p\<rparr>"
  let ?s = "\<lambda>c a b ps ws. \<lparr>ts_clock = c, ts_timers = [\<lparr>tm_armed = a, tm_tick = b\<rparr>], ts_pool = ps, ts_waits = ws\<rparr>"
  have "timers_reach 5 \<lparr>ts_clock = 2, ts_timers = [], ts_pool = [], ts_waits = [?w 0 TGet]\<rparr>"
    using timers_clock [OF timers_clock [OF timers_init clock_call] clock_pass [where d = 2]] by (simp add: numeral_2_eq_2)
  then have "timers_reach 5 (?s 2 None False [] [?w 0 TReset])"
    using timers_wait [OF _ wait_make [of 0]] by (force simp: new_ask_timer_def)
  then have "timers_reach 5 (?s 2 (Some 7) False [] [?w 2 TSelect])"
    using timers_wait [OF _ wait_reset [of 0, OF _ _ refl]] by (force simp: timer_Reset_def)
  then have "timers_reach 5 (?s 7 (Some 7) False [] [?w 2 TSelect])"
    using timers_clock [OF _ clock_pass [where d = 5]] by force
  then have "timers_reach 5 (?s 7 None True [] [?w 2 TSelect])"
    using timers_clock [OF _ clock_fire [of 0 _ 7]] by force
  then have "timers_reach 5 (?s 7 None False [] [?w 2 (TStop None)])"
    using timers_wait [OF _ wait_timeout [of 0, OF _ _ refl]] by force
  then have "timers_reach 5 (?s 7 None False [] [?w 2 (TPut None)])"
    using timers_wait [OF _ wait_stop [of 0, OF _ _ refl]] by (force simp: timer_Stop_def)
  then have "timers_reach 5 (?s 7 None False [0] [?w 2 (TEnd None)])"
    using timers_wait [OF _ wait_put [of 0]] by force
  then have "timers_reach 5 (?s 7 None False [0] [?w 2 (TEnd None), ?w 0 TGet])"
    using timers_clock [OF _ clock_call] by force
  then have "timers_reach 5 (?s 7 None False [] [?w 2 (TEnd None), ?w 0 TReset])"
    using timers_wait [OF _ wait_borrow [of 1 _ 0]] by force
  then have "timers_reach 5 (?s 7 (Some 12) False [] [?w 2 (TEnd None), ?w 7 TSelect])"
    using timers_wait [OF _ wait_reset [of 1, OF _ _ refl]] by (force simp: timer_Reset_def)
  then show ?thesis by (simp add: two_asks_def)
qed

theorem ask_times_out_on_its_own_deadline_witness:
  "wt_since (ts_waits two_asks ! 0) + 5 \<le> ts_clock two_asks \<and> \<not> tm_tick (ts_timers two_asks ! 0) \<and>
     wt_timer (ts_waits two_asks ! 1) \<notin> set (ts_pool two_asks)"
  using ask_times_out_on_its_own_deadline [OF two_asks_reached _ refl, of 0]
    ask_times_out_on_its_own_deadline [OF two_asks_reached _ refl, of 1] by (simp add: two_asks_def)

end
