(* ===== verification/Node_Data.thy ===== *)
theory Node_Data
  imports System_Send
begin

section \<open>Per-node data of the cluster: system.go\<close>

text \<open>
  A node may publish values under sub-keys of its own; they are bound to its lease. The system forwards the
  calls to the provider. Read as a whole, the keys are one table from a sub-key and a node to a value:
  the lemmas say what each call does to that table. The etcd client is the parameter of
  \<open>Provider_Etcd\<close>; \<open>kv_ok\<close> is the documented meaning of its calls on one key, where a call that reports
  an error may have taken effect.
\<close>

subsection \<open>The calls of the system\<close>

definition sys_GetNodeId :: "node \<Rightarrow> u64" where
  "sys_GetNodeId x = GetNodeId (rt_provider (nd_routing x))"

definition sys_GetNodeExtData :: "'e etcd_client \<Rightarrow> string \<Rightarrow> node \<Rightarrow> 'e \<Rightarrow> string option \<times> 'e" where
  "sys_GetNodeExtData c subKey x e = GetNodeExtData c subKey (rt_provider (nd_routing x)) e"

definition sys_SetNodeExtData :: "'e etcd_client \<Rightarrow> string \<Rightarrow> string \<Rightarrow> node \<Rightarrow> 'e \<Rightarrow> bool \<times> 'e" where
  "sys_SetNodeExtData c subKey val x e = SetNodeExtData c subKey val (rt_provider (nd_routing x)) e"

definition sys_RemoveNodeExtData :: "'e etcd_client \<Rightarrow> string \<Rightarrow> node \<Rightarrow> 'e \<Rightarrow> bool \<times> 'e" where
  "sys_RemoveNodeExtData c subKey x e = RemoveNodeExtData c subKey (rt_provider (nd_routing x)) e"

definition sys_WatchNodeExtData :: "'e etcd_client \<Rightarrow> string \<Rightarrow> node \<Rightarrow> 'e \<Rightarrow> ((string \<times> string) list \<times> int) option \<times> 'e" where
  "sys_WatchNodeExtData c subKey x e = WatchNodeExtData c subKey (rt_provider (nd_routing x)) e"

subsection \<open>The keys\<close>

lemma ext_path: "i \<noteq> 0 \<Longrightarrow> getMemberExtDataPath conf sub [i] = ''/'' @ cf_clusterName conf @ ''/member_ext/'' @ sub @ slash # FormatUint i"
  by (simp add: getMemberExtDataPath_def)

text \<open>A sub-key may hold separators; the key still determines the sub-key and the node.\<close>

lemma ext_path_inj:
  assumes "i \<noteq> 0" "j \<noteq> 0"
  shows "getMemberExtDataPath conf s [i] = getMemberExtDataPath conf t [j] \<longleftrightarrow> s = t \<and> i = j"
proof -
  have no: "slash \<notin> set (FormatUint k)" for k by (rule FormatUint_notin) simp
  have "s = t \<and> i = j" if "s @ slash # FormatUint i = t @ slash # FormatUint j"
  proof -
    have "length s = length t"
      using last_index_byte_append_notin [OF no, of s i] last_index_byte_append_notin [OF no, of t j] that by simp
    then show ?thesis using that by simp
  qed
  then show ?thesis by (auto simp: ext_path [OF assms(1)] ext_path [OF assms(2)])
qed

subsection \<open>The table\<close>

definition ext_table :: "config \<Rightarrow> kv_view \<Rightarrow> string \<times> u64 \<rightharpoonup> string \<times> int" where
  "ext_table conf v = (\<lambda>(sub, i). if i = 0 then None else v (getMemberExtDataPath conf sub [i]))"

definition kv_ok :: "('e \<Rightarrow> kv_view) \<Rightarrow> 'e etcd_client \<Rightarrow> bool" where
  "kv_ok view c \<longleftrightarrow>
     (\<forall>k v l e ok e'. ec_Put c k v l e = (ok, e') \<longrightarrow> view e' = (view e)(k \<mapsto> (v, l)) \<or> (\<not> ok \<and> view e' = view e)) \<and>
     (\<forall>k e ok e'. ec_Delete c k e = (ok, e') \<longrightarrow> view e' = (view e)(k := None) \<or> (\<not> ok \<and> view e' = view e)) \<and>
     (\<forall>k e r e'. ec_Get c k e = (r, e') \<longrightarrow> view e' = view e \<and>
        (case r of None \<Rightarrow> True | Some (revn, kvs) \<Rightarrow> kvs = (case view e k of None \<Rightarrow> [] | Some (v, l) \<Rightarrow> [(k, v)])))"

lemma ext_table_update:
  assumes "i \<noteq> 0"
  shows "ext_table conf (v(getMemberExtDataPath conf sub [i] := r)) = (ext_table conf v)((sub, i) := r)"
  using assms by (auto simp: ext_table_def fun_eq_iff ext_path_inj [OF _ assms])

text \<open>
  On a registered node the calls work on its own row of the table: \<open>Set\<close> stores the value under the node's
  lease, \<open>Remove\<close> deletes it, \<open>Get\<close> answers with the value or, when there is none, with the empty string;
  no call touches what another node or another sub-key has, and one that reports an error either did
  nothing or what it was asked to.
\<close>

lemma ext_data_is_a_table:
  fixes x :: node
  defines "pv \<equiv> rt_provider (nd_routing x)"
  assumes ok: "kv_ok view c" and reg: "sys_GetNodeId x \<noteq> 0"
  shows "sys_SetNodeExtData c sub val x e = (r, e') \<Longrightarrow>
      ext_table (pv_config pv) (view e') = (ext_table (pv_config pv) (view e))((sub, sys_GetNodeId x) \<mapsto> (val, pv_leaseId pv)) \<or>
      (\<not> r \<and> ext_table (pv_config pv) (view e') = ext_table (pv_config pv) (view e))"
    and "sys_RemoveNodeExtData c sub x e = (r, e') \<Longrightarrow>
      ext_table (pv_config pv) (view e') = (ext_table (pv_config pv) (view e))((sub, sys_GetNodeId x) := None) \<or>
      (\<not> r \<and> ext_table (pv_config pv) (view e') = ext_table (pv_config pv) (view e))"
    and "sys_GetNodeExtData c sub x e = (g, e') \<Longrightarrow>
      view e' = view e \<and> (g = None \<or> g = Some (case ext_table (pv_config pv) (view e) (sub, sys_GetNodeId x) of
        None \<Rightarrow> [] | Some (v, l) \<Rightarrow> v))"
proof -
  let ?k = "getMemberExtDataPath (pv_config pv) sub [GetNodeId pv]"
  have i: "GetNodeId pv \<noteq> 0" "sys_GetNodeId x = GetNodeId pv" using reg by (simp_all add: sys_GetNodeId_def pv_def)
  note upd = ext_table_update [OF i(1), of "pv_config pv"]
  show "ext_table (pv_config pv) (view e') = (ext_table (pv_config pv) (view e))((sub, sys_GetNodeId x) \<mapsto> (val, pv_leaseId pv)) \<or>
      (\<not> r \<and> ext_table (pv_config pv) (view e') = ext_table (pv_config pv) (view e))"
    if "sys_SetNodeExtData c sub val x e = (r, e')"
  proof -
    have "ec_Put c ?k val (pv_leaseId pv) e = (r, e')" using that by (simp add: sys_SetNodeExtData_def SetNodeExtData_def pv_def)
    then have "view e' = (view e)(?k \<mapsto> (val, pv_leaseId pv)) \<or> (\<not> r \<and> view e' = view e)"
      using ok unfolding kv_ok_def by blast
    then show ?thesis using upd [of "view e" sub] i(2) by auto
  qed
  show "ext_table (pv_config pv) (view e') = (ext_table (pv_config pv) (view e))((sub, sys_GetNodeId x) := None) \<or>
      (\<not> r \<and> ext_table (pv_config pv) (view e') = ext_table (pv_config pv) (view e))"
    if "sys_RemoveNodeExtData c sub x e = (r, e')"
  proof -
    have "ec_Delete c ?k e = (r, e')" using that by (simp add: sys_RemoveNodeExtData_def RemoveNodeExtData_def pv_def)
    then have "view e' = (view e)(?k := None) \<or> (\<not> r \<and> view e' = view e)" using ok unfolding kv_ok_def by blast
    then show ?thesis using upd [of "view e" sub] i(2) by auto
  qed
  show "view e' = view e \<and> (g = None \<or> g = Some (case ext_table (pv_config pv) (view e) (sub, sys_GetNodeId x) of
        None \<Rightarrow> [] | Some (v, l) \<Rightarrow> v))"
    if "sys_GetNodeExtData c sub x e = (g, e')"
  proof -
    obtain r e1 where r1: "ec_Get c ?k e = (r, e1)" by fastforce
    then have r: "ec_Get c ?k e = (r, e')" "g = map_option (\<lambda>(revn, kvs). case kvs of (k, v) # _ \<Rightarrow> v | [] \<Rightarrow> []) r"
      using that by (cases r; auto simp: sys_GetNodeExtData_def GetNodeExtData_def pv_def)+
    have "view e' = view e \<and> (case r of None \<Rightarrow> True | Some (revn, kvs) \<Rightarrow> kvs = (case view e ?k of None \<Rightarrow> [] | Some (v, l) \<Rightarrow> [(?k, v)]))"
      using ok r(1) unfolding kv_ok_def by blast
    then show ?thesis using r(2) i by (auto simp: ext_table_def split: option.splits prod.splits)
  qed
qed

end
