(* ===== verification/Stack_Trace.thy ===== *)
theory Stack_Trace
  imports Go_Strings "HOL-Library.Sublist"
begin

section \<open>Stack traces for the log: ghelper/stack.go\<close>

text \<open>
  \<open>StackTrace\<close> renders at most 32 program counters of the caller's stack, with the file of each frame cut
  to its last two path segments. The stack and the frames the run-time makes of program counters are
  parameters: \<open>runtime.Callers\<close> copies as many counters as fit, \<open>CallersFrames\<close> may give several frames
  for one counter (inlined calls), and \<open>Next\<close> past the last frame gives a zero frame and no more.
\<close>

record go_frame =
  fr_File :: string
  fr_Line :: nat
  fr_Function :: string

definition maxStackFrames :: nat where "maxStackFrames = 32"

definition zero_frame :: go_frame where
  "zero_frame = \<lparr>fr_File = [], fr_Line = 0, fr_Function = []\<rparr>"

definition trimFilePath :: "string \<Rightarrow> string" where
  "trimFilePath file = (if file = [] then ''?'' else
     case last_index_byte file CHR ''/'' of
       None \<Rightarrow> file
     | Some last' \<Rightarrow> if last' = 0 then file else
         (case last_index_byte (take last' file) CHR ''/'' of
            None \<Rightarrow> file
          | Some prev \<Rightarrow> drop (prev + 1) file))"

definition frame_line :: "nat \<Rightarrow> go_frame \<Rightarrow> string" where
  "frame_line i frame = CHR 0x0A # ''frame '' @ Itoa (int i) @ '':[file:'' @ trimFilePath (fr_File frame) @
     '',line:'' @ Itoa (int (fr_Line frame)) @ '',func:'' @ fr_Function frame @ '']''"

definition frames_Next :: "go_frame list \<Rightarrow> go_frame \<times> bool \<times> go_frame list" where
  "frames_Next frames = (case frames of [] \<Rightarrow> (zero_frame, False, []) | f # fs \<Rightarrow> (f, fs \<noteq> [], fs))"

function trace_loop :: "nat \<Rightarrow> go_frame list \<Rightarrow> string" where
  "trace_loop i frames = (case frames_Next frames of (frame, again, rest) \<Rightarrow>
     frame_line i frame @ (if again then trace_loop (i + 1) rest else []))"
  by pat_completeness auto
termination
  by (relation "measure (\<lambda>(i, frames). length frames)") (auto simp: frames_Next_def split: list.splits)

definition truncated_mark :: string where "truncated_mark = CHR 0x0A # ''...(truncated)''"

definition StackTrace :: "('pc list \<Rightarrow> go_frame list) \<Rightarrow> 'pc list \<Rightarrow> string" where
  "StackTrace CallersFrames stack = (let pcs = take maxStackFrames stack; n = length pcs in
     if n = 0 then [] else
     trace_loop 0 (CallersFrames pcs) @ (if n = maxStackFrames then truncated_mark else []))"

declare trace_loop.simps [simp del]

subsection \<open>The path\<close>

lemma last_segment:
  assumes "c \<in> set s"
  obtains a b where "s = a @ c # b" "c \<notin> set b" "last_index_byte s c = Some (length a)"
  using split_list_last [OF assms] that by fastforce

text \<open>The package directory and the file name of a path.\<close>

lemma trimFilePath_segments:
  assumes "CHR ''/'' \<notin> set pkg" "CHR ''/'' \<notin> set name"
  shows "trimFilePath (dir @ ''/'' @ pkg @ ''/'' @ name) = pkg @ ''/'' @ name"
proof -
  have "last_index_byte ((dir @ ''/'' @ pkg) @ CHR ''/'' # name) CHR ''/'' = Some (length (dir @ ''/'' @ pkg))"
    by (rule last_index_byte_append_notin [OF assms(2)])
  moreover have "last_index_byte (dir @ CHR ''/'' # pkg) CHR ''/'' = Some (length dir)"
    by (rule last_index_byte_append_notin [OF assms(1)])
  ultimately show ?thesis by (simp add: trimFilePath_def)
qed

text \<open>Any other path is shown as it is or by a tail of it, with at most one separator.\<close>

lemma trimFilePath_short:
  assumes "file \<noteq> []"
  shows "suffix (trimFilePath file) file \<and> count_list (trimFilePath file) CHR ''/'' \<le> 1"
proof (cases "CHR ''/'' \<in> set file")
  case False
  then have "last_index_byte file CHR ''/'' = None" by simp
  then show ?thesis using assms False by (simp add: trimFilePath_def count_list_0_iff del: last_index_byte_None)
next
  case True
  then obtain a b where ab: "file = a @ CHR ''/'' # b" "CHR ''/'' \<notin> set b" "last_index_byte file CHR ''/'' = Some (length a)"
    by (rule last_segment)
  show ?thesis
  proof (cases "CHR ''/'' \<in> set a")
    case False
    then have "last_index_byte a CHR ''/'' = None" by simp
    then show ?thesis using ab False by (auto simp: trimFilePath_def count_list_0_iff simp del: last_index_byte_None)
  next
    case True
    then obtain c d where cd: "a = c @ CHR ''/'' # d" "CHR ''/'' \<notin> set d" by (rule last_segment)
    then have "trimFilePath file = d @ CHR ''/'' # b"
      using trimFilePath_segments [of d b c] ab(1,2) by simp
    then show ?thesis using ab(1,2) cd by (simp add: count_list_0_iff suffix_def)
  qed
qed

subsection \<open>The trace\<close>

lemma trace_loop_frames:
  "frames \<noteq> [] \<Longrightarrow> trace_loop i frames = concat (map (\<lambda>(k, f). frame_line k f) (enumerate i frames))"
proof (induction frames arbitrary: i)
  case (Cons f fs)
  then show ?case by (cases fs) (simp_all add: trace_loop.simps frames_Next_def)
qed simp

text \<open>
  The trace numbers the frames of the first 32 program counters and renders each once, is empty only
  for an empty stack, and ends with the mark exactly when the stack fills the buffer.
\<close>

lemma StackTrace_renders:
  assumes "CallersFrames (take maxStackFrames stack) \<noteq> []" "stack \<noteq> []"
  shows "StackTrace CallersFrames stack =
    concat (map (\<lambda>(k, f). frame_line k f) (enumerate 0 (CallersFrames (take maxStackFrames stack)))) @
    (if maxStackFrames \<le> length stack then truncated_mark else [])"
  using assms by (simp add: StackTrace_def Let_def trace_loop_frames maxStackFrames_def)

lemma StackTrace_empty: "StackTrace CallersFrames stack = [] \<longleftrightarrow> stack = []"
  by (simp add: StackTrace_def Let_def maxStackFrames_def trace_loop.simps frame_line_def split: prod.splits)

text \<open>A stack of exactly 32 frames is marked as truncated although every frame is shown.\<close>

lemma mark_without_truncation:
  assumes "length stack = maxStackFrames" "length (CallersFrames stack) = maxStackFrames"
  shows "StackTrace CallersFrames stack =
    concat (map (\<lambda>(k, f). frame_line k f) (enumerate 0 (CallersFrames stack))) @ truncated_mark"
proof -
  have "CallersFrames stack \<noteq> []" "stack \<noteq> []" using assms by (auto simp: maxStackFrames_def)
  then show ?thesis using StackTrace_renders [of CallersFrames stack] assms by simp
qed

end
