(* ===== verification/Spec2Isabelle.thy ===== *)
theory Spec2Isabelle
  imports Processor_Properties Addr_Hash Uuid Registry_Spawn Cluster_Lock Stream_Write Event_Stream Schedule System_Start
    Map_Keys Ask_Timer Node_Data Stack_Trace
begin

text \<open>
  A verification development for grain, an actor framework in Go. Actors have mailboxes and handle one
  message at a time; named local actors live on one node, cluster actors (grains) live on the node
  that a hash of their name selects among the members registered in etcd, are activated by their first message and
  protected by a lock in etcd; nodes exchange messages over gRPC streams.

  \<^bold>\<open>Parts, theories and sources.\<close> Paths are relative to the root of the repository.

  \<^item> \<open>Grain_Prelude\<close>: machine integers with their wrap-around, slices with the panics of an index out of range, counting
    lemmas, the collections of simplification rules. \<open>Go_Strings\<close>: the functions of \<open>strings\<close> and \<open>strconv\<close> the code calls.
  \<^item> \<open>Ring_Buffer\<close> (al/ringbuffer): the growing mailbox buffer with its 64-bit indices. It refines a bounded FIFO queue;
    the queue's laws are the locale the processor is proved against.
  \<^item> \<open>Actor_Id\<close> (actor_name.go, actor_parse.go, actor_wrapper.go, reply_ref.go): names, ids, references. The index-based
    parser agrees with splitting; references round-trip through their ids.
  \<^item> \<open>Err_Code\<close> (message/msg.code.go, message.go) and \<open>Message_Context\<close> (context_impl.go, dead_letter.go): error codes matched
    through an error tree; messages, delivery contexts and dead letters.
  \<^item> \<open>Mailbox_Processor\<close> and the seven \<open>Processor\<close> theories (processor_mailbox.go, processor_scheduler.go, execution.go, execution_gate.go,
    processor_lifecycle.go, baseactor.go): an actor's processor as a step relation \<open>pstep\<close> of senders, stop requests and any number of
    drainer goroutines, one step per atomic access. \<open>Processor_Invariants\<close>, \<open>Processor_Life\<close>, \<open>Processor_Wake\<close> and \<open>Processor_Trace\<close> hold the
    invariants, \<open>Processor_Liveness\<close> the measure, \<open>Processor_Script\<close> concrete runs for the witnesses, \<open>Processor_Properties\<close> the results:
    exclusive user code, no message lost, doubled or reordered, no lost wake-up, hooks in order (\<open>PreStop\<close> once after a start that
    returned, never after one that failed), every ask among the dead letters answered, termination.
  \<^item> \<open>Safe_Map\<close> (al/safemap): the mutex map and the sharded map; both refine one finite map.
    \<open>Map_Snapshot\<close>: the goroutines of \<open>snapshot\<close> and \<open>fanIn\<close> beside other writers, as a step relation: an iteration gives
    what each shard held at one moment, never waits for its caller, and ends; \<open>Clear\<close> and \<open>IterCb\<close> beside writers.
    \<open>Map_Keys\<close>: the same for \<open>Keys\<close>, whose senders may wait for the caller.
  \<^item> \<open>Registry_Spawn\<close> (registry.go, processor_spawn.go): the registry and the two spawn policies as a step relation of racing
    callers with panicking producers: creation is serialised per id and never deadlocks.
  \<^item> \<open>Kind_Opts\<close>, \<open>Config\<close> (kind_opts*.go, config*.go): options with their clamps and panics, etcd keys.
  \<^item> \<open>Addr_Hash\<close> (addr_hash.go) and \<open>Uuid\<close> (uuid/): the 32-bit rendezvous hash that places grains, and the 64-bit id generator.
  \<^item> \<open>Provider_Etcd\<close> (provider_etcd.go): joining the cluster, the member watch, the teardown, over an etcd client that is a
    parameter (a record of its calls) with documented behaviour as a hypothesis; an id is claimed by creating its key. \<open>Cluster_Lock\<close> (kind_opts.go): the
    activation lock; at most one activation of a grain runs in the cluster.
  \<^item> \<open>Routing\<close> (routing_resolver.go): generations of membership and the route cache of a reference, as a step relation.
  \<^item> \<open>Ask_Table\<close> (request_helper.go, system.go): pending asks as a step relation of askers, repliers and the shutdown.
    \<open>Ask_Timer\<close>: the clock and the pooled timers of \<open>awaitReply\<close>: an ask times out on its own deadline only.
  \<^item> \<open>System_Send\<close> (system.go, system_cluster.go, context_impl.go, dead_letter.go): a whole node, the send path with its error
    answers, on-demand activation, Reply, Forward, Poison, SpawnNamed.
  \<^item> \<open>Stream_Write\<close> (stream_write.go, system_envelope.go, remote/stream_server.go): the writing and the reading side of a stream.
  \<^item> \<open>Event_Stream\<close> (event_stream.go, system_eventstream.go): subscriptions, their registration in etcd, the watch, publication.
  \<^item> \<open>Schedule\<close> (schedule.go, system_schedule.go, baseactor.go): timers and their cancellation, the helpers of an actor.
  \<^item> \<open>Net_Addr\<close> (al/gonet, remote/stream_server.go): the address a node advertises.
  \<^item> \<open>Node_Data\<close> (system.go): the data a node publishes under its lease, as rows of one table.
  \<^item> \<open>Stack_Trace\<close> (ghelper/stack.go): the rendering of a stack for the log.
  \<^item> \<open>System_Life\<close>, \<open>System_Start\<close> (system_life.go, system_cluster.go, system.go): start, membership changes, ordered shutdown.

  \<^bold>\<open>How they fit together.\<close> A send (\<open>tellWithSender\<close>) looks the target up in the registry, routes it by the resolver, activates it by the spawn
  policies, or hands it to the stream actor of the owning node, all of which end in the processor's \<open>proc_send\<close>; what cannot be
  delivered becomes a dead letter, and a waiting ask gets an error through the ask table. The states of the processors of a
  node (\<open>nd_procs\<close>) are reachable states of \<open>pstep\<close> (\<open>live\<close>), so the theorems on the processor hold for each of them.
  The stepwise and the one-call versions of an operation are related by lemmas where both exist
  (\<open>resolve_is_steps\<close>, \<open>deliverReply_steps\<close>, \<open>treach_wake\<close>). The interfaces stated as locales are the bounded queue under the
  processor, the map with insert-if-absent and conditional removal under the registry, the
  contract the whole-map reads share, and the strict order under the choice of an address; each is
  interpreted on the model's definitions.

  \<^bold>\<open>Concurrency and atomicity.\<close> A mutex-protected operation is one step, an atomic access is one step, and the steps interleave
  freely. On the gate, entering and leaving are one step each. A send on a node is one uninterrupted call; its pieces that race
  in the code (registry creation, route cache, ask table, processor) are proved under interleaving in their own
  theories. The whole-map operations of the sharded map are modelled twice: on a map nobody
  changes (\<open>Safe_Map\<close>), and with their goroutines beside writers. \<open>unfinishedCalls\<close>, an
  \<open>Int32\<close>, is an integer here.

  \<^bold>\<open>Bounds.\<close> Mailbox sizes are below \<open>2 ^ 62\<close>, membership versions below \<open>2 ^ 63\<close>, a node draws fewer than \<open>2 ^ 64\<close> ask
  numbers (\<open>2 ^ 54\<close> keep the ranges of nodes apart); registration has 16 rounds and the lock 3 attempts, as in the code. Clocks
  are functions from the number of the reading to a time; a loop that polls the clock is a partial function, proved to return when the clock moves on.

  \<^bold>\<open>Parameters.\<close> The etcd client, gRPC, protobuf and JSON coding, random numbers, clocks, \<open>net.Interfaces\<close> and \<open>net.Listen\<close> are parameters.
  User code is a nondeterministic choice in the processor; producers return an actor or panic where spawning is
  concerned, and return in \<open>System_Send\<close>. What runs on a node between the rounds of its shutdown is a parameter too: it may
  rely on a node that drains and registers no ask, and keeps it so.

  \<^bold>\<open>Not modelled.\<close> The set-up of the logger, the interface declarations (iface.go, process.go, actor_ref.go, provider.go), generated protobuf
  code, the examples and tools. A lease that ends while an activation under it still runs is outside the model of the
  lock: the code answers it by stopping the node, and nothing bounds how long that takes. Outside \<open>Ask_Timer\<close>,
  \<open>Schedule\<close> and the polling of the shutdown there is no clock: the timeout of an ask may fire at any moment.
\<close>

end
